(* ===== verification/Bridge_Prelude.thy ===== *)
theory Bridge_Prelude
  imports Main "HOL-Library.Word"
begin

text \<open>
  The shared vocabulary of the development: machine integers and byte strings, the
  result type of fallible code, Rust's checked arithmetic, little-endian integers, byte
  readers, and the interface of a byte codec (a locale that every encoder/decoder pair of
  the bridge interprets).
\<close>

unbundle bit_operations_syntax

named_theorems reader_simps \<open>what a reader returns, as an equivalence\<close>
named_theorems pos_simps \<open>positions of the forest as natural numbers\<close>
named_theorems wf_intros \<open>well-formedness of constructed values\<close>

section \<open>Machine integers and byte strings\<close>

type_synonym u8 = "8 word"
type_synonym u16 = "16 word"
type_synonym u32 = "32 word"
type_synonym u64 = "64 word"
type_synonym bytes = "u8 list"

lemma unat_of_nat_small: "n < 2 ^ LENGTH('a) \<Longrightarrow> unat (of_nat n :: 'a::len word) = n"
  unfolding unat_of_nat by simp

lemma unat_two_power: "k < LENGTH('a) \<Longrightarrow> unat (2 ^ k :: 'a::len word) = 2 ^ k"
  using unat_of_nat_small [of "2 ^ k", where 'a = 'a] by simp

lemma bit_nat_less: "bit (n :: nat) i \<Longrightarrow> n < 2 ^ m \<Longrightarrow> i < m"
  by (metis bit_take_bit_iff take_bit_nat_eq_self)

lemma bit_unat: "bit (unat w) i \<longleftrightarrow> bit w i"
  by (simp add: bit_unsigned_iff)

lemma push_bit_or_add: "(k :: nat) < 2 ^ n \<Longrightarrow> push_bit n m OR k = push_bit n m + k"
  by (rule disjunctive_add [symmetric]) (auto simp: bit_simps dest: bit_nat_less)

lemma unat_ucast_small:
  fixes x :: "'a::len word"
  assumes "unat x < 2 ^ LENGTH('b)"
  shows "unat (ucast x :: 'b::len word) = unat x"
  unfolding unsigned_ucast_eq using assms by (rule take_bit_nat_eq_self)

section \<open>Results\<close>

text \<open>
  Rust's \<open>anyhow::Result\<close>: an error carries its message. \<open>Panic\<close> is an unwinding panic
  (an index out of range, an \<open>unwrap\<close> on \<open>None\<close>), \<open>IoError\<close> an error of the operating
  system or of a storage backend.
\<close>

datatype error = Anyhow string | IoError string | Panic string

type_synonym 'a res = "error + 'a"

abbreviation bail :: "string \<Rightarrow> 'a res" where
  "bail m \<equiv> Inl (Anyhow m)"

definition bind_r :: "'a res \<Rightarrow> ('a \<Rightarrow> 'b res) \<Rightarrow> 'b res" where
  "bind_r m k = (case m of Inl e \<Rightarrow> Inl e | Inr x \<Rightarrow> k x)"

lemma bind_r_simps [simp]:
  "bind_r (Inl e) k = Inl e"
  "bind_r (Inr x) k = k x"
  by (simp_all add: bind_r_def)

lemma bind_r_eq_Inr [simp]: "bind_r m k = Inr y \<longleftrightarrow> (\<exists>x. m = Inr x \<and> k x = Inr y)"
  by (auto simp: bind_r_def split: sum.splits)

lemma bind_r_eq_Inl: "bind_r m k = Inl e \<longleftrightarrow> m = Inl e \<or> (\<exists>x. m = Inr x \<and> k x = Inl e)"
  by (auto simp: bind_r_def split: sum.splits)

lemma bind_r_assoc: "bind_r (bind_r m f) g = bind_r m (\<lambda>x. bind_r (f x) g)"
  by (simp add: bind_r_def split: sum.splits)

lemma bind_r_cong [fundef_cong]:
  "m = m' \<Longrightarrow> (\<And>x. m' = Inr x \<Longrightarrow> f x = f' x) \<Longrightarrow> bind_r m f = bind_r m' f'"
  by (simp add: bind_r_def split: sum.splits)

text \<open>\<open>Option::context\<close> and \<open>ok_or_else\<close>.\<close>

definition ok_or :: "'a option \<Rightarrow> string \<Rightarrow> 'a res" where
  "ok_or opt m = (case opt of None \<Rightarrow> bail m | Some x \<Rightarrow> Inr x)"

lemma ok_or_simps [simp]: "ok_or None m = bail m" "ok_or (Some x) m = Inr x"
  by (simp_all add: ok_or_def)

lemma ok_or_eq_Inr [simp]: "ok_or opt m = Inr x \<longleftrightarrow> opt = Some x"
  by (cases opt) auto

text \<open>A \<open>bail!\<close> under a condition.\<close>

definition ensure :: "bool \<Rightarrow> string \<Rightarrow> unit res" where
  "ensure b m = (if b then Inr () else bail m)"

lemma ensure_simps [simp]: "ensure True m = Inr ()" "ensure False m = bail m"
  by (simp_all add: ensure_def)

lemma ensure_eq_Inr [simp]: "ensure b m = Inr u \<longleftrightarrow> b"
  by (simp add: ensure_def)

text \<open>Loops whose body may fail: a fold that stops at the first error, and the map that
  collects results (\<open>collect::<Result<Vec<_>>>\<close>).\<close>

fun fold_r :: "('s \<Rightarrow> 'a \<Rightarrow> 's res) \<Rightarrow> 's \<Rightarrow> 'a list \<Rightarrow> 's res" where
  "fold_r f s [] = Inr s"
| "fold_r f s (x # xs) = bind_r (f s x) (\<lambda>s. fold_r f s xs)"

fun map_r :: "('a \<Rightarrow> 'b res) \<Rightarrow> 'a list \<Rightarrow> 'b list res" where
  "map_r f [] = Inr []"
| "map_r f (x # xs) = bind_r (f x) (\<lambda>y. bind_r (map_r f xs) (\<lambda>ys. Inr (y # ys)))"

lemma fold_r_append: "fold_r f s (xs @ ys) = bind_r (fold_r f s xs) (\<lambda>s. fold_r f s ys)"
  by (induction xs arbitrary: s) (auto simp: bind_r_assoc)

lemma fold_r_Inr_fold:
  "(\<And>s x. x \<in> set xs \<Longrightarrow> f s x = Inr (g x s)) \<Longrightarrow> fold_r f s xs = Inr (fold g xs s)"
  by (induction xs arbitrary: s) auto

lemma fold_r_invariant:
  assumes "fold_r f s xs = Inr t" and "P s"
    and "\<And>s x t. P s \<Longrightarrow> x \<in> set xs \<Longrightarrow> f s x = Inr t \<Longrightarrow> P t"
  shows "P t"
  using assms
proof (induction xs arbitrary: s)
  case Nil
  then show ?case by simp
next
  case (Cons x xs)
  from Cons.prems(1) obtain s' where s': "f s x = Inr s'" "fold_r f s' xs = Inr t" by auto
  have "P s'" using Cons.prems(3) [OF Cons.prems(2) _ s'(1)] by simp
  with s'(2) show ?case
    by (rule Cons.IH) (meson Cons.prems(3) list.set_intros(2))
qed

lemma map_r_Inr_iff: "map_r f xs = Inr ys \<longleftrightarrow> list_all2 (\<lambda>x y. f x = Inr y) xs ys"
proof (induction xs arbitrary: ys)
  case Nil
  then show ?case by auto
next
  case (Cons x xs)
  then show ?case by (cases ys) auto
qed

lemma map_r_length: "map_r f xs = Inr ys \<Longrightarrow> length ys = length xs"
  by (metis map_r_Inr_iff list_all2_lengthD)

lemma map_r_all_Inr: "(\<And>x. x \<in> set xs \<Longrightarrow> f x = Inr (g x)) \<Longrightarrow> map_r f xs = Inr (map g xs)"
  by (induction xs) auto

section \<open>Checked arithmetic\<close>

definition checked_add :: "'a::len word \<Rightarrow> 'a word \<Rightarrow> 'a word option" where
  "checked_add a b = (if unat a + unat b < 2 ^ LENGTH('a) then Some (a + b) else None)"

definition checked_sub :: "'a::len word \<Rightarrow> 'a word \<Rightarrow> 'a word option" where
  "checked_sub a b = (if b \<le> a then Some (a - b) else None)"

definition checked_mul :: "'a::len word \<Rightarrow> 'a word \<Rightarrow> 'a word option" where
  "checked_mul a b = (if unat a * unat b < 2 ^ LENGTH('a) then Some (a * b) else None)"

lemma checked_add_Some: "checked_add a b = Some c \<Longrightarrow> unat c = unat a + unat b"
  by (auto simp: checked_add_def unat_word_ariths split: if_splits)

lemma checked_sub_Some: "checked_sub a b = Some c \<Longrightarrow> unat c = unat a - unat b"
  by (auto simp: checked_sub_def unat_sub split: if_splits)

lemma checked_mul_Some: "checked_mul a b = Some c \<Longrightarrow> unat c = unat a * unat b"
  by (auto simp: checked_mul_def unat_word_ariths split: if_splits)

lemma checked_sub_eq_Some: "checked_sub a b = Some c \<longleftrightarrow> b \<le> a \<and> c = a - b"
  by (auto simp: checked_sub_def)

section \<open>Little-endian integers\<close>

text \<open>\<open>to_le_bytes\<close> and \<open>from_le_bytes\<close>, on \<open>n\<close> bytes.\<close>

fun le_bytes :: "nat \<Rightarrow> 'a::len word \<Rightarrow> bytes" where
  "le_bytes 0 w = []"
| "le_bytes (Suc n) w = ucast w # le_bytes n (drop_bit 8 w)"

fun from_le :: "bytes \<Rightarrow> 'a::len word" where
  "from_le [] = 0"
| "from_le (b # bs) = ucast b OR push_bit 8 (from_le bs)"

lemma length_le_bytes [simp]: "length (le_bytes n w) = n"
  by (induction n arbitrary: w) auto

lemma from_le_le_bytes_take: "from_le (le_bytes n w) = take_bit (8 * n) (w :: 'a::len word)"
proof (induction n arbitrary: w)
  case 0
  then show ?case by simp
next
  case (Suc n)
  show ?case
    by (rule bit_word_eqI)
      (auto simp: Suc.IH bit_simps not_less)
qed

lemma from_le_le_bytes [simp]: "LENGTH('a) \<le> 8 * n \<Longrightarrow> from_le (le_bytes n w) = (w :: 'a::len word)"
  by (simp add: from_le_le_bytes_take take_bit_word_eq_self)

lemma bit_from_le: "bit (from_le bs :: 'a::len word) i \<Longrightarrow> i < 8 * length bs"
proof (induction bs arbitrary: i)
  case Nil
  then show ?case by simp
next
  case (Cons c cs)
  from Cons.prems have "bit c i \<or> 8 \<le> i \<and> bit (from_le cs :: 'a word) (i - 8)"
    by (auto simp: bit_simps)
  then show ?case
    using Cons.IH [of "i - 8"] bit_imp_le_length [of c i] by fastforce
qed

lemma le_bytes_from_le [simp]:
  "8 * length bs \<le> LENGTH('a) \<Longrightarrow> length bs = n \<Longrightarrow> le_bytes n (from_le bs :: 'a::len word) = bs"
proof (induction bs arbitrary: n)
  case Nil
  then show ?case by simp
next
  case (Cons b bs)
  have hd: "(ucast (ucast b OR push_bit 8 (from_le bs :: 'a word)) :: u8) = b"
    using Cons.prems by (intro bit_word_eqI) (auto simp: bit_simps)
  have tl: "drop_bit 8 (ucast b OR push_bit 8 (from_le bs :: 'a word)) = (from_le bs :: 'a word)"
    using Cons.prems
    by (intro bit_word_eqI) (auto simp: bit_simps dest: bit_imp_le_length bit_from_le)
  from Cons.prems obtain m where m: "n = Suc m" "length bs = m" by auto
  show ?case using Cons.IH [of m] Cons.prems m
    by (simp add: hd tl del: drop_bit_or)
qed

lemma nth_le_bytes: "i < n \<Longrightarrow> le_bytes n w ! i = ucast (drop_bit (8 * i) w)"
proof (induction n arbitrary: w i)
  case 0
  then show ?case by simp
next
  case (Suc n)
  then show ?case by (cases i) (auto simp: drop_bit_drop_bit add.commute)
qed

lemma le_bytes_ucast:
  fixes w :: "'a::len word"
  assumes "8 * n \<le> LENGTH('b)"
  shows "le_bytes n (ucast w :: 'b::len word) = le_bytes n w"
proof (rule nth_equalityI)
  fix i assume "i < length (le_bytes n (ucast w :: 'b word))"
  then have i: "i < n" by simp
  have "(ucast (drop_bit (8 * i) (ucast w :: 'b word)) :: u8) = ucast (drop_bit (8 * i) w)"
    using i assms by (intro bit_word_eqI) (auto simp: bit_simps)
  then show "le_bytes n (ucast w :: 'b word) ! i = le_bytes n w ! i"
    using i by (simp add: nth_le_bytes)
qed simp

section \<open>Readers\<close>

text \<open>A reader is a function from the remaining bytes to a value and the bytes left.\<close>

type_synonym 'a reader = "bytes \<Rightarrow> ('a \<times> bytes) res"

fun read_n :: "'a reader \<Rightarrow> nat \<Rightarrow> 'a list reader" where
  "read_n d 0 r = Inr ([], r)"
| "read_n d (Suc n) r =
     bind_r (d r) (\<lambda>(x, r). bind_r (read_n d n r) (\<lambda>(xs, r). Inr (x # xs, r)))"

section \<open>The interface of a codec\<close>

text \<open>
  What the storage and wire formats promise of one item: decoding what was encoded, in
  front of any further bytes, returns the item and leaves exactly those bytes.
\<close>

locale codec =
  fixes enc :: "'a \<Rightarrow> bytes"
    and dec :: "'a reader"
    and wf :: "'a \<Rightarrow> bool"
  assumes dec_enc: "wf x \<Longrightarrow> dec (enc x @ r) = Inr (x, r)"
begin

lemma enc_inj:
  assumes "wf x" and "wf y" and "enc x @ r = enc y @ s"
  shows "x = y \<and> r = s"
  using dec_enc [OF assms(1), of r] dec_enc [OF assms(2), of s] unfolding assms(3) by simp

lemma read_n_enc:
  "list_all wf xs \<Longrightarrow> n = length xs \<Longrightarrow> read_n dec n (concat (map enc xs) @ r) = Inr (xs, r)"
  by (induction xs arbitrary: n) (auto simp: dec_enc)

lemma concat_enc_inj:
  assumes "list_all wf xs" and "list_all wf ys" and "length xs = length ys"
    and "concat (map enc xs) @ r = concat (map enc ys) @ s"
  shows "xs = ys \<and> r = s"
  using read_n_enc [OF assms(1) refl, of r] read_n_enc [OF assms(2) refl, of s]
  unfolding assms(3,4) by simp

end

text \<open>A canonical codec accepts nothing but its own encodings, and so is a bijection.\<close>

locale strict_codec =
  fixes enc :: "'a \<Rightarrow> bytes"
    and dec :: "'a reader"
    and wf :: "'a \<Rightarrow> bool"
  assumes dec_iff: "dec bs = Inr (x, r) \<longleftrightarrow> wf x \<and> bs = enc x @ r"
begin

lemma dec_sound: "dec bs = Inr (x, r) \<Longrightarrow> bs = enc x @ r"
  by (simp add: dec_iff)

lemma read_n_iff:
  "read_n dec n bs = Inr (xs, r) \<longleftrightarrow>
     length xs = n \<and> list_all wf xs \<and> bs = concat (map enc xs) @ r"
proof (induction n arbitrary: bs xs)
  case 0
  then show ?case by auto
next
  case (Suc n)
  show ?case
    by (cases xs) (auto simp: dec_iff Suc.IH split: prod.splits)
qed

end

sublocale strict_codec \<subseteq> codec enc dec wf
  by unfold_locales (simp add: dec_iff)

text \<open>A codec of constant width, as the length checks of the readers rely on.\<close>

locale fixed_codec = strict_codec enc dec wf
  for enc :: "'a \<Rightarrow> bytes" and dec :: "'a reader" and wf :: "'a \<Rightarrow> bool" +
  fixes width :: nat
  assumes length_enc: "wf x \<Longrightarrow> length (enc x) = width"
begin

lemma length_concat_enc: "list_all wf xs \<Longrightarrow> length (concat (map enc xs)) = width * length xs"
  by (induction xs) (auto simp: length_enc)

end

end
