(* ===== verification/Journal_Codec.thy ===== *)
theory Journal_Codec
  imports Bridge_Prelude
begin

text \<open>
  The block journal's data model and its byte format: \<open>JournalEntry\<close> and its parts,
  \<open>encode_entry\<close> and \<open>decode_entry\<close> of \<open>src/src/forest_journal.rs\<close>. The codec is shown
  to be a bijection between well-formed entries and accepted payloads.
\<close>

section \<open>Data model\<close>

text \<open>\<open>bitcoin::OutPoint\<close>, as far as the bridge uses it.\<close>

record OutPoint =
  op_txid :: bytes
  op_vout :: u32

record JournalNodeState =
  jn_ready :: bool
  jn_spent :: bool
  jn_hash :: bytes

definition UNINITIALIZED :: JournalNodeState where
  "UNINITIALIZED = \<lparr>jn_ready = False, jn_spent = False, jn_hash = replicate 32 0\<rparr>"

record JournalForestDelta =
  fd_position :: u64
  fd_before :: JournalNodeState
  fd_after :: JournalNodeState

record JournalIndexDelta =
  ix_outpoint :: OutPoint
  ix_position :: u64

record JournalEntry =
  je_height :: u32
  je_block_hash :: bytes
  je_num_leaves :: u64
  je_previous_block_hash :: bytes
  je_forest :: "JournalForestDelta list"
  je_removed :: "JournalIndexDelta list"
  je_added :: "JournalIndexDelta list"
  je_forest_rows :: "u8 option"

definition previous_num_leaves :: "JournalEntry \<Rightarrow> u64 res" where
  "previous_num_leaves e =
     ok_or (checked_sub (je_num_leaves e) (of_nat (length (je_added e))))
       ''journal addition count exceeds numleaves''"

section \<open>Readers of the journal payload\<close>

definition take_array :: "nat \<Rightarrow> bytes reader" where
  "take_array n r =
     (if n \<le> length r then Inr (take n r, drop n r)
      else bail ''journal entry ended unexpectedly'')"

definition take_u64 :: "u64 reader" where
  "take_u64 r = bind_r (take_array 8 r) (\<lambda>(bs, r). Inr (from_le bs, r))"

definition take_u32 :: "u32 reader" where
  "take_u32 r = bind_r (take_array 4 r) (\<lambda>(bs, r). Inr (from_le bs, r))"

definition take_len :: "nat \<Rightarrow> nat reader" where
  "take_len element_size r =
     bind_r (take_u32 r) (\<lambda>(n, r).
       if unat n > length r div element_size
       then bail ''journal vector length exceeds remaining payload''
       else Inr (unat n, r))"

definition push_len :: "nat \<Rightarrow> bytes res" where
  "push_len n =
     (if n < 2 ^ 32 then Inr (le_bytes 4 (of_nat n :: u32))
      else bail ''journal vector exceeds u32'')"

section \<open>Items\<close>

definition encode_state :: "JournalNodeState \<Rightarrow> bytes" where
  "encode_state s =
     (of_bool (jn_ready s) OR push_bit 1 (of_bool (jn_spent s))) # jn_hash s"

definition decode_state :: "JournalNodeState reader" where
  "decode_state r =
     bind_r (take_array 1 r) (\<lambda>(bs, r).
       let flags = hd bs in
       if flags AND NOT 3 \<noteq> 0 then bail ''journal node has unknown flags''
       else bind_r (take_array 32 r) (\<lambda>(h, r).
         Inr (\<lparr>jn_ready = (flags AND 1 \<noteq> 0), jn_spent = (flags AND 2 \<noteq> 0), jn_hash = h\<rparr>, r)))"

definition encode_forest_delta :: "JournalForestDelta \<Rightarrow> bytes" where
  "encode_forest_delta d =
     le_bytes 8 (fd_position d) @ encode_state (fd_before d) @ encode_state (fd_after d)"

definition decode_forest_delta :: "JournalForestDelta reader" where
  "decode_forest_delta r =
     bind_r (take_u64 r) (\<lambda>(p, r).
     bind_r (decode_state r) (\<lambda>(b, r).
     bind_r (decode_state r) (\<lambda>(a, r).
       Inr (\<lparr>fd_position = p, fd_before = b, fd_after = a\<rparr>, r))))"

definition encode_index_delta :: "JournalIndexDelta \<Rightarrow> bytes" where
  "encode_index_delta d =
     op_txid (ix_outpoint d) @ le_bytes 4 (op_vout (ix_outpoint d)) @ le_bytes 8 (ix_position d)"

definition decode_index_delta :: "JournalIndexDelta reader" where
  "decode_index_delta r =
     bind_r (take_array 32 r) (\<lambda>(t, r).
     bind_r (take_u32 r) (\<lambda>(v, r).
     bind_r (take_u64 r) (\<lambda>(p, r).
       Inr (\<lparr>ix_outpoint = \<lparr>op_txid = t, op_vout = v\<rparr>, ix_position = p\<rparr>, r))))"

section \<open>Entries\<close>

definition encode_entry :: "JournalEntry \<Rightarrow> bytes res" where
  "encode_entry e =
     bind_r (push_len (length (je_forest e))) (\<lambda>nf.
     bind_r (push_len (length (je_removed e))) (\<lambda>nr.
     bind_r (push_len (length (je_added e))) (\<lambda>na.
     bind_r (case je_forest_rows e of
               None \<Rightarrow> Inr []
             | Some rows \<Rightarrow> if rows > 63 then bail ''invalid journal forest rows'' else Inr [rows])
      (\<lambda>rows.
       Inr (je_block_hash e @ le_bytes 8 (je_num_leaves e) @ le_bytes 4 (je_height e) @
            je_previous_block_hash e @
            nf @ concat (map encode_forest_delta (je_forest e)) @
            nr @ concat (map encode_index_delta (je_removed e)) @
            na @ concat (map encode_index_delta (je_added e)) @ rows)))))"

definition decode_rows :: "bytes \<Rightarrow> u8 option res" where
  "decode_rows r =
     (case r of
        [] \<Rightarrow> Inr None
      | [rows] \<Rightarrow> if rows \<le> 63 then Inr (Some rows)
                  else bail ''journal entry has invalid forest layout or trailing bytes''
      | _ \<Rightarrow> bail ''journal entry has invalid forest layout or trailing bytes'')"

definition decode_entry :: "bytes \<Rightarrow> JournalEntry res" where
  "decode_entry bs =
     bind_r (take_array 32 bs) (\<lambda>(block_hash, r).
     bind_r (take_u64 r) (\<lambda>(num_leaves, r).
     bind_r (take_u32 r) (\<lambda>(height, r).
     bind_r (take_array 32 r) (\<lambda>(previous_block_hash, r).
     bind_r (take_len 74 r) (\<lambda>(forest_len, r).
     bind_r (read_n decode_forest_delta forest_len r) (\<lambda>(forest, r).
     bind_r (take_len 44 r) (\<lambda>(removed_len, r).
     bind_r (read_n decode_index_delta removed_len r) (\<lambda>(removed, r).
     bind_r (take_len 44 r) (\<lambda>(added_len, r).
     bind_r (read_n decode_index_delta added_len r) (\<lambda>(added, r).
     bind_r (decode_rows r) (\<lambda>forest_rows.
       Inr \<lparr>je_height = height, je_block_hash = block_hash, je_num_leaves = num_leaves,
            je_previous_block_hash = previous_block_hash, je_forest = forest,
            je_removed = removed, je_added = added, je_forest_rows = forest_rows\<rparr>)))))))))))"

section \<open>Well-formedness: array fields have their Rust length\<close>

definition wf_state :: "JournalNodeState \<Rightarrow> bool" where
  "wf_state s \<longleftrightarrow> length (jn_hash s) = 32"

definition wf_forest_delta :: "JournalForestDelta \<Rightarrow> bool" where
  "wf_forest_delta d \<longleftrightarrow> wf_state (fd_before d) \<and> wf_state (fd_after d)"

definition wf_index_delta :: "JournalIndexDelta \<Rightarrow> bool" where
  "wf_index_delta d \<longleftrightarrow> length (op_txid (ix_outpoint d)) = 32"

definition wf_entry :: "JournalEntry \<Rightarrow> bool" where
  "wf_entry e \<longleftrightarrow>
     length (je_block_hash e) = 32 \<and> length (je_previous_block_hash e) = 32 \<and>
     list_all wf_forest_delta (je_forest e) \<and>
     list_all wf_index_delta (je_removed e) \<and> list_all wf_index_delta (je_added e)"

section \<open>Each item is a canonical codec of fixed width\<close>

lemma take_array_iff [reader_simps]:
  "take_array n bs = Inr (x, r) \<longleftrightarrow> length x = n \<and> bs = x @ r"
  by (auto simp: take_array_def)

lemma take_u64_iff [reader_simps]: "take_u64 bs = Inr (x, r) \<longleftrightarrow> bs = le_bytes 8 x @ r"
proof
  assume "take_u64 bs = Inr (x, r)"
  then obtain xs where "length xs = 8" "bs = xs @ r" "x = from_le xs"
    by (auto simp: take_u64_def take_array_iff)
  then show "bs = le_bytes 8 x @ r" by simp
next
  assume "bs = le_bytes 8 x @ r"
  then show "take_u64 bs = Inr (x, r)"
    by (simp add: take_u64_def take_array_def)
qed

lemma take_u32_iff [reader_simps]: "take_u32 bs = Inr (x, r) \<longleftrightarrow> bs = le_bytes 4 x @ r"
proof
  assume "take_u32 bs = Inr (x, r)"
  then obtain xs where "length xs = 4" "bs = xs @ r" "x = from_le xs"
    by (auto simp: take_u32_def take_array_iff)
  then show "bs = le_bytes 4 x @ r" by simp
next
  assume "bs = le_bytes 4 x @ r"
  then show "take_u32 bs = Inr (x, r)"
    by (simp add: take_u32_def take_array_def)
qed

lemma take_len_iff:
  "take_len w bs = Inr (n, r) \<longleftrightarrow>
     n < 2 ^ 32 \<and> bs = le_bytes 4 (of_nat n :: u32) @ r \<and> n \<le> length r div w"
proof -
  have "n < 2 ^ 32 \<Longrightarrow> unat (of_nat n :: u32) = n" for n
    by (rule unat_of_nat_small) simp
  moreover have "unat (m :: u32) < 2 ^ 32" for m using unsigned_less [of m] by simp
  ultimately show ?thesis
    by (auto simp: take_len_def take_u32_iff split: if_splits) (metis not_le)+
qed

interpretation u64_codec: fixed_codec "le_bytes 8" take_u64 "\<lambda>_. True" 8
  by unfold_locales (simp_all add: take_u64_iff)

interpretation u32_codec: fixed_codec "le_bytes 4" take_u32 "\<lambda>_. True" 4
  by unfold_locales (simp_all add: take_u32_iff)

lemma flags_cases:
  fixes f :: u8
  assumes "f AND NOT 3 = 0"
  shows "f = 0 \<or> f = 1 \<or> f = 2 \<or> f = 3"
proof -
  have "f = (f AND 3) OR (f AND NOT 3)"
    by (simp flip: bit.conj_disj_distrib)
  with assms have "f AND 3 = f" by simp
  then have "f \<le> 3" by (metis word_and_le1)
  then have "unat f \<le> 3" by (simp add: word_le_nat_alt)
  then have "unat f = 0 \<or> unat f = 1 \<or> unat f = 2 \<or> unat f = 3" by arith
  then show ?thesis by (simp add: word_unat_eq_iff)
qed

lemma encode_state_iff [reader_simps]:
  "decode_state bs = Inr (s, r) \<longleftrightarrow> wf_state s \<and> bs = encode_state s @ r"
proof
  assume "decode_state bs = Inr (s, r)"
  then obtain f h where "f AND NOT 3 = 0" "length h = 32" "bs = f # h @ r"
    and s: "s = \<lparr>jn_ready = (f AND 1 \<noteq> 0), jn_spent = (f AND 2 \<noteq> 0), jn_hash = h\<rparr>"
    by (auto simp: decode_state_def take_array_iff Let_def length_Suc_conv split: if_splits)
  then show "wf_state s \<and> bs = encode_state s @ r"
    using flags_cases [of f] by (auto simp: wf_state_def encode_state_def)
next
  assume "wf_state s \<and> bs = encode_state s @ r"
  then show "decode_state bs = Inr (s, r)"
    by (cases "jn_ready s"; cases "jn_spent s")
      (auto simp: wf_state_def encode_state_def decode_state_def take_array_def)
qed

interpretation state_codec: fixed_codec encode_state decode_state wf_state 33
  by unfold_locales (simp_all add: encode_state_iff, simp add: encode_state_def wf_state_def)

interpretation forest_delta_codec:
  fixed_codec encode_forest_delta decode_forest_delta wf_forest_delta 74
proof
  show "decode_forest_delta bs = Inr (x, r) \<longleftrightarrow> wf_forest_delta x \<and> bs = encode_forest_delta x @ r"
    for bs x r
    by (cases x) (auto simp: decode_forest_delta_def encode_forest_delta_def wf_forest_delta_def
        take_u64_iff encode_state_iff)
  show "wf_forest_delta x \<Longrightarrow> length (encode_forest_delta x) = 74" for x
    by (simp add: encode_forest_delta_def wf_forest_delta_def state_codec.length_enc)
qed

interpretation index_delta_codec:
  fixed_codec encode_index_delta decode_index_delta wf_index_delta 44
proof
  show "decode_index_delta bs = Inr (x, r) \<longleftrightarrow> wf_index_delta x \<and> bs = encode_index_delta x @ r"
    for bs x r
    by (cases x, cases "ix_outpoint x")
      (auto simp: decode_index_delta_def encode_index_delta_def wf_index_delta_def
        take_u64_iff take_u32_iff take_array_iff)
  show "wf_index_delta x \<Longrightarrow> length (encode_index_delta x) = 44" for x
    by (simp add: encode_index_delta_def wf_index_delta_def)
qed

section \<open>A vector is its length followed by its items\<close>

context fixed_codec
begin

lemma read_vector_iff:
  assumes "0 < width"
  shows "(\<exists>n r'. take_len width bs = Inr (n, r') \<and> read_n dec n r' = Inr (xs, r)) \<longleftrightarrow>
     list_all wf xs \<and> length xs < 2 ^ 32 \<and>
     bs = le_bytes 4 (of_nat (length xs) :: u32) @ concat (map enc xs) @ r"
  using assms by (auto simp: take_len_iff read_n_iff length_concat_enc)

end

lemma push_len_iff [reader_simps]:
  "push_len n = Inr bs \<longleftrightarrow> n < 2 ^ 32 \<and> bs = le_bytes 4 (of_nat n :: u32)"
  by (auto simp: push_len_def)

lemma decode_rows_iff [reader_simps]:
  "decode_rows r = Inr rows \<longleftrightarrow>
     (case rows of None \<Rightarrow> r = [] | Some x \<Rightarrow> x \<le> 63 \<and> r = [x])"
  by (auto simp: decode_rows_def split: list.splits option.splits)

lemma read_append [simp]:
  "length x = n \<Longrightarrow> take_array n (x @ r) = Inr (x, r)"
  "take_u64 (le_bytes 8 p @ r) = Inr (p, r)"
  "take_u32 (le_bytes 4 h @ r) = Inr (h, r)"
  by (simp_all add: reader_simps)

lemma take_len_append:
  "m < 2 ^ 32 \<Longrightarrow> m \<le> length r div w \<Longrightarrow> take_len w (le_bytes 4 (of_nat m :: u32) @ r) = Inr (m, r)"
  by (simp add: take_len_iff)

lemma encode_entry_iff:
  "encode_entry e = Inr bs \<longleftrightarrow>
     length (je_forest e) < 2 ^ 32 \<and> length (je_removed e) < 2 ^ 32 \<and>
     length (je_added e) < 2 ^ 32 \<and> (\<forall>rows. je_forest_rows e = Some rows \<longrightarrow> rows \<le> 63) \<and>
     bs = je_block_hash e @ le_bytes 8 (je_num_leaves e) @ le_bytes 4 (je_height e) @
          je_previous_block_hash e @
          le_bytes 4 (of_nat (length (je_forest e)) :: u32) @
          concat (map encode_forest_delta (je_forest e)) @
          le_bytes 4 (of_nat (length (je_removed e)) :: u32) @
          concat (map encode_index_delta (je_removed e)) @
          le_bytes 4 (of_nat (length (je_added e)) :: u32) @
          concat (map encode_index_delta (je_added e)) @
          (case je_forest_rows e of None \<Rightarrow> [] | Some rows \<Rightarrow> [rows])"
  unfolding encode_entry_def
  by (cases "je_forest_rows e") (auto simp: push_len_iff not_less split: if_splits)

lemma decode_encode_entry:
  assumes "wf_entry e" and "encode_entry e = Inr bs"
  shows "decode_entry bs = Inr e"
  using assms unfolding encode_entry_iff wf_entry_def decode_entry_def
  by (cases "je_forest_rows e")
    (auto simp: take_len_append forest_delta_codec.length_concat_enc
      index_delta_codec.length_concat_enc forest_delta_codec.read_n_enc
      index_delta_codec.read_n_enc index_delta_codec.read_n_enc [where r = "[]", simplified]
      decode_rows_def)

lemma decode_entry_sound:
  assumes "decode_entry bs = Inr e"
  shows "wf_entry e \<and> encode_entry e = Inr bs"
proof -
  from assms obtain r1 r2 r3 r4 s1 s2 s3 n1 n2 n3 where
    bs: "bs = je_block_hash e @ le_bytes 8 (je_num_leaves e) @ le_bytes 4 (je_height e) @
          je_previous_block_hash e @ r1"
      "length (je_block_hash e) = 32" "length (je_previous_block_hash e) = 32"
    and f: "take_len 74 r1 = Inr (n1, s1)" "read_n decode_forest_delta n1 s1 = Inr (je_forest e, r2)"
    and r: "take_len 44 r2 = Inr (n2, s2)" "read_n decode_index_delta n2 s2 = Inr (je_removed e, r3)"
    and a: "take_len 44 r3 = Inr (n3, s3)" "read_n decode_index_delta n3 s3 = Inr (je_added e, r4)"
    and rows: "decode_rows r4 = Inr (je_forest_rows e)"
    unfolding decode_entry_def by (clarsimp simp: take_array_iff take_u64_iff take_u32_iff)
  note f' = f(1) [unfolded take_len_iff] f(2) [unfolded forest_delta_codec.read_n_iff]
  note r' = r(1) [unfolded take_len_iff] r(2) [unfolded index_delta_codec.read_n_iff]
  note a' = a(1) [unfolded take_len_iff] a(2) [unfolded index_delta_codec.read_n_iff]
  have "r4 = (case je_forest_rows e of None \<Rightarrow> [] | Some rows \<Rightarrow> [rows])"
    "\<forall>rows. je_forest_rows e = Some rows \<longrightarrow> rows \<le> 63"
    using rows by (auto simp: decode_rows_iff split: option.splits)
  with bs f' r' a' show ?thesis
    unfolding encode_entry_iff wf_entry_def by simp
qed

section \<open>Properties\<close>

text \<open>C19. The journal's payload format is exact: \<open>decode_entry\<close> accepts a byte string if and only
  if it is the encoding of a well-formed entry, and then returns that entry. So decoding inverts
  encoding, no two entries share an encoding, and every malformed payload (a truncated field, an
  inconsistent length prefix, a flag byte other than 0 or 1, trailing bytes, too many rows) is an
  error.\<close>

theorem decode_entry_exact:
  "decode_entry bs = Inr e \<longleftrightarrow> wf_entry e \<and> encode_entry e = Inr bs"
  using decode_encode_entry decode_entry_sound by blast

end
