(* ===== verification/External.thy ===== *)
theory External
  imports Journal_Codec
begin

text \<open>
  The third-party code the bridge calls, as parameters of the model: records of functions
  that the definitions of the other theories take as an argument, and the documented
  behaviour the proofs rely on, as named predicates over them. Nothing here is a model of
  that code.
\<close>

section \<open>\<open>bitcoin::consensus\<close>\<close>

text \<open>The consensus encodings of the \<open>bitcoin\<close> crate that the compact proof format uses.\<close>

record consensus =
  c_varint_enc :: "u64 \<Rightarrow> bytes"
  c_varint_dec :: "u64 reader"
  c_u8_enc :: "u8 \<Rightarrow> bytes"
  c_u8_dec :: "u8 reader"
  c_u32_enc :: "u32 \<Rightarrow> bytes"
  c_u32_dec :: "u32 reader"
  c_u64_enc :: "u64 \<Rightarrow> bytes"
  c_u64_dec :: "u64 reader"
  c_hash_enc :: "bytes \<Rightarrow> bytes"
  c_hash_dec :: "bytes reader"
  c_boxed_enc :: "bytes \<Rightarrow> bytes"
  c_boxed_dec :: "bytes reader"

text \<open>The crate's decoder of a boxed byte slice refuses more than four million bytes.\<close>

definition MAX_VEC_SIZE :: nat where
  "MAX_VEC_SIZE = 4000000"

definition consensus_ok :: "consensus \<Rightarrow> bool" where
  "consensus_ok C \<longleftrightarrow>
     codec (c_varint_enc C) (c_varint_dec C) (\<lambda>_. True) \<and> (\<forall>n. c_varint_enc C n \<noteq> []) \<and>
     codec (c_u8_enc C) (c_u8_dec C) (\<lambda>_. True) \<and> (\<forall>b. length (c_u8_enc C b) = 1) \<and>
     codec (c_u32_enc C) (c_u32_dec C) (\<lambda>_. True) \<and>
     codec (c_u64_enc C) (c_u64_dec C) (\<lambda>_. True) \<and>
     codec (c_hash_enc C) (c_hash_dec C) (\<lambda>h. length h = 32) \<and>
     codec (c_boxed_enc C) (c_boxed_dec C) (\<lambda>b. length b \<le> MAX_VEC_SIZE)"

section \<open>\<open>bitcoin::Script\<close>\<close>

record script_ops =
  s_is_p2pkh :: "bytes \<Rightarrow> bool"
  s_is_p2sh :: "bytes \<Rightarrow> bool"
  s_is_p2wpkh :: "bytes \<Rightarrow> bool"
  s_is_p2wsh :: "bytes \<Rightarrow> bool"

section \<open>\<open>bitcoin::block::Header\<close>\<close>

record 'h header_ops =
  h_enc :: "'h \<Rightarrow> bytes"
  h_dec :: "'h reader"
  h_block_hash :: "'h \<Rightarrow> bytes"
  h_prev_blockhash :: "'h \<Rightarrow> bytes"

text \<open>A header is a fixed 80-byte value; its hash and its parent's are 32 bytes.\<close>

definition header_ok :: "'h header_ops \<Rightarrow> bool" where
  "header_ok H \<longleftrightarrow>
     codec (h_enc H) (h_dec H) (\<lambda>_. True) \<and>
     (\<forall>h. length (h_enc H h) = 80) \<and>
     (\<forall>h. length (h_block_hash H h) = 32) \<and> (\<forall>h. length (h_prev_blockhash H h) = 32)"

section \<open>A concrete instance of the encodings\<close>

text \<open>
  The encodings as Bitcoin's protocol documentation gives them: little-endian integers, and
  CompactSize lengths whose decoder refuses a longer form than needed. It shows that the
  hypotheses above can hold, and concrete examples are evaluated with it.
\<close>

definition std_varint_enc :: "u64 \<Rightarrow> bytes" where
  "std_varint_enc n =
     (if n < 253 then [ucast n]
      else if n < 65536 then 253 # le_bytes 2 n
      else if n < 4294967296 then 254 # le_bytes 4 n
      else 255 # le_bytes 8 n)"

definition std_varint_dec :: "u64 reader" where
  "std_varint_dec r =
     bind_r (take_array 1 r) (\<lambda>(t, r).
       let tag = hd t in
       if tag = 253 then bind_r (take_array 2 r) (\<lambda>(b, r).
         let n = from_le b in if n < 253 then bail ''non-minimal varint'' else Inr (n, r))
       else if tag = 254 then bind_r (take_array 4 r) (\<lambda>(b, r).
         let n = from_le b in if n < 65536 then bail ''non-minimal varint'' else Inr (n, r))
       else if tag = 255 then bind_r (take_array 8 r) (\<lambda>(b, r).
         let n = from_le b in if n < 4294967296 then bail ''non-minimal varint'' else Inr (n, r))
       else Inr (ucast tag, r))"

definition std_consensus :: consensus where
  "std_consensus =
     \<lparr>c_varint_enc = std_varint_enc, c_varint_dec = std_varint_dec,
      c_u8_enc = (\<lambda>b. [b]),
      c_u8_dec = (\<lambda>r. bind_r (take_array 1 r) (\<lambda>(b, r). Inr (hd b, r))),
      c_u32_enc = le_bytes 4, c_u32_dec = take_u32,
      c_u64_enc = le_bytes 8, c_u64_dec = take_u64,
      c_hash_enc = (\<lambda>h. h), c_hash_dec = take_array 32,
      c_boxed_enc = (\<lambda>b. std_varint_enc (of_nat (length b)) @ b),
      c_boxed_dec = (\<lambda>r. bind_r (std_varint_dec r) (\<lambda>(n, r).
         if MAX_VEC_SIZE < unat n then bail ''oversized vector'' else take_array (unat n) r))\<rparr>"

lemma from_le_take_bit_small:
  fixes n :: "'a::len word"
  assumes "unat n < 2 ^ (8 * k)"
  shows "from_le (le_bytes k n) = n"
proof -
  have "take_bit (8 * k) n = n"
    using assms by (simp add: word_unat_eq_iff unsigned_take_bit_eq take_bit_nat_eq_self)
  then show ?thesis by (simp add: from_le_le_bytes_take)
qed

lemma std_varint_codec: "codec std_varint_enc std_varint_dec (\<lambda>_. True)"
proof
  fix n :: u64 and r :: bytes
  have small: "(ucast n :: u8) \<noteq> 253 \<and> (ucast n :: u8) \<noteq> 254 \<and> (ucast n :: u8) \<noteq> 255 \<and>
      ucast (ucast n :: u8) = n" if "n < 253"
  proof -
    have "unat n < 253" using that by (simp add: word_less_nat_alt)
    then have "unat (ucast n :: u8) = unat n"
      by (intro unat_ucast_small) simp
    with \<open>unat n < 253\<close> show ?thesis
      by (auto simp: word_unat_eq_iff unat_ucast_small)
  qed
  consider "n < 253" | "\<not> n < 253" "n < 65536" | "\<not> n < 65536" "n < 4294967296"
    | "\<not> n < 4294967296" by blast
  then show "std_varint_dec (std_varint_enc n @ r) = Inr (n, r)"
  proof cases
    case 1
    then show ?thesis using small by (simp add: std_varint_enc_def std_varint_dec_def take_array_def)
  next
    case 2
    then have "from_le (le_bytes 2 n) = n"
      by (intro from_le_take_bit_small) (simp add: word_less_nat_alt)
    with 2 show ?thesis by (simp add: std_varint_enc_def std_varint_dec_def take_array_def)
  next
    case 3
    then have "from_le (le_bytes 4 n) = n"
      by (intro from_le_take_bit_small) (simp add: word_less_nat_alt)
    moreover have "\<not> n < 253" using 3 by (auto simp: word_less_nat_alt)
    ultimately show ?thesis using 3
      by (simp add: std_varint_enc_def std_varint_dec_def take_array_def)
  next
    case 4
    then have "\<not> n < 253" "\<not> n < 65536" by (auto simp: word_less_nat_alt)
    with 4 show ?thesis by (simp add: std_varint_enc_def std_varint_dec_def take_array_def)
  qed
qed

lemma std_consensus_ok: "consensus_ok std_consensus"
proof -
  have boxed: "codec (c_boxed_enc std_consensus) (c_boxed_dec std_consensus) (\<lambda>b. length b \<le> MAX_VEC_SIZE)"
  proof
    fix b r :: bytes
    assume b: "length b \<le> MAX_VEC_SIZE"
    then have "unat (of_nat (length b) :: u64) = length b"
      by (intro unat_of_nat_small) (simp add: MAX_VEC_SIZE_def)
    with b codec.dec_enc [OF std_varint_codec, of "of_nat (length b)" "b @ r"]
    show "c_boxed_dec std_consensus (c_boxed_enc std_consensus b @ r) = Inr (b, r)"
      by (simp add: std_consensus_def)
  qed
  show ?thesis unfolding consensus_ok_def
    using boxed std_varint_codec
    by (auto simp: codec_def) (auto simp: std_consensus_def take_array_def std_varint_enc_def split: if_splits)
qed

text \<open>One-byte headers, whose hash repeats their byte.\<close>

definition example_headers :: "u8 header_ops" where
  "example_headers =
     \<lparr>h_enc = (\<lambda>h. h # replicate 79 0),
      h_dec = (\<lambda>r. bind_r (take_array 80 r) (\<lambda>(b, r). Inr (hd b, r))),
      h_block_hash = (\<lambda>h. replicate 32 h), h_prev_blockhash = (\<lambda>h. replicate 32 (h - 1))\<rparr>"

lemma example_header_ok: "header_ok example_headers"
proof -
  have "codec (h_enc example_headers) (h_dec example_headers) (\<lambda>_. True)"
    by unfold_locales (simp add: example_headers_def take_array_def)
  then show ?thesis by (simp add: header_ok_def) (simp add: example_headers_def)
qed

end
