(* ===== verification/Udata.thy ===== *)
theory Udata
  imports External
begin

text \<open>
  Leaf data and compact block proofs (\<open>src/src/udata.rs\<close>): the compact leaf, the proof's
  wire and disk format, and the preimage of the leaf hash that commits to an output.
\<close>

section \<open>Leaves\<close>

record LeafContext =
  lc_block_hash :: bytes
  lc_txid :: bytes
  lc_vout :: u32
  lc_value :: u64
  lc_pk_script :: bytes
  lc_block_height :: u32
  lc_is_coinbase :: bool

datatype ScriptPubkeyType =
    Other bytes
  | PubKeyHash
  | WitnessV0PubKeyHash
  | ScriptHash
  | WitnessV0ScriptHash

record CompactLeafData =
  cl_header_code :: u32
  cl_amount :: u64
  cl_spk_ty :: ScriptPubkeyType

text \<open>The expression \<open>(height << 1) | u32::from(is_coinbase)\<close>, in the source at each place
  that builds a leaf.\<close>

definition header_code :: "u32 \<Rightarrow> bool \<Rightarrow> u32" where
  "header_code height is_coinbase = push_bit 1 height OR of_bool is_coinbase"

definition CompactLeafData_from :: "script_ops \<Rightarrow> LeafContext \<Rightarrow> CompactLeafData" where
  "CompactLeafData_from S leaf =
     (let spk_ty =
        (if s_is_p2pkh S (lc_pk_script leaf) then PubKeyHash
         else if s_is_p2sh S (lc_pk_script leaf) then ScriptHash
         else if s_is_p2wpkh S (lc_pk_script leaf) then WitnessV0PubKeyHash
         else if s_is_p2wsh S (lc_pk_script leaf) then WitnessV0ScriptHash
         else Other (lc_pk_script leaf))
      in \<lparr>cl_header_code = header_code (lc_block_height leaf) (lc_is_coinbase leaf),
          cl_amount = lc_value leaf, cl_spk_ty = spk_ty\<rparr>)"

section \<open>Script types\<close>

text \<open>An encoder appends to its writer and returns the number of bytes written.\<close>

type_synonym written = "bytes \<times> nat"

definition put :: "bytes \<Rightarrow> written" where
  "put b = (b, length b)"

fun andthen :: "written \<Rightarrow> written \<Rightarrow> written" where
  "andthen (b, n) (c, m) = (b @ c, n + m)"

definition put_all :: "('a \<Rightarrow> written) \<Rightarrow> 'a list \<Rightarrow> written" where
  "put_all f xs = fold (\<lambda>x w. andthen w (f x)) xs ([], 0)"

fun ScriptPubkeyType_encode :: "consensus \<Rightarrow> ScriptPubkeyType \<Rightarrow> written" where
  "ScriptPubkeyType_encode C (Other script) =
     (c_u8_enc C 0 @ c_boxed_enc C script, 1 + length (c_boxed_enc C script))"
| "ScriptPubkeyType_encode C PubKeyHash = (c_u8_enc C 1, 1)"
| "ScriptPubkeyType_encode C WitnessV0PubKeyHash = (c_u8_enc C 2, 1)"
| "ScriptPubkeyType_encode C ScriptHash = (c_u8_enc C 3, 1)"
| "ScriptPubkeyType_encode C WitnessV0ScriptHash = (c_u8_enc C 4, 1)"

definition ScriptPubkeyType_decode :: "consensus \<Rightarrow> ScriptPubkeyType reader" where
  "ScriptPubkeyType_decode C r =
     bind_r (c_u8_dec C r) (\<lambda>(ty, r).
       if ty = 0 then bind_r (c_boxed_dec C r) (\<lambda>(b, r). Inr (Other b, r))
       else if ty = 1 then Inr (PubKeyHash, r)
       else if ty = 2 then Inr (WitnessV0PubKeyHash, r)
       else if ty = 3 then Inr (ScriptHash, r)
       else if ty = 4 then Inr (WitnessV0ScriptHash, r)
       else bail ''Invalid script type'')"

section \<open>Compact block proofs\<close>

record BatchProof =
  bp_targets :: "u64 list"
  bp_hashes :: "bytes list"

record CompactBlockProof =
  cp_proof :: BatchProof
  cp_leaves :: "CompactLeafData list"

definition MAX_COMPACT_PROOF_BYTES :: nat where
  "MAX_COMPACT_PROOF_BYTES = 512 * 1024 * 1024"

definition decode_items :: "consensus \<Rightarrow> nat \<Rightarrow> 'a reader \<Rightarrow> 'a list reader" where
  "decode_items C minimum_item_bytes decode r =
     bind_r (c_varint_dec C r) (\<lambda>(count, r).
       if unat count > MAX_COMPACT_PROOF_BYTES div minimum_item_bytes
       then bail ''OversizedVectorAllocation''
       else read_n decode (unat count) r)"

definition leaf_encode :: "consensus \<Rightarrow> CompactLeafData \<Rightarrow> written" where
  "leaf_encode C leaf =
     andthen (andthen (put (c_u32_enc C (cl_header_code leaf))) (put (c_u64_enc C (cl_amount leaf))))
       (ScriptPubkeyType_encode C (cl_spk_ty leaf))"

definition leaf_decode :: "consensus \<Rightarrow> CompactLeafData reader" where
  "leaf_decode C r =
     bind_r (c_u32_dec C r) (\<lambda>(h, r).
     bind_r (c_u64_dec C r) (\<lambda>(a, r).
     bind_r (ScriptPubkeyType_decode C r) (\<lambda>(s, r).
       Inr (\<lparr>cl_header_code = h, cl_amount = a, cl_spk_ty = s\<rparr>, r))))"

definition CompactBlockProof_encode :: "consensus \<Rightarrow> CompactBlockProof \<Rightarrow> written" where
  "CompactBlockProof_encode C p =
     (let targets = bp_targets (cp_proof p); hashes = bp_hashes (cp_proof p); leaves = cp_leaves p;
          w = put (c_varint_enc C (of_nat (length targets)));
          w = andthen w (put_all (\<lambda>t. put (c_varint_enc C t)) targets);
          w = andthen w (put (c_varint_enc C (of_nat (length hashes))));
          w = andthen w (put_all (\<lambda>h. put (c_hash_enc C h)) hashes);
          w = andthen w (put (c_varint_enc C (of_nat (length leaves))))
      in andthen w (put_all (leaf_encode C) leaves))"

definition CompactBlockProof_decode :: "consensus \<Rightarrow> CompactBlockProof reader" where
  "CompactBlockProof_decode C r =
     bind_r (decode_items C 1 (c_varint_dec C) r) (\<lambda>(targets, r).
     bind_r (decode_items C 32 (c_hash_dec C) r) (\<lambda>(hashes, r).
     bind_r (decode_items C 13 (leaf_decode C) r) (\<lambda>(leaves, r).
       Inr (\<lparr>cp_proof = \<lparr>bp_targets = targets, bp_hashes = hashes\<rparr>, cp_leaves = leaves\<rparr>, r))))"

section \<open>Leaf hashes\<close>

definition UTREEXO_TAG_V1 :: bytes where
  "UTREEXO_TAG_V1 =
    [0x5b, 0x83, 0x2d, 0xb8, 0xca, 0x26, 0xc2, 0x5b, 0xe1, 0xc5, 0x42, 0xd6, 0xcc, 0xed, 0xdd,
     0xa8, 0xc1, 0x45, 0x61, 0x5c, 0xff, 0x5c, 0x35, 0x72, 0x7f, 0xb3, 0x46, 0x26, 0x10, 0x80,
     0x7e, 0x20, 0xae, 0x53, 0x4d, 0xc3, 0xf6, 0x42, 0x99, 0x19, 0x99, 0x31, 0x77, 0x2e, 0x03,
     0x78, 0x7d, 0x18, 0x15, 0x6e, 0xb3, 0x15, 0x1e, 0x0e, 0xd1, 0xb3, 0x09, 0x8b, 0xdc, 0x84,
     0x45, 0x86, 0x18, 0x85]"

definition compact_size :: "u64 \<Rightarrow> bytes" where
  "compact_size n =
     (if n \<le> 0xfc then [ucast n]
      else if n \<le> 0xffff then 0xfd # le_bytes 2 (ucast n :: u16)
      else if n \<le> 0xffffffff then 0xfe # le_bytes 4 (ucast n :: u32)
      else 0xff # le_bytes 8 n)"

definition leaf_preimage :: "bytes \<Rightarrow> bytes \<Rightarrow> u32 \<Rightarrow> u32 \<Rightarrow> u64 \<Rightarrow> bytes \<Rightarrow> bytes" where
  "leaf_preimage block_hash txid vout hcode value script_pubkey =
     UTREEXO_TAG_V1 @ UTREEXO_TAG_V1 @ block_hash @ txid @ le_bytes 4 vout @ le_bytes 4 hcode @
     le_bytes 8 value @ compact_size (of_nat (length script_pubkey)) @ script_pubkey"

text \<open>\<open>Sha512_256\<close> is a parameter.\<close>

definition get_leaf_hash_from_parts ::
  "(bytes \<Rightarrow> bytes) \<Rightarrow> bytes \<Rightarrow> bytes \<Rightarrow> u32 \<Rightarrow> u32 \<Rightarrow> u64 \<Rightarrow> bytes \<Rightarrow> bytes" where
  "get_leaf_hash_from_parts sha512_256 block_hash txid vout hcode value script_pubkey =
     sha512_256 (leaf_preimage block_hash txid vout hcode value script_pubkey)"

record BitcoinLeafData =
  ld_block_hash :: bytes
  ld_prevout :: OutPoint
  ld_header_code :: u32
  ld_value :: u64
  ld_script_pubkey :: bytes

definition BitcoinLeafData_from :: "LeafContext \<Rightarrow> BitcoinLeafData" where
  "BitcoinLeafData_from v =
     \<lparr>ld_block_hash = lc_block_hash v,
      ld_prevout = \<lparr>op_txid = lc_txid v, op_vout = lc_vout v\<rparr>,
      ld_header_code = header_code (lc_block_height v) (lc_is_coinbase v),
      ld_value = lc_value v, ld_script_pubkey = lc_pk_script v\<rparr>"

definition compute_hash :: "(bytes \<Rightarrow> bytes) \<Rightarrow> BitcoinLeafData \<Rightarrow> bytes" where
  "compute_hash sha512_256 d =
     get_leaf_hash_from_parts sha512_256 (ld_block_hash d) (op_txid (ld_prevout d))
       (op_vout (ld_prevout d)) (ld_header_code d) (ld_value d) (ld_script_pubkey d)"

definition get_leaf_hashes :: "(bytes \<Rightarrow> bytes) \<Rightarrow> LeafContext \<Rightarrow> bytes" where
  "get_leaf_hashes sha512_256 leaf = compute_hash sha512_256 (BitcoinLeafData_from leaf)"

section \<open>Well-formed proofs\<close>

fun wf_spk :: "ScriptPubkeyType \<Rightarrow> bool" where
  "wf_spk (Other b) \<longleftrightarrow> length b \<le> MAX_VEC_SIZE"
| "wf_spk _ \<longleftrightarrow> True"

text \<open>The decoder's limits on the three counts, and 32-byte hashes.\<close>

definition wf_proof :: "CompactBlockProof \<Rightarrow> bool" where
  "wf_proof p \<longleftrightarrow>
     length (bp_targets (cp_proof p)) \<le> MAX_COMPACT_PROOF_BYTES \<and>
     length (bp_hashes (cp_proof p)) \<le> MAX_COMPACT_PROOF_BYTES div 32 \<and>
     length (cp_leaves p) \<le> MAX_COMPACT_PROOF_BYTES div 13 \<and>
     list_all (\<lambda>h. length h = 32) (bp_hashes (cp_proof p)) \<and>
     list_all (\<lambda>l. wf_spk (cl_spk_ty l)) (cp_leaves p)"

section \<open>What the encoders write\<close>

lemma put_simps [simp]: "fst (put b) = b" "snd (put b) = length b"
  by (simp_all add: put_def)

lemma andthen_simps [simp]: "fst (andthen v w) = fst v @ fst w" "snd (andthen v w) = snd v + snd w"
  by (cases v; cases w; simp)+

lemma put_all_bytes: "fst (put_all f xs) = concat (map (\<lambda>x. fst (f x)) xs)"
proof -
  have "fst (fold (\<lambda>x w. andthen w (f x)) xs w0) = fst w0 @ concat (map (\<lambda>x. fst (f x)) xs)" for w0
    by (induction xs arbitrary: w0) auto
  then show ?thesis by (simp add: put_all_def)
qed

lemma put_all_length:
  assumes "\<And>x. snd (f x) = length (fst (f x))"
  shows "snd (put_all f xs) = length (fst (put_all f xs))"
proof -
  have "snd w0 = length (fst w0) \<Longrightarrow>
      snd (fold (\<lambda>x w. andthen w (f x)) xs w0) = length (fst (fold (\<lambda>x w. andthen w (f x)) xs w0))" for w0
    by (induction xs arbitrary: w0) (auto simp: assms)
  then show ?thesis by (simp add: put_all_def)
qed

lemma spk_codec:
  assumes "consensus_ok C"
  shows "codec (\<lambda>s. fst (ScriptPubkeyType_encode C s)) (ScriptPubkeyType_decode C) wf_spk"
proof
  fix s r
  assume wf: "wf_spk s"
  have u8: "c_u8_dec C (c_u8_enc C b @ r) = Inr (b, r)" for b r
    using assms codec.dec_enc by (fastforce simp: consensus_ok_def)
  have boxed: "length b \<le> MAX_VEC_SIZE \<Longrightarrow> c_boxed_dec C (c_boxed_enc C b @ r) = Inr (b, r)" for b r
    using assms codec.dec_enc by (fastforce simp: consensus_ok_def)
  show "ScriptPubkeyType_decode C (fst (ScriptPubkeyType_encode C s) @ r) = Inr (s, r)"
    using wf by (cases s) (simp_all add: ScriptPubkeyType_decode_def u8 boxed)
qed

lemma leaf_codec:
  assumes "consensus_ok C"
  shows "codec (\<lambda>l. fst (leaf_encode C l)) (leaf_decode C) (\<lambda>l. wf_spk (cl_spk_ty l))"
proof
  fix l :: CompactLeafData and r
  assume wf: "wf_spk (cl_spk_ty l)"
  have "c_u32_dec C (c_u32_enc C h @ r) = Inr (h, r)" for h r
    using assms codec.dec_enc by (fastforce simp: consensus_ok_def)
  moreover have "c_u64_dec C (c_u64_enc C h @ r) = Inr (h, r)" for h r
    using assms codec.dec_enc by (fastforce simp: consensus_ok_def)
  ultimately show "leaf_decode C (fst (leaf_encode C l) @ r) = Inr (l, r)"
    using codec.dec_enc [OF spk_codec [OF assms] wf]
    by (cases l) (simp add: leaf_decode_def leaf_encode_def)
qed

lemma decode_items_encoded:
  assumes "consensus_ok C" and "codec e d w" and "list_all w xs"
    and "length xs \<le> MAX_COMPACT_PROOF_BYTES div m"
  shows "decode_items C m d (c_varint_enc C (of_nat (length xs)) @ concat (map e xs) @ r) = Inr (xs, r)"
proof -
  have "c_varint_dec C (c_varint_enc C n @ s) = Inr (n, s)" for n s
    using assms(1) codec.dec_enc by (fastforce simp: consensus_ok_def)
  moreover have "length xs \<le> MAX_COMPACT_PROOF_BYTES"
    using assms(4) by (rule order_trans) (rule div_le_dividend)
  then have "unat (of_nat (length xs) :: u64) = length xs"
    by (intro unat_of_nat_small) (simp add: MAX_COMPACT_PROOF_BYTES_def)
  ultimately show ?thesis
    using assms(4) codec.read_n_enc [OF assms(2,3)] by (simp add: decode_items_def)
qed

lemma CompactBlockProof_encode_bytes:
  "fst (CompactBlockProof_encode C p) =
     c_varint_enc C (of_nat (length (bp_targets (cp_proof p)))) @
     concat (map (c_varint_enc C) (bp_targets (cp_proof p))) @
     c_varint_enc C (of_nat (length (bp_hashes (cp_proof p)))) @
     concat (map (c_hash_enc C) (bp_hashes (cp_proof p))) @
     c_varint_enc C (of_nat (length (cp_leaves p))) @
     concat (map (\<lambda>l. fst (leaf_encode C l)) (cp_leaves p))"
  by (simp add: CompactBlockProof_encode_def put_all_bytes Let_def)

lemma compact_proof_codec:
  assumes "consensus_ok C"
  shows "codec (\<lambda>p. fst (CompactBlockProof_encode C p)) (CompactBlockProof_decode C) wf_proof"
proof
  fix p r
  assume wf: "wf_proof p"
  have varint: "codec (c_varint_enc C) (c_varint_dec C) (\<lambda>_. True)"
    and hash: "codec (c_hash_enc C) (c_hash_dec C) (\<lambda>h. length h = 32)"
    using assms by (simp_all add: consensus_ok_def)
  note items = decode_items_encoded [OF assms]
  show "CompactBlockProof_decode C (fst (CompactBlockProof_encode C p) @ r) = Inr (p, r)"
    using wf
    by (simp add: CompactBlockProof_encode_bytes CompactBlockProof_decode_def wf_proof_def
        items [OF varint] items [OF hash] items [OF leaf_codec [OF assms]] list_all_iff)
qed

section \<open>The leaf hash commits to every field\<close>

text \<open>The code's CompactSize is the protocol's, so it delimits the script.\<close>

lemma compact_size_std: "compact_size n = std_varint_enc n"
proof -
  have "n \<le> 0xfc \<longleftrightarrow> n < 253" "n \<le> 0xffff \<longleftrightarrow> n < 65536" "n \<le> 0xffffffff \<longleftrightarrow> n < 4294967296"
    by (simp_all add: word_le_nat_alt word_less_nat_alt) arith+
  then show ?thesis by (simp add: compact_size_def std_varint_enc_def le_bytes_ucast)
qed

lemma script_delimited:
  assumes "compact_size (of_nat (length s)) @ s = compact_size (of_nat (length t)) @ t"
  shows "s = t"
  using codec.enc_inj [OF std_varint_codec TrueI TrueI] assms by (simp add: compact_size_std)

definition wf_leaf :: "LeafContext \<Rightarrow> bool" where
  "wf_leaf l \<longleftrightarrow> length (lc_block_hash l) = 32 \<and> length (lc_txid l) = 32 \<and> unat (lc_block_height l) < 2 ^ 31"

lemma le_bytes_inj: "LENGTH('a) \<le> 8 * n \<Longrightarrow> le_bytes n v = le_bytes n w \<longleftrightarrow> v = (w :: 'a::len word)"
  by (metis from_le_le_bytes)

lemma leaf_preimage_inj:
  assumes "leaf_preimage b t v h a s = leaf_preimage b' t' v' h' a' s'"
    and "length b = length b'" and "length t = length t'"
  shows "b = b' \<and> t = t' \<and> v = v' \<and> h = h' \<and> a = a' \<and> s = s'"
  using assms by (auto simp: leaf_preimage_def le_bytes_inj dest: script_delimited)

lemma unat_header_code:
  assumes "unat height < 2 ^ 31"
  shows "unat (header_code height c) = 2 * unat height + of_bool c"
proof -
  have "push_bit 1 height OR of_bool c = push_bit 1 height + of_bool c"
    by (rule disjunctive_add [symmetric]) (auto simp: bit_simps bit_0)
  then have "unat (header_code height c) = unat (2 * height + of_bool c)"
    by (simp add: header_code_def mult.commute)
  also have "\<dots> = 2 * unat height + of_bool c"
    using assms by (cases c) (simp_all add: unat_word_ariths unat_mult_lem)
  finally show ?thesis .
qed

lemma header_code_inj:
  assumes "unat h < 2 ^ 31" and "unat h' < 2 ^ 31" and "header_code h c = header_code h' c'"
  shows "h = h' \<and> c = c'"
proof -
  have eq: "2 * unat h + of_bool c = 2 * unat h' + of_bool c'"
    using assms unat_header_code [of h c] unat_header_code [of h' c'] by simp
  have "c = c'" using arg_cong [OF eq, of even] by (cases c; cases c') auto
  moreover from this eq have "unat h = unat h'" by simp
  ultimately show ?thesis by (simp add: word_unat_eq_iff)
qed

section \<open>Properties\<close>

lemma spk_encode_length: "consensus_ok C \<Longrightarrow> snd (ScriptPubkeyType_encode C s) = length (fst (ScriptPubkeyType_encode C s))"
  by (cases s) (simp_all add: consensus_ok_def)

lemma leaf_encode_length: "consensus_ok C \<Longrightarrow> snd (leaf_encode C l) = length (fst (leaf_encode C l))"
  by (simp add: leaf_encode_def spk_encode_length)

text \<open>C17. Compact block proofs survive the trip over the wire and to disk: decoding the encoding of a
  proof within the decoder's limits, whatever bytes follow, returns the proof and leaves exactly
  those bytes, and the length the encoder reports is the number of bytes it wrote.\<close>

theorem compact_proof_roundtrip:
  assumes "consensus_ok C" and "wf_proof p"
  shows "CompactBlockProof_decode C (fst (CompactBlockProof_encode C p) @ r) = Inr (p, r) \<and>
    snd (CompactBlockProof_encode C p) = length (fst (CompactBlockProof_encode C p))"
proof
  show "CompactBlockProof_decode C (fst (CompactBlockProof_encode C p) @ r) = Inr (p, r)"
    by (rule codec.dec_enc [OF compact_proof_codec [OF assms(1)] assms(2)])
  show "snd (CompactBlockProof_encode C p) = length (fst (CompactBlockProof_encode C p))"
    by (simp add: CompactBlockProof_encode_def Let_def put_all_length leaf_encode_length assms(1))
qed

definition example_proof :: CompactBlockProof where
  "example_proof =
     \<lparr>cp_proof = \<lparr>bp_targets = [3, 300], bp_hashes = [replicate 32 7]\<rparr>,
      cp_leaves = [\<lparr>cl_header_code = 21, cl_amount = 5000, cl_spk_ty = Other [1, 2, 3]\<rparr>,
                   \<lparr>cl_header_code = 40, cl_amount = 1, cl_spk_ty = WitnessV0PubKeyHash\<rparr>]\<rparr>"

theorem compact_proof_roundtrip_witness:
  "CompactBlockProof_decode std_consensus
     (fst (CompactBlockProof_encode std_consensus example_proof) @ [9]) = Inr (example_proof, [9]) \<and>
   snd (CompactBlockProof_encode std_consensus example_proof)
     = length (fst (CompactBlockProof_encode std_consensus example_proof))"
proof (rule compact_proof_roundtrip [OF std_consensus_ok])
  show "wf_proof example_proof"
    by (simp add: wf_proof_def example_proof_def MAX_COMPACT_PROOF_BYTES_def MAX_VEC_SIZE_def)
qed

text \<open>C18. A leaf hash commits to its output: when two well-formed outputs have the same leaf hash,
  they agree on the block, the outpoint, the amount, the script, the height and the coinbase flag,
  or the two explicit preimages are a collision of the hash function. In particular the
  length-prefixed script and the packed height and coinbase bit leave no room for two outputs
  with one preimage.\<close>

theorem leaf_hash_commits:
  assumes "wf_leaf l" and "wf_leaf m"
    and "get_leaf_hashes sha512_256 l = get_leaf_hashes sha512_256 m"
  shows "(lc_block_hash l = lc_block_hash m \<and> lc_txid l = lc_txid m \<and> lc_vout l = lc_vout m \<and>
      lc_value l = lc_value m \<and> lc_pk_script l = lc_pk_script m \<and>
      lc_block_height l = lc_block_height m \<and> lc_is_coinbase l = lc_is_coinbase m) \<or>
    (\<exists>a b. a \<noteq> b \<and> sha512_256 a = sha512_256 b \<and>
      a = leaf_preimage (lc_block_hash l) (lc_txid l) (lc_vout l)
            (header_code (lc_block_height l) (lc_is_coinbase l)) (lc_value l) (lc_pk_script l) \<and>
      b = leaf_preimage (lc_block_hash m) (lc_txid m) (lc_vout m)
            (header_code (lc_block_height m) (lc_is_coinbase m)) (lc_value m) (lc_pk_script m))"
proof (cases "leaf_preimage (lc_block_hash l) (lc_txid l) (lc_vout l)
      (header_code (lc_block_height l) (lc_is_coinbase l)) (lc_value l) (lc_pk_script l) =
    leaf_preimage (lc_block_hash m) (lc_txid m) (lc_vout m)
      (header_code (lc_block_height m) (lc_is_coinbase m)) (lc_value m) (lc_pk_script m)")
  case True
  from leaf_preimage_inj [OF this] assms(1,2) show ?thesis
    using header_code_inj by (auto simp: wf_leaf_def)
next
  case False
  with assms(3) show ?thesis
    by (auto simp: get_leaf_hashes_def compute_hash_def BitcoinLeafData_from_def get_leaf_hash_from_parts_def)
qed

definition example_leaf :: "u32 \<Rightarrow> LeafContext" where
  "example_leaf v = \<lparr>lc_block_hash = replicate 32 1, lc_txid = replicate 32 2, lc_vout = v,
     lc_value = 50, lc_pk_script = [81], lc_block_height = 7, lc_is_coinbase = True\<rparr>"

theorem leaf_hash_commits_witness:
  "\<exists>a b. a \<noteq> b \<and> take 32 a = take 32 b \<and>
     a = leaf_preimage (replicate 32 1) (replicate 32 2) 0 (header_code 7 True) 50 [81] \<and>
     b = leaf_preimage (replicate 32 1) (replicate 32 2) 1 (header_code 7 True) 50 [81]"
  using leaf_hash_commits [of "example_leaf 0" "example_leaf 1" "take 32"]
  by (simp add: wf_leaf_def example_leaf_def get_leaf_hashes_def compute_hash_def
      BitcoinLeafData_from_def get_leaf_hash_from_parts_def leaf_preimage_def UTREEXO_TAG_V1_def)

end
