(* ===== verification/Positions.thy ===== *)
theory Positions
  imports Bridge_Prelude
begin

text \<open>
  Position arithmetic of the flat forest (\<open>src/src/parallel_forest.rs\<close>). A forest of
  \<open>forest_rows\<close> rows stores row \<open>r\<close> after all rows below it; the node at offset \<open>k\<close> of
  row \<open>r\<close> has position \<open>pos R r k\<close>. The bit manipulations of the code are shown to be
  the tree operations on (row, offset) coordinates. Row counts (\<open>u8\<close> in the code, at most
  63) are natural numbers; positions keep their width.
\<close>

section \<open>The code's operations\<close>

definition leading_zeros :: "u64 \<Rightarrow> nat" where
  "leading_zeros w = length (takeWhile (\<lambda>i. \<not> bit w i) (rev [0..<64]))"

definition tree_rows :: "u64 \<Rightarrow> nat" where
  "tree_rows leaves = (if leaves = 0 then 0 else 64 - leading_zeros (leaves - 1))"

definition parent :: "u64 \<Rightarrow> nat \<Rightarrow> u64" where
  "parent position forest_rows = drop_bit 1 position OR push_bit forest_rows 1"

definition left_child :: "u64 \<Rightarrow> nat \<Rightarrow> u64" where
  "left_child position forest_rows =
     (let mask = push_bit forest_rows 2 - 1 in push_bit 1 position AND mask)"

function detect_loop :: "u64 \<Rightarrow> u64 \<Rightarrow> nat \<Rightarrow> nat" where
  "detect_loop position marker row =
     (if position AND marker \<noteq> 0 then detect_loop position (drop_bit 1 marker) (row + 1) else row)"
  by pat_completeness auto
termination
proof (relation "measure (\<lambda>(p, m, r). unat m)")
  fix position marker :: u64 and row :: nat
  assume "position AND marker \<noteq> 0"
  then have "0 < unat marker" by (auto simp: unat_gt_0)
  then show "((position, drop_bit 1 marker, row + 1), position, marker, row)
      \<in> measure (\<lambda>(p, m, r). unat m)"
    unfolding in_measure prod.case unat_drop_bit_eq by (simp add: drop_bit_eq_div del: unat_div)
qed simp

declare detect_loop.simps [simp del]

definition detect_row :: "u64 \<Rightarrow> nat \<Rightarrow> nat" where
  "detect_row position forest_rows = detect_loop position (push_bit forest_rows 1) 0"

definition root_position :: "u64 \<Rightarrow> nat \<Rightarrow> nat \<Rightarrow> u64" where
  "root_position leaves row forest_rows =
     (let mask = push_bit forest_rows 2 - 1;
          before = leaves AND push_bit (row + 1) mask;
          shifted = drop_bit row before OR push_bit (forest_rows + 1 - row) mask
      in shifted AND mask)"

definition is_root_position :: "u64 \<Rightarrow> u64 \<Rightarrow> nat \<Rightarrow> bool" where
  "is_root_position position leaves forest_rows =
     (let row = detect_row position forest_rows
      in leaves AND push_bit row 1 \<noteq> 0 \<and> root_position leaves row forest_rows = position)"

text \<open>The \<open>u128\<close> computations, and their conversion to \<open>u64\<close>.\<close>

definition u64_try_from :: "nat \<Rightarrow> string \<Rightarrow> u64 res" where
  "u64_try_from n m = (if n < 2 ^ 64 then Inr (of_nat n) else bail m)"

definition forest_capacity :: "nat \<Rightarrow> u64 res" where
  "forest_capacity forest_rows =
     u64_try_from (2 * 2 ^ forest_rows - 1) ''forest position space exceeds u64''"

definition start_position_at_row :: "nat \<Rightarrow> nat \<Rightarrow> u64 res" where
  "start_position_at_row row forest_rows =
     (if row > forest_rows then bail ''row exceeds forest height''
      else u64_try_from (2 * 2 ^ forest_rows - 2 * 2 ^ (forest_rows - row))
             ''forest row position exceeds u64'')"

definition translate_position :: "u64 \<Rightarrow> nat \<Rightarrow> nat \<Rightarrow> u64 res" where
  "translate_position position from_rows to_rows =
     (let row = detect_row position from_rows in
      bind_r (start_position_at_row row from_rows) (\<lambda>from_start.
      bind_r (start_position_at_row row to_rows) (\<lambda>to_start.
        ok_or (checked_add to_start (position - from_start))
          ''translated forest position overflow'')))"

definition is_power_of_two :: "u64 \<Rightarrow> bool" where
  "is_power_of_two w \<longleftrightarrow> (\<exists>k<64. w = push_bit k 1)"

definition ilog2 :: "u64 \<Rightarrow> nat" where
  "ilog2 w = 63 - leading_zeros w"

definition forest_rows_from_node_count :: "u64 \<Rightarrow> nat res" where
  "forest_rows_from_node_count node_count =
     bind_r (ok_or (checked_add node_count 1) ''forest position count overflow'') (\<lambda>size.
       if size < 2 \<or> \<not> is_power_of_two size
       then bail ''forest nodes are not a complete positional space''
       else Inr (ilog2 size - 1))"

section \<open>Coordinates\<close>

definition row_start :: "nat \<Rightarrow> nat \<Rightarrow> nat" where
  "row_start R r = 2 ^ (R + 1) - 2 ^ (R + 1 - r)"

definition pos :: "nat \<Rightarrow> nat \<Rightarrow> nat \<Rightarrow> nat" where
  "pos R r k = row_start R r + k"

text \<open>A coordinate of the forest's positional space.\<close>

definition coord :: "nat \<Rightarrow> nat \<Rightarrow> nat \<Rightarrow> bool" where
  "coord R r k \<longleftrightarrow> r \<le> R \<and> k < 2 ^ (R - r)"

abbreviation posw :: "nat \<Rightarrow> nat \<Rightarrow> nat \<Rightarrow> u64" where
  "posw R r k \<equiv> of_nat (pos R r k)"

lemma row_start_0 [simp]: "row_start R 0 = 0"
  by (simp add: row_start_def)

lemma pos_0 [simp]: "pos R 0 k = k"
  by (simp add: pos_def)

lemma row_start_Suc:
  assumes "r \<le> R"
  shows "row_start R (Suc r) = row_start R r + 2 ^ (R - r)"
proof -
  have "2 ^ (R + 1 - r) = 2 * (2 :: nat) ^ (R - r)"
    using assms by (simp add: Suc_diff_le)
  moreover have "2 ^ (R + 1 - r) \<le> (2 :: nat) ^ (R + 1)"
    by (rule power_increasing) auto
  ultimately show ?thesis by (simp add: row_start_def)
qed

lemma coord_pos_less:
  assumes "coord R r k"
  shows "pos R r k < row_start R (Suc r)" and "pos R r k < 2 ^ (R + 1) - 1"
proof -
  show "pos R r k < row_start R (Suc r)"
    using assms by (simp add: coord_def pos_def row_start_Suc)
  moreover have "row_start R (Suc r) \<le> 2 ^ (R + 1) - 1"
    by (simp add: row_start_def Suc_le_eq diff_le_mono2)
  ultimately show "pos R r k < 2 ^ (R + 1) - 1" by simp
qed

lemma pos_lt_word:
  assumes "coord R r k" and "R \<le> 63"
  shows "pos R r k < 2 ^ 64"
proof -
  have "pos R r k < 2 ^ (R + 1)" using coord_pos_less(2) [OF assms(1)] by linarith
  also have "\<dots> \<le> 2 ^ 64" using assms(2) by (intro power_increasing) auto
  finally show ?thesis .
qed

lemma unat_posw [simp]: "coord R r k \<Longrightarrow> R \<le> 63 \<Longrightarrow> unat (posw R r k) = pos R r k"
  by (rule unat_of_nat_small) (simp add: pos_lt_word [simplified])

lemma row_start_mono: "r \<le> s \<Longrightarrow> s \<le> R \<Longrightarrow> row_start R r \<le> row_start R s"
  by (simp add: row_start_def diff_le_mono2)

lemma pos_inj:
  assumes "coord R r k" and "coord R s l" and "pos R r k = pos R s l"
  shows "r = s \<and> k = l"
proof -
  have False if "a < b" "coord R a x" "coord R b y" "pos R a x = pos R b y" for a b x y
  proof -
    have "pos R a x < row_start R (Suc a)" using that(2) by (rule coord_pos_less)
    also have "\<dots> \<le> row_start R b"
      using that(1,3) by (intro row_start_mono) (auto simp: coord_def)
    also have "\<dots> \<le> pos R b y" by (simp add: pos_def)
    finally show False using that(4) by simp
  qed
  then have "r = s" using assms by (metis nat_neq_iff)
  with assms(3) show ?thesis by (simp add: pos_def)
qed

lemma posw_inj:
  assumes "R \<le> 63" and "coord R r k" and "coord R s l"
  shows "posw R r k = posw R s l \<longleftrightarrow> r = s \<and> k = l"
  using assms pos_inj [of R r k s l] by (auto simp: word_unat_eq_iff)

text \<open>Every position below the capacity has a coordinate.\<close>

lemma pos_surj:
  assumes "p < 2 ^ (R + 1) - 1"
  obtains r k where "coord R r k" and "p = pos R r k"
proof -
  have ex: "\<exists>r\<le>R. p < row_start R (Suc r)"
    using assms by (intro exI [of _ R]) (simp add: row_start_def)
  define r where "r = (LEAST r. p < row_start R (Suc r))"
  have r: "p < row_start R (Suc r)" "r \<le> R"
    using ex LeastI_ex [of "\<lambda>r. p < row_start R (Suc r)"] Least_le [of "\<lambda>r. p < row_start R (Suc r)"]
    unfolding r_def by (blast, meson order_trans)
  have "row_start R r \<le> p"
  proof (cases r)
    case 0
    then show ?thesis by simp
  next
    case (Suc s)
    then have "\<not> p < row_start R (Suc s)"
      using not_less_Least [of s "\<lambda>r. p < row_start R (Suc r)"] r_def by simp
    then show ?thesis using Suc by simp
  qed
  with r show ?thesis
    by (intro that [of r "p - row_start R r"]) (auto simp: coord_def pos_def row_start_Suc)
qed

section \<open>The bit operations are the tree operations\<close>

lemma mask_word: "(push_bit R 2 - 1 :: u64) = mask (R + 1)"
  by (simp add: mask_eq_exp_minus_1 push_bit_eq_mult)

lemma unat_parent:
  assumes "unat p < 2 ^ (R + 1)" and "R \<le> 63"
  shows "unat (parent p R) = unat p div 2 + 2 ^ R"
proof -
  have "unat (push_bit R 1 :: u64) = 2 ^ R"
    using assms(2) by (simp add: unat_two_power)
  moreover have "(unat p div 2) AND 2 ^ R = 0"
    using assms(1) by (simp add: and_exp_eq_0_iff_not_bit bit_iff_odd div_mult2_eq [symmetric])
  moreover have "unat (drop_bit 1 p) = unat p div 2"
    by (subst unat_drop_bit_eq) (simp only: drop_bit_eq_div power_one_right)
  ultimately show ?thesis
    unfolding parent_def unsigned_or_eq by (metis disjunctive_add_eq_or)
qed

lemma unat_left_child:
  assumes "R \<le> 63"
  shows "unat (left_child p R) = (2 * unat p) mod 2 ^ (R + 1)"
proof -
  have "left_child p R = take_bit (R + 1) (push_bit 1 p)"
    unfolding left_child_def mask_word Let_def by (simp add: take_bit_eq_mask)
  then have "unat (left_child p R) = take_bit (R + 1) (take_bit 64 (push_bit 1 (unat p)))"
    by (simp only: unsigned_take_bit_eq unsigned_push_bit_eq) simp
  also have "\<dots> = take_bit (R + 1) (push_bit 1 (unat p))"
    using assms by (simp add: min_def)
  finally show ?thesis by (simp add: take_bit_eq_mod push_bit_eq_mult mult.commute)
qed

lemma row_start_even: "r \<le> R \<Longrightarrow> row_start R r = 2 * (2 ^ R - 2 ^ (R - r))"
  by (simp add: row_start_def Suc_diff_le diff_mult_distrib2)

lemma coord_parent: "coord R r k \<Longrightarrow> r < R \<Longrightarrow> coord R (Suc r) (k div 2)"
proof -
  assume a: "coord R r k" "r < R"
  then have "2 ^ (R - r) = 2 * (2 :: nat) ^ (R - Suc r)"
    by (metis Suc_diff_Suc power_Suc)
  with a show ?thesis by (auto simp: coord_def)
qed

lemma coord_child: "coord R (Suc r) k \<Longrightarrow> coord R r (2 * k) \<and> coord R r (Suc (2 * k))"
proof -
  assume a: "coord R (Suc r) k"
  then have "2 ^ (R - r) = 2 * (2 :: nat) ^ (R - Suc r)"
    by (metis Suc_diff_Suc Suc_le_eq coord_def power_Suc)
  with a show ?thesis by (auto simp: coord_def)
qed

lemma parent_posw [pos_simps]:
  assumes "coord R r k" and "r < R" and "R \<le> 63"
  shows "parent (posw R r k) R = posw R (Suc r) (k div 2)"
proof -
  have "pos R r k div 2 + 2 ^ R = pos R (Suc r) (k div 2)"
  proof -
    have le: "2 ^ (R - r) \<le> (2 :: nat) ^ R" by (simp add: power_increasing)
    have "row_start R (Suc r) = 2 * 2 ^ R - 2 ^ (R - r)" by (simp add: row_start_def)
    moreover have "pos R r k = 2 * (2 ^ R - 2 ^ (R - r)) + k"
      using assms(2) by (simp add: pos_def row_start_even)
    ultimately show ?thesis unfolding pos_def [of R "Suc r"] using le by arith
  qed
  then show ?thesis
    using assms coord_parent [OF assms(1,2)] coord_pos_less(2) [OF assms(1)]
    by (simp add: word_unat_eq_iff unat_parent)
qed

lemma left_child_posw [pos_simps]:
  assumes "coord R (Suc r) k" and "R \<le> 63"
  shows "left_child (posw R (Suc r) k) R = posw R r (2 * k)"
proof -
  note c = coord_child [OF assms(1), THEN conjunct1]
  have r: "r < R" using assms(1) by (simp add: coord_def)
  have e: "2 ^ (R + 1 - r) = 2 * (2 :: nat) ^ (R - r)" "2 ^ (R - r) \<le> (2 :: nat) ^ R"
    using r by (simp_all add: Suc_diff_le power_increasing)
  have "2 * pos R (Suc r) k = 2 ^ (R + 1) + pos R r (2 * k)"
  proof -
    have "pos R (Suc r) k = 2 * 2 ^ R - 2 ^ (R - r) + k" by (simp add: pos_def row_start_def)
    moreover have "pos R r (2 * k) = 2 * 2 ^ R - 2 * 2 ^ (R - r) + 2 * k"
      using e(1) by (simp add: pos_def row_start_def)
    moreover have "(2 :: nat) ^ (R + 1) = 2 * 2 ^ R" by simp
    ultimately show ?thesis using e(2) by arith
  qed
  moreover have "pos R r (2 * k) < 2 ^ (R + 1)" using coord_pos_less(2) [OF c] by linarith
  ultimately have "(2 * pos R (Suc r) k) mod 2 ^ (R + 1) = pos R r (2 * k)" by simp
  then show ?thesis
    using assms c by (simp only: word_unat_eq_iff unat_left_child unat_posw)
qed

lemma xor_one_nat: "(n :: nat) XOR 1 = (if even n then n + 1 else n - 1)"
  by (simp add: xor_Suc_0_eq)

definition sib :: "nat \<Rightarrow> nat" where
  "sib k = (if even k then k + 1 else k - 1)"

lemma coord_sib: "coord R r k \<Longrightarrow> r < R \<Longrightarrow> coord R r (sib k)"
proof -
  assume a: "coord R r k" "r < R"
  then have "2 ^ (R - r) = 2 * (2 :: nat) ^ (R - Suc r)"
    by (metis Suc_diff_Suc power_Suc)
  with a show ?thesis by (auto simp: coord_def sib_def elim!: evenE)
qed

lemma sibling_posw [pos_simps]:
  assumes "coord R r k" and "r < R" and "R \<le> 63"
  shows "posw R r k XOR 1 = posw R r (sib k)"
proof -
  have "even (row_start R r)" using assms(2) by (simp add: row_start_even)
  then have "pos R r k XOR 1 = pos R r (sib k)"
    unfolding xor_one_nat by (auto simp: pos_def sib_def elim: oddE)
  then show ?thesis
    using assms coord_sib [OF assms(1,2)] by (simp add: word_unat_eq_iff unsigned_xor_eq)
qed

lemma row_start_bits:
  assumes "r \<le> R + 1"
  shows "row_start R r = push_bit (R + 1 - r) (mask r)"
proof -
  have "(2 :: nat) ^ (R + 1) = 2 ^ r * 2 ^ (R + 1 - r)"
    using assms by (simp flip: power_add)
  then show ?thesis
    by (simp add: row_start_def push_bit_eq_mult mask_eq_exp_minus_1 diff_mult_distrib)
qed

lemma bit_pos:
  assumes "coord R r k" and "i \<le> R" and "R - r \<le> i"
  shows "bit (pos R r k) i \<longleftrightarrow> R - r < i"
proof -
  have r: "r \<le> R" and k: "k < 2 ^ (R - r)" using assms(1) by (simp_all add: coord_def)
  have "\<not> bit k i" using k assms(3) bit_nat_less by (metis leD)
  moreover have "pos R r k = push_bit (R + 1 - r) (mask r) OR k"
    using r k by (subst push_bit_or_add) (simp_all add: pos_def row_start_bits Suc_diff_le)
  ultimately show ?thesis using r assms(2,3) by (auto simp: bit_simps)
qed

lemma detect_loop_ones:
  assumes "j \<le> i" and "i < 64" and "\<And>m. m < j \<Longrightarrow> bit p (i - m)" and "\<not> bit p (i - j)"
  shows "detect_loop p (push_bit i 1) row = row + j"
  using assms
proof (induction j arbitrary: i row)
  case 0
  then show ?case
    by (subst detect_loop.simps) (simp add: and_exp_eq_0_iff_not_bit)
next
  case (Suc j)
  then obtain l where i: "i = Suc l" by (cases i) auto
  have b: "bit p i" using Suc.prems(3) [of 0] by simp
  have d: "drop_bit 1 (push_bit i 1 :: u64) = push_bit l 1"
    using Suc.prems(2) i by (intro bit_word_eqI) (auto simp: bit_simps)
  have "detect_loop p (push_bit l 1) (row + 1) = (row + 1) + j"
  proof (rule Suc.IH)
    show "bit p (l - m)" if "m < j" for m using Suc.prems(3) [of "Suc m"] that i by simp
  qed (use Suc.prems i in auto)
  with b d show ?case
    by (subst detect_loop.simps) (simp add: and_exp_eq_0_iff_not_bit)
qed

lemma detect_row_posw [pos_simps]:
  assumes "coord R r k" and "R \<le> 63"
  shows "detect_row (posw R r k) R = r"
proof -
  have r: "r \<le> R" using assms(1) by (simp add: coord_def)
  have b: "bit (posw R r k) i \<longleftrightarrow> R - r < i" if "i \<le> R" "R - r \<le> i" for i
  proof -
    have "bit (posw R r k) i \<longleftrightarrow> bit (unat (posw R r k)) i"
      using that assms(2) by (simp add: bit_unsigned_iff)
    then show ?thesis using assms that bit_pos [OF assms(1)] by simp
  qed
  have "detect_loop (posw R r k) (push_bit R 1) 0 = 0 + r"
    by (rule detect_loop_ones) (use assms r b in auto)
  then show ?thesis by (simp add: detect_row_def)
qed

lemma root_offset_less:
  assumes "(n :: nat) < 2 ^ (R + 1)" and "r \<le> R"
  shows "2 * (n div 2 ^ (r + 1)) < 2 ^ (R + 1 - r)"
proof -
  have "n < 2 ^ (R - r) * 2 ^ (r + 1)"
    using assms by (metis add.assoc le_add_diff_inverse2 power_add)
  then have "n div 2 ^ (r + 1) < 2 ^ (R - r)" by (rule less_mult_imp_div_less)
  then show ?thesis using assms(2) by (simp add: Suc_diff_le)
qed

lemma root_position_unat:
  assumes "unat leaves < 2 ^ (R + 1)" and "r \<le> R" and "R \<le> 63"
  shows "unat (root_position leaves r R) = pos R r (2 * (unat leaves div 2 ^ (r + 1)))"
proof -
  let ?k = "2 * (unat leaves div 2 ^ (r + 1))"
  have hi: "i \<le> R" if "bit leaves i" for i
    using bit_nat_less [of "unat leaves" i "R + 1"] assms(1) that by (simp add: bit_unat)
  have w: "root_position leaves r R = push_bit (R + 1 - r) (mask r) OR push_bit 1 (drop_bit (r + 1) leaves)"
    unfolding root_position_def mask_word Let_def using assms(2,3)
    by (intro bit_word_eqI) (auto simp: bit_simps simp del: push_bit_Suc drop_bit_Suc dest: hi)
  have rs: "row_start R r < 2 ^ 64"
    using assms pos_lt_word [of R r 0] by (simp add: pos_def coord_def)
  have "(push_bit (R + 1 - r) (mask r) :: u64) = of_nat (row_start R r)"
    using assms(2) by (simp add: row_start_bits of_nat_push_bit of_nat_mask_eq)
  then have a: "unat (push_bit (R + 1 - r) (mask r) :: u64) = push_bit (R + 1 - r) (mask r)"
    using rs assms(2) row_start_bits [of r R] by (simp add: unat_of_nat_small)
  have "unat leaves div 2 ^ (r + 1) \<le> unat leaves div 2"
    by (simp add: div_mult2_eq)
  then have "?k \<le> unat leaves" by linarith
  then have "?k < 2 ^ 64" using unsigned_less [of leaves, where 'a = nat] by (simp del: unsigned_less)
  then have "unat (push_bit 1 (drop_bit (r + 1) leaves)) = ?k"
    by (simp only: unsigned_push_bit_eq unat_drop_bit_eq)
      (simp add: push_bit_eq_mult drop_bit_eq_div take_bit_nat_eq_self mult.commute)
  then show ?thesis
    using assms(2) root_offset_less [OF assms(1,2)]
    unfolding w unsigned_or_eq a by (simp add: push_bit_or_add pos_def row_start_bits del: push_bit_Suc)
qed

lemma root_position_posw [pos_simps]:
  assumes "unat leaves < 2 ^ (R + 1)" and "r \<le> R" and "R \<le> 63"
  shows "root_position leaves r R = posw R r (2 * (unat leaves div 2 ^ (r + 1)))"
  using root_position_unat [OF assms] by (metis of_nat_unat ucast_id)

section \<open>Populated nodes and roots\<close>

text \<open>With \<open>n\<close> leaves, row \<open>r\<close> has \<open>n div 2 ^ r\<close> populated nodes.\<close>

definition pop :: "nat \<Rightarrow> nat \<Rightarrow> nat \<Rightarrow> bool" where
  "pop n r k \<longleftrightarrow> k < n div 2 ^ r"

lemma div_power_Suc: "(n :: nat) div 2 ^ Suc r = n div 2 ^ r div 2"
  by (metis div_mult2_eq mult.commute power_Suc)

lemma pop_coord:
  assumes "n \<le> 2 ^ R" and "pop n r k"
  shows "coord R r k"
proof -
  have "k < 2 ^ R div 2 ^ r"
    using assms div_le_mono [OF assms(1), of "2 ^ r"] by (simp add: pop_def)
  moreover from this have "r \<le> R" by (rule_tac ccontr) simp
  ultimately show ?thesis by (simp add: coord_def power_diff)
qed

lemma pop_child: "pop n (Suc r) k \<Longrightarrow> pop n r (2 * k) \<and> pop n r (Suc (2 * k))"
  unfolding pop_def div_power_Suc by linarith

lemma pop_parent: "pop n (Suc r) k \<longleftrightarrow> pop n r (Suc (2 * k))"
  unfolding pop_def div_power_Suc by linarith

definition root_at :: "nat \<Rightarrow> nat \<Rightarrow> nat \<Rightarrow> bool" where
  "root_at n r k \<longleftrightarrow> odd (n div 2 ^ r) \<and> k = n div 2 ^ r - 1"

lemma root_at_pop: "root_at n r k \<Longrightarrow> pop n r k"
  by (auto simp: root_at_def pop_def elim: oddE)

lemma root_at_offset: "root_at n r k \<longleftrightarrow> odd (n div 2 ^ r) \<and> k = 2 * (n div 2 ^ (r + 1))"
  unfolding root_at_def Suc_eq_plus1 [symmetric] div_power_Suc by (auto elim!: oddE)

text \<open>A populated node is a root or has a populated parent.\<close>

lemma root_or_parent: "pop n r k \<Longrightarrow> root_at n r k \<or> pop n (Suc r) (k div 2)"
proof -
  have "k < m \<Longrightarrow> odd m \<and> k = m - 1 \<or> k div 2 < m div 2" for m :: nat by presburger
  then show "pop n r k \<Longrightarrow> root_at n r k \<or> pop n (Suc r) (k div 2)"
    unfolding root_at_def pop_def div_power_Suc .
qed

lemma root_no_parent: "root_at n r k \<Longrightarrow> \<not> pop n (Suc r) (k div 2)"
proof -
  have "odd m \<and> k = m - 1 \<Longrightarrow> \<not> k div 2 < m div 2" for m :: nat by presburger
  then show "root_at n r k \<Longrightarrow> \<not> pop n (Suc r) (k div 2)"
    unfolding root_at_def pop_def div_power_Suc .
qed

lemma pop_sib: "pop n (Suc r) (k div 2) \<Longrightarrow> pop n r k \<and> pop n r (sib k)"
proof -
  have "k div 2 < m div 2 \<Longrightarrow> k < m \<and> (if even k then k + 1 else k - 1) < m" for m :: nat
    by presburger
  then show "pop n (Suc r) (k div 2) \<Longrightarrow> pop n r k \<and> pop n r (sib k)"
    unfolding pop_def div_power_Suc sib_def .
qed

lemma leaves_bit: "leaves AND push_bit r 1 \<noteq> 0 \<longleftrightarrow> odd (unat leaves div 2 ^ r)" for leaves :: u64
proof -
  have "leaves AND push_bit r 1 \<noteq> 0 \<longleftrightarrow> bit leaves r"
    by (simp add: and_exp_eq_0_iff_not_bit)
  also have "\<dots> \<longleftrightarrow> odd (unat leaves div 2 ^ r)"
    by (simp add: bit_unat [symmetric] bit_iff_odd)
  finally show ?thesis .
qed

lemma is_root_position_posw [pos_simps]:
  assumes "unat leaves \<le> 2 ^ R" and "R \<le> 63" and "coord R r k"
  shows "is_root_position (posw R r k) leaves R \<longleftrightarrow> root_at (unat leaves) r k"
proof -
  have lt: "unat leaves < 2 ^ (R + 1)"
    using assms(1) by (rule le_less_trans) simp
  have r: "r \<le> R" using assms(3) by (simp add: coord_def)
  have "odd (unat leaves div 2 ^ r) \<Longrightarrow> coord R r (2 * (unat leaves div 2 ^ (r + 1)))"
    using root_at_pop root_at_offset pop_coord [OF assms(1)] by blast
  then show ?thesis
    unfolding is_root_position_def Let_def detect_row_posw [OF assms(3,2)] leaves_bit
      root_position_posw [OF lt r assms(2)] root_at_offset
    using posw_inj [OF assms(2) _ assms(3)] by blast
qed

section \<open>Row starts, capacity and relocation\<close>

lemma start_position_at_row_eq [pos_simps]:
  assumes "r \<le> R" and "R \<le> 63"
  shows "start_position_at_row r R = Inr (of_nat (row_start R r))"
proof -
  have "row_start R r < 2 ^ 64" using assms pos_lt_word [of R r 0] by (simp add: pos_def coord_def)
  moreover have "2 * 2 ^ R - 2 * 2 ^ (R - r) = row_start R r"
    using assms(1) by (simp add: row_start_def Suc_diff_le)
  ultimately show ?thesis using assms(1) by (simp add: start_position_at_row_def u64_try_from_def)
qed

lemma forest_capacity_eq [pos_simps]:
  assumes "R \<le> 63"
  shows "forest_capacity R = Inr (of_nat (2 ^ (R + 1) - 1))"
proof -
  have "(2 :: nat) ^ (R + 1) \<le> 2 ^ 64" using assms by (intro power_increasing) auto
  then show ?thesis by (simp add: forest_capacity_def u64_try_from_def)
qed

lemma translate_position_posw [pos_simps]:
  assumes "coord R r k" and "R \<le> S" and "S \<le> 63"
  shows "translate_position (posw R r k) R S = Inr (posw S r k)"
proof -
  have r: "r \<le> R" using assms(1) by (simp add: coord_def)
  have "2 ^ (R - r) \<le> (2 :: nat) ^ (S - r)" using assms(2) by (intro power_increasing) auto
  then have c: "coord S r k" using assms(1,2) r unfolding coord_def by linarith
  have diff: "posw R r k - of_nat (row_start R r) = of_nat k"
    by (simp add: pos_def)
  have "unat (of_nat k :: u64) = k" "unat (of_nat (row_start S r) :: u64) = row_start S r"
    using pos_lt_word [OF c assms(3)] by (auto intro!: unat_of_nat_small simp: pos_def)
  then have "checked_add (of_nat (row_start S r)) (of_nat k :: u64) = Some (posw S r k)"
    using pos_lt_word [OF c assms(3)] by (simp add: checked_add_def pos_def)
  then show ?thesis
    using assms r by (simp add: translate_position_def detect_row_posw start_position_at_row_eq diff)
qed

lemma leading_zeros_eq:
  assumes "unat w < 2 ^ L" and "L \<le> 64" and "0 < L \<Longrightarrow> bit w (L - 1)"
  shows "leading_zeros w = 64 - L"
proof -
  have hi: "\<not> bit w i" if "L \<le> i" for i
    using bit_nat_less [of "unat w" i L] assms(1) that by (auto simp: bit_unat)
  have "[0..<64] = [0..<L] @ [L..<64]"
    using assms(2) by (metis le0 le_add_diff_inverse upt_add_eq_append)
  then have "rev [0..<64] = rev [L..<64] @ rev [0..<L]" by simp
  moreover have "takeWhile (\<lambda>i. \<not> bit w i) (rev [0..<L]) = []"
    using assms(3) by (cases L) auto
  ultimately have "takeWhile (\<lambda>i. \<not> bit w i) (rev [0..<64]) = rev [L..<64]"
    using hi takeWhile_append2 [of "rev [L..<64]" "\<lambda>i. \<not> bit w i" "rev [0..<L]"] by simp
  then show ?thesis by (simp add: leading_zeros_def)
qed

lemma leading_zeros_log:
  assumes "2 ^ L \<le> unat w" and "unat w < 2 ^ Suc L" and "L < 64"
  shows "leading_zeros w = 63 - L"
proof -
  have "unat w div 2 ^ L = 1"
    using assms(1,2) by (intro div_nat_eqI) auto
  then have "bit w L" by (simp add: bit_unat [symmetric] bit_iff_odd)
  then show ?thesis using leading_zeros_eq [of w "Suc L"] assms by simp
qed

lemma tree_rows_zero_one: "unat leaves \<le> 1 \<Longrightarrow> tree_rows leaves = 0"
proof -
  assume "unat leaves \<le> 1"
  then have "leaves = 0 \<or> leaves = 1" by (auto simp: word_unat_eq_iff)
  then show ?thesis using leading_zeros_eq [of 0 0] by (auto simp: tree_rows_def)
qed

lemma tree_rows_eq:
  assumes "2 ^ L < unat leaves" and "unat leaves \<le> 2 ^ Suc L"
  shows "tree_rows leaves = Suc L"
proof -
  have "(2 :: nat) ^ L < 2 ^ 64"
    using assms(1) unsigned_less [of leaves, where 'a = nat] by (simp del: unsigned_less)
  then have "L < 64" by (rule power_less_imp_less_exp [rotated]) simp
  have "leaves \<noteq> 0" using assms(1) by auto
  then have m: "unat (leaves - 1) = unat leaves - 1" by (simp add: unat_minus_one)
  have "leading_zeros (leaves - 1) = 63 - L"
    by (rule leading_zeros_log) (use assms m \<open>L < 64\<close> in auto)
  with \<open>leaves \<noteq> 0\<close> \<open>L < 64\<close> show ?thesis by (simp add: tree_rows_def)
qed

lemma tree_rows_capacity: "unat leaves \<le> 2 ^ tree_rows leaves"
proof (cases "unat leaves \<le> 1")
  case True
  then show ?thesis by (simp add: tree_rows_zero_one)
next
  case False
  then obtain L where "2 ^ L < unat leaves" "unat leaves \<le> 2 ^ Suc L"
    using ex_power_ivl2 [of 2 "unat leaves"] by auto
  then show ?thesis using tree_rows_eq by simp
qed

lemma tree_rows_least: "unat leaves \<le> 2 ^ r \<Longrightarrow> tree_rows leaves \<le> r"
proof (cases "unat leaves \<le> 1")
  case True
  then show ?thesis by (simp add: tree_rows_zero_one)
next
  case False
  assume le: "unat leaves \<le> 2 ^ r"
  obtain L where L: "2 ^ L < unat leaves" "unat leaves \<le> 2 ^ Suc L"
    using ex_power_ivl2 [of 2 "unat leaves"] False by auto
  then have "(2 :: nat) ^ L < 2 ^ r" using le by linarith
  then show ?thesis using tree_rows_eq [OF L] by (simp add: Suc_le_eq)
qed

lemma tree_rows_le: "tree_rows leaves \<le> 64"
  by (rule tree_rows_least) (use unsigned_less [of leaves, where 'a = nat] in simp)

lemma forest_rows_from_capacity [pos_simps]:
  assumes "R \<le> 62"
  shows "forest_rows_from_node_count (of_nat (2 ^ (R + 1) - 1)) = Inr R"
proof -
  let ?n = "of_nat (2 ^ (R + 1) - 1) :: u64"
  have lt: "(2 :: nat) ^ (R + 1) < 2 ^ 64" using assms by (intro power_strict_increasing) auto
  then have "unat ?n = 2 ^ (R + 1) - 1" by (intro unat_of_nat_small) simp
  moreover have size: "?n + 1 = 2 ^ (R + 1)"
    by (metis add.commute le_add_diff_inverse of_nat_1 of_nat_add of_nat_numeral of_nat_power one_le_numeral one_le_power)
  ultimately have "checked_add ?n 1 = Some (2 ^ (R + 1))"
    using lt by (simp add: checked_add_def)
  moreover have u: "unat (2 ^ (R + 1) :: u64) = 2 ^ (R + 1)"
    using assms by (intro unat_two_power) simp
  then have "leading_zeros (2 ^ (R + 1)) = 63 - (R + 1)"
    using assms by (intro leading_zeros_log) auto
  moreover have "is_power_of_two (2 ^ (R + 1))"
    using assms unfolding is_power_of_two_def by (intro exI [of _ "R + 1"]) simp
  moreover have "\<not> (2 ^ (R + 1) :: u64) < 2" using u by (simp add: word_less_nat_alt)
  ultimately show ?thesis
    using assms by (simp add: forest_rows_from_node_count_def ilog2_def)
qed

section \<open>Properties\<close>

text \<open>The bit tricks of the flat layout are tree navigation: at every node below the top row the
  parent, the sibling, the first child of the parent and the row the code computes are those of
  the (row, offset) coordinates, for forests of up to 63 rows, so that no shift overflows.\<close>

lemma positions_navigate:
  assumes "coord R r k" and "r < R" and "R \<le> 63"
  shows "parent (posw R r k) R = posw R (r + 1) (k div 2) \<and>
    posw R r k XOR 1 = posw R r (sib k) \<and>
    left_child (parent (posw R r k) R) R = posw R r (2 * (k div 2)) \<and>
    detect_row (posw R r k) R = r"
  using assms coord_parent [OF assms(1,2)]
  by (simp add: parent_posw sibling_posw left_child_posw detect_row_posw)

lemma positions_navigate_witness:
  "parent (posw 3 1 2) 3 = posw 3 (1 + 1) (2 div 2) \<and> posw 3 1 2 XOR 1 = posw 3 1 (sib 2) \<and>
   left_child (parent (posw 3 1 2) 3) 3 = posw 3 1 (2 * (2 div 2)) \<and> detect_row (posw 3 1 2) 3 = 1"
  by (rule positions_navigate) (simp_all add: coord_def)



text \<open>\<open>tree_rows\<close> is the height of the smallest complete tree: \<open>2 ^ tree_rows leaves\<close> leaves
  are enough for \<open>leaves\<close>, and any forest with room for them has at least that many rows, over
  the full range of 64-bit counts.\<close>

lemma tree_rows_minimal:
  "unat leaves \<le> 2 ^ r \<longleftrightarrow> tree_rows leaves \<le> r"
proof
  show "unat leaves \<le> 2 ^ r \<Longrightarrow> tree_rows leaves \<le> r" by (rule tree_rows_least)
  assume "tree_rows leaves \<le> r"
  then have "(2 :: nat) ^ tree_rows leaves \<le> 2 ^ r" by (intro power_increasing) auto
  with tree_rows_capacity [of leaves] show "unat leaves \<le> 2 ^ r" by linarith
qed

end
