(* ===== verification/Flat_Forest.thy ===== *)
theory Flat_Forest
  imports Positions Journal_Codec
begin

text \<open>
  The memory-mapped node file (\<open>FlatForest\<close> in \<open>src/src/parallel_forest.rs\<close>): reading and
  publishing nodes, journal states, and the online resize with its durable marker. The file is
  the list of its 33-byte nodes; the mapping's length is the list's length. Mapping advice and
  page locking have no effect on the contents and are left out.
\<close>

section \<open>Nodes\<close>

record ForestNode =
  fn_hash :: bytes
  fn_flags :: u8

record ForestNodeData =
  nd_hash :: bytes
  nd_spent :: bool

definition READY :: u8 where "READY = 1"
definition SPENT :: u8 where "SPENT = 2"
definition WRITING :: u8 where "WRITING = 4"

text \<open>A hole of the file reads as zero bytes.\<close>

definition zero_node :: ForestNode where
  "zero_node = \<lparr>fn_hash = replicate 32 0, fn_flags = 0\<rparr>"

definition read_ready_node :: "ForestNode \<Rightarrow> ForestNodeData option" where
  "read_ready_node n =
     (if fn_flags n AND READY = 0 then None
      else Some \<lparr>nd_hash = fn_hash n, nd_spent = (fn_flags n AND SPENT \<noteq> 0)\<rparr>)"

record ResizeMarker =
  rm_old_rows :: nat
  rm_new_rows :: nat
  rm_stage :: u8

definition RESIZE_STAGE_COPYING :: u8 where "RESIZE_STAGE_COPYING = 0"
definition RESIZE_STAGE_CLEARING :: u8 where "RESIZE_STAGE_CLEARING = 1"

text \<open>The node file, and the sidecar file of an unfinished resize.\<close>

record FlatForest =
  ff_nodes :: "ForestNode list"
  ff_marker :: "bytes option"

definition node_count :: "FlatForest \<Rightarrow> u64" where
  "node_count f = of_nat (length (ff_nodes f))"

definition node :: "FlatForest \<Rightarrow> u64 \<Rightarrow> ForestNode res" where
  "node f position =
     (if position \<ge> node_count f then bail ''forest position is outside the mapped file''
      else Inr (ff_nodes f ! unat position))"

definition try_read :: "FlatForest \<Rightarrow> u64 \<Rightarrow> ForestNodeData option res" where
  "try_read f position = bind_r (node f position) (\<lambda>n. Inr (read_ready_node n))"

definition set_node :: "FlatForest \<Rightarrow> u64 \<Rightarrow> ForestNode \<Rightarrow> FlatForest" where
  "set_node f position n = f\<lparr>ff_nodes := (ff_nodes f)[unat position := n]\<rparr>"

definition write_node :: "FlatForest \<Rightarrow> u64 \<Rightarrow> ForestNodeData \<Rightarrow> FlatForest res" where
  "write_node f position v =
     bind_r (node f position) (\<lambda>n.
       if fn_flags n \<noteq> 0 then bail ''forest position already has flags''
       else Inr (set_node f position
              \<lparr>fn_hash = nd_hash v, fn_flags = READY OR (if nd_spent v then SPENT else 0)\<rparr>))"

definition journal_state :: "FlatForest \<Rightarrow> u64 \<Rightarrow> JournalNodeState res" where
  "journal_state f position =
     bind_r (try_read f position) (\<lambda>o'. Inr (case o' of
         Some n \<Rightarrow> \<lparr>jn_ready = True, jn_spent = nd_spent n, jn_hash = nd_hash n\<rparr>
       | None \<Rightarrow> UNINITIALIZED))"

definition state_node :: "JournalNodeState \<Rightarrow> ForestNode" where
  "state_node s =
     \<lparr>fn_hash = jn_hash s,
      fn_flags = (if jn_ready s then READY OR (if jn_spent s then SPENT else 0) else 0)\<rparr>"

definition set_journal_state :: "FlatForest \<Rightarrow> u64 \<Rightarrow> JournalNodeState \<Rightarrow> FlatForest res" where
  "set_journal_state f position s =
     bind_r (node f position) (\<lambda>_. Inr (set_node f position (state_node s)))"

section \<open>The resize marker\<close>

definition RESIZE_MARKER_MAGIC :: bytes where
  "RESIZE_MARKER_MAGIC = map (\<lambda>c. of_char c) ''FRSIZE01''"

definition resize_marker_bytes :: "ResizeMarker \<Rightarrow> bytes" where
  "resize_marker_bytes m =
     RESIZE_MARKER_MAGIC @ [of_nat (rm_old_rows m), of_nat (rm_new_rows m), rm_stage m]"

definition read_resize_marker :: "FlatForest \<Rightarrow> ResizeMarker option res" where
  "read_resize_marker f =
     (case ff_marker f of
        None \<Rightarrow> Inr None
      | Some bs \<Rightarrow>
          if length bs \<noteq> 11 \<or> take 8 bs \<noteq> RESIZE_MARKER_MAGIC
          then bail ''invalid forest resize marker''
          else
            let m = \<lparr>rm_old_rows = unat (bs ! 8), rm_new_rows = unat (bs ! 9), rm_stage = bs ! 10\<rparr>
            in if rm_new_rows m \<le> rm_old_rows m \<or>
                  \<not> (rm_stage m = RESIZE_STAGE_COPYING \<or> rm_stage m = RESIZE_STAGE_CLEARING)
               then bail ''invalid forest resize state''
               else Inr (Some m))"

definition write_resize_marker :: "FlatForest \<Rightarrow> ResizeMarker \<Rightarrow> FlatForest res" where
  "write_resize_marker f m =
     (case ff_marker f of
        Some _ \<Rightarrow> Inl (IoError ''AlreadyExists'')
      | None \<Rightarrow> Inr (f\<lparr>ff_marker := Some (resize_marker_bytes m)\<rparr>))"

definition update_resize_marker_stage :: "FlatForest \<Rightarrow> u8 \<Rightarrow> FlatForest res" where
  "update_resize_marker_stage f stage =
     (case ff_marker f of
        None \<Rightarrow> Inl (IoError ''NotFound'')
      | Some bs \<Rightarrow> Inr (f\<lparr>ff_marker := Some (bs[10 := stage])\<rparr>))"

section \<open>Resizing\<close>

text \<open>Extending the file adds zero nodes.\<close>

definition grow_mapping :: "FlatForest \<Rightarrow> u64 \<Rightarrow> u64 \<Rightarrow> FlatForest" where
  "grow_mapping f old_count new_count =
     (if node_count f = new_count then f
      else f\<lparr>ff_nodes := ff_nodes f @ replicate (unat new_count - length (ff_nodes f)) zero_node\<rparr>)"

text \<open>\<open>copy_within\<close>: the source range is read before the destination is written.\<close>

definition copy_within :: "'a list \<Rightarrow> nat \<Rightarrow> nat \<Rightarrow> nat \<Rightarrow> 'a list" where
  "copy_within xs src len dst =
     take dst xs @ take len (drop src xs) @ drop (dst + len) xs"

definition copy_row :: "nat \<Rightarrow> nat \<Rightarrow> FlatForest \<Rightarrow> nat \<Rightarrow> FlatForest res" where
  "copy_row old_rows new_rows f row =
     bind_r (start_position_at_row row old_rows) (\<lambda>source.
     bind_r (start_position_at_row row new_rows) (\<lambda>destination.
       Inr (f\<lparr>ff_nodes :=
         copy_within (ff_nodes f) (unat source) (2 ^ (old_rows - row)) (unat destination)\<rparr>)))"

definition copy_internal_rows :: "FlatForest \<Rightarrow> nat \<Rightarrow> nat \<Rightarrow> FlatForest res" where
  "copy_internal_rows f old_rows new_rows =
     fold_r (copy_row old_rows new_rows) f [1..<old_rows + 1]"

definition clear_new_bottom_range :: "FlatForest \<Rightarrow> nat \<Rightarrow> nat \<Rightarrow> FlatForest" where
  "clear_new_bottom_range f old_rows new_rows =
     f\<lparr>ff_nodes := take (2 ^ old_rows) (ff_nodes f)
         @ replicate (2 ^ new_rows - 2 ^ old_rows) zero_node
         @ drop (2 ^ new_rows) (ff_nodes f)\<rparr>"

definition resume_resize :: "FlatForest \<Rightarrow> ResizeMarker \<Rightarrow> FlatForest res" where
  "resume_resize f m =
     bind_r (forest_capacity (rm_old_rows m)) (\<lambda>old_count.
     bind_r (forest_capacity (rm_new_rows m)) (\<lambda>new_count.
     if \<not> (if rm_stage m = RESIZE_STAGE_COPYING
            then node_count f = old_count \<or> node_count f = new_count
            else rm_stage m = RESIZE_STAGE_CLEARING \<and> node_count f = new_count)
     then bail ''forest resize found unexpected node count''
     else
       bind_r (if rm_stage m = RESIZE_STAGE_COPYING
               then bind_r (copy_internal_rows (grow_mapping f old_count new_count)
                              (rm_old_rows m) (rm_new_rows m))
                      (\<lambda>f. update_resize_marker_stage f RESIZE_STAGE_CLEARING)
               else Inr f) (\<lambda>f.
         Inr ((clear_new_bottom_range f (rm_old_rows m) (rm_new_rows m))\<lparr>ff_marker := None\<rparr>))))"

definition resume_resize_if_needed :: "FlatForest \<Rightarrow> FlatForest res" where
  "resume_resize_if_needed f =
     bind_r (read_resize_marker f) (\<lambda>m. case m of None \<Rightarrow> Inr f | Some m \<Rightarrow> resume_resize f m)"

definition resize_to_rows :: "FlatForest \<Rightarrow> nat \<Rightarrow> FlatForest res" where
  "resize_to_rows f new_rows =
     bind_r (resume_resize_if_needed f) (\<lambda>f.
     bind_r (forest_rows_from_node_count (node_count f)) (\<lambda>old_rows.
       if new_rows \<le> old_rows then Inr f
       else
         let m = \<lparr>rm_old_rows = old_rows, rm_new_rows = new_rows, rm_stage = RESIZE_STAGE_COPYING\<rparr>
         in bind_r (write_resize_marker f m) (\<lambda>f. resume_resize f m)))"

definition FlatForest_create :: "nat \<Rightarrow> FlatForest res" where
  "FlatForest_create count =
     (if count = 0 then bail ''cannot map an empty forest''
      else Inr \<lparr>ff_nodes = replicate count zero_node, ff_marker = None\<rparr>)"

text \<open>\<open>open\<close> on a file of \<open>byte_len\<close> bytes whose nodes are given.\<close>

definition FlatForest_open :: "nat \<Rightarrow> FlatForest \<Rightarrow> FlatForest res" where
  "FlatForest_open byte_len f =
     (if byte_len = 0 \<or> byte_len mod 33 \<noteq> 0 then bail ''forest file has invalid byte length''
      else resume_resize_if_needed f)"

section \<open>Node access\<close>

text \<open>A file of at most \<open>2 ^ 64 - 1\<close> nodes, so that its count is a \<open>u64\<close>.\<close>

definition wf_forest :: "FlatForest \<Rightarrow> bool" where
  "wf_forest f \<longleftrightarrow> length (ff_nodes f) < 2 ^ 64"

lemma node_eq:
  assumes "wf_forest f"
  shows "node f p = (if unat p < length (ff_nodes f) then Inr (ff_nodes f ! unat p)
                     else bail ''forest position is outside the mapped file'')"
proof -
  have "unat (node_count f) = length (ff_nodes f)"
    using assms by (simp add: node_count_def wf_forest_def unat_of_nat_small)
  then show ?thesis by (auto simp: node_def word_le_nat_alt)
qed

lemma set_node_simps [simp]:
  "length (ff_nodes (set_node f p n)) = length (ff_nodes f)"
  "ff_marker (set_node f p n) = ff_marker f"
  "wf_forest (set_node f p n) \<longleftrightarrow> wf_forest f"
  by (simp_all add: set_node_def wf_forest_def)

lemma node_set_node:
  assumes "wf_forest f" and "unat p < length (ff_nodes f)"
  shows "node (set_node f p n) q = (if q = p then Inr n else node f q)"
  using assms by (auto simp: node_eq set_node_def wf_forest_def word_unat_eq_iff nth_list_update)

lemma read_state_node:
  "read_ready_node (state_node s) =
     (if jn_ready s then Some \<lparr>nd_hash = jn_hash s, nd_spent = jn_spent s\<rparr> else None)"
  by (auto simp: read_ready_node_def state_node_def READY_def SPENT_def)

section \<open>Resizing relocates every node and clears the rest\<close>

definition relocated :: "nat \<Rightarrow> nat \<Rightarrow> ForestNode list \<Rightarrow> ForestNode list \<Rightarrow> bool" where
  "relocated R S xs ys \<longleftrightarrow>
     length ys = 2 ^ (S + 1) - 1 \<and>
     (\<forall>r k. coord R r k \<longrightarrow> ys ! pos S r k = xs ! pos R r k) \<and>
     (\<forall>r k. coord S r k \<and> \<not> coord R r k \<longrightarrow> ys ! pos S r k = zero_node)"

lemma coord_mono: "coord R r k \<Longrightarrow> R \<le> S \<Longrightarrow> coord S r k"
proof -
  assume a: "coord R r k" "R \<le> S"
  then have "2 ^ (R - r) \<le> (2 :: nat) ^ (S - r)" by (intro power_increasing) auto
  with a show ?thesis unfolding coord_def by linarith
qed

lemma pos_ge_bottom: "1 \<le> r \<Longrightarrow> r \<le> S + 1 \<Longrightarrow> 2 ^ S \<le> pos S r k"
proof -
  assume a: "1 \<le> r" "r \<le> S + 1"
  have "(2 :: nat) ^ (S + 1 - r) \<le> 2 ^ S" using a by (intro power_increasing) auto
  moreover have "(2 :: nat) ^ (S + 1) = 2 * 2 ^ S" by simp
  ultimately show ?thesis unfolding pos_def row_start_def by linarith
qed

lemma nth_copy_within:
  assumes "src + len \<le> length xs" and "dst + len \<le> length xs" and "i < length xs"
  shows "copy_within xs src len dst ! i = (if dst \<le> i \<and> i < dst + len then xs ! (src + (i - dst)) else xs ! i)"
  using assms by (auto simp: copy_within_def nth_append)

lemma length_copy_within:
  "src + len \<le> length xs \<Longrightarrow> dst + len \<le> length xs \<Longrightarrow> length (copy_within xs src len dst) = length xs"
  by (simp add: copy_within_def)

text \<open>The state of the node array after the rows \<open>1..j\<close> have been copied.\<close>

definition copied_to :: "nat \<Rightarrow> nat \<Rightarrow> nat \<Rightarrow> ForestNode list \<Rightarrow> ForestNode list \<Rightarrow> bool" where
  "copied_to R S j xs ys \<longleftrightarrow>
     length ys = length xs \<and>
     (\<forall>r k. 1 \<le> r \<and> r \<le> j \<and> coord R r k \<longrightarrow> ys ! pos S r k = xs ! pos R r k) \<and>
     (\<forall>i<length xs. (\<forall>r k. 1 \<le> r \<and> r \<le> j \<and> coord R r k \<longrightarrow> i \<noteq> pos S r k) \<longrightarrow> ys ! i = xs ! i)"

lemma copied_to_step:
  assumes c: "copied_to R S j xs ys" and j: "j < R" and "R < S" and "length xs = 2 ^ (S + 1) - 1"
  shows "copied_to R S (Suc j) xs
           (copy_within ys (row_start R (Suc j)) (2 ^ (R - Suc j)) (row_start S (Suc j)))"
    (is "copied_to R S (Suc j) xs ?zs")
proof -
  let ?r = "Suc j" and ?len = "2 ^ (R - Suc j)"
  have len: "length ys = 2 ^ (S + 1) - 1" using c assms(4) by (simp add: copied_to_def)
  have in_row: "row_start S ?r \<le> i \<and> i < row_start S ?r + ?len \<longleftrightarrow> (\<exists>k. coord R ?r k \<and> i = pos S ?r k)" for i
    using j by (auto simp: coord_def pos_def intro: exI [of _ "i - row_start S ?r"])
  have pR: "pos R r k < 2 ^ (R + 1) - 1" if "coord R r k" for r k using that by (rule coord_pos_less)
  have pS: "pos S r k < 2 ^ (S + 1) - 1" if "coord R r k" for r k
    using coord_mono [OF that] assms(3) by (intro coord_pos_less) simp
  have RS: "(2 :: nat) ^ (R + 1) \<le> 2 ^ S" using assms(3) by (intro power_increasing) auto
  have src: "row_start R ?r + ?len \<le> length ys"
  proof -
    have "coord R ?r (?len - 1)" using j by (simp add: coord_def)
    from pR [OF this] RS len show ?thesis by (simp add: pos_def)
  qed
  have dst: "row_start S ?r + ?len \<le> length ys"
  proof -
    have "coord R ?r (?len - 1)" using j by (simp add: coord_def)
    from pS [OF this] len show ?thesis by (simp add: pos_def)
  qed
  have nth: "?zs ! i = (if \<exists>k. coord R ?r k \<and> i = pos S ?r k
      then ys ! (row_start R ?r + (i - row_start S ?r)) else ys ! i)" if "i < length ys" for i
    using nth_copy_within [OF src dst that] in_row [of i] by simp
  have source: "ys ! pos R r k = xs ! pos R r k" if "coord R r k" for r k
  proof -
    have "pos R r k \<noteq> pos S r' k'" if "1 \<le> r'" "r' \<le> j" for r' k'
      using pos_ge_bottom [of r' S k'] that pR [OF \<open>coord R r k\<close>] RS j assms(3) by linarith
    then show ?thesis using c pR [OF that] RS assms(4) unfolding copied_to_def by auto
  qed
  show ?thesis
    unfolding copied_to_def
  proof (intro conjI allI impI)
    show "length ?zs = length xs" using length_copy_within [OF src dst] c by (simp add: copied_to_def)
  next
    fix r k assume a: "1 \<le> r \<and> r \<le> Suc j \<and> coord R r k"
    have i: "pos S r k < length ys" using pS a len by simp
    show "?zs ! pos S r k = xs ! pos R r k"
    proof (cases "r = Suc j")
      case True
      then show ?thesis using a nth [OF i] source [of r k] by (auto simp: pos_def)
    next
      case False
      have "\<not> (\<exists>k'. coord R ?r k' \<and> pos S r k = pos S ?r k')"
        using False a pos_inj [of S r k ?r] coord_mono assms(3) by (meson less_imp_le)
      with nth [OF i] have "?zs ! pos S r k = ys ! pos S r k" by (simp only: if_False)
      then show ?thesis using False a c by (simp add: copied_to_def)
    qed
  next
    fix i assume i: "i < length xs"
      and out: "\<forall>r k. 1 \<le> r \<and> r \<le> Suc j \<and> coord R r k \<longrightarrow> i \<noteq> pos S r k"
    then have "\<not> (\<exists>k. coord R ?r k \<and> i = pos S ?r k)" by auto
    moreover have "i < length ys" using i c by (simp add: copied_to_def)
    ultimately have "?zs ! i = ys ! i" using nth [of i] by (simp only: if_False)
    also have "\<dots> = xs ! i" using c i out by (auto simp: copied_to_def)
    finally show "?zs ! i = xs ! i" .
  qed
qed

lemma copy_internal_rows_copied:
  assumes "R < S" and "S \<le> 63" and "length (ff_nodes f) = 2 ^ (S + 1) - 1"
  shows "\<exists>ys. copy_internal_rows f R S = Inr (f\<lparr>ff_nodes := ys\<rparr>) \<and> copied_to R S R (ff_nodes f) ys"
proof -
  have "\<exists>ys. fold_r (copy_row R S) f [1..<j + 1] = Inr (f\<lparr>ff_nodes := ys\<rparr>) \<and>
      copied_to R S j (ff_nodes f) ys" if "j \<le> R" for j
    using that
  proof (induction j)
    case 0
    then show ?case by (auto simp: copied_to_def intro: exI [of _ "ff_nodes f"])
  next
    case (Suc j)
    then obtain ys where ys: "fold_r (copy_row R S) f [1..<j + 1] = Inr (f\<lparr>ff_nodes := ys\<rparr>)"
      "copied_to R S j (ff_nodes f) ys" by auto
    have u: "unat (of_nat (row_start T (Suc j)) :: u64) = row_start T (Suc j)" if "j < T" "T \<le> 63" for T
      using pos_lt_word [of T "Suc j" 0] that by (intro unat_of_nat_small) (simp add: coord_def pos_def)
    have "copy_row R S (f\<lparr>ff_nodes := ys\<rparr>) (Suc j) = Inr (f\<lparr>ff_nodes :=
        copy_within ys (row_start R (Suc j)) (2 ^ (R - Suc j)) (row_start S (Suc j))\<rparr>)"
      using Suc.prems assms by (simp add: copy_row_def start_position_at_row_eq u)
    moreover have "[1..<Suc j + 1] = [1..<j + 1] @ [Suc j]" by simp
    ultimately show ?case
      using ys copied_to_step [OF ys(2) _ assms(1,3)] Suc.prems
      by (auto simp: fold_r_append simp del: upt_Suc)
  qed
  then show ?thesis by (simp add: copy_internal_rows_def)
qed

lemma nth_clear:
  assumes "2 ^ R \<le> (2 :: nat) ^ S" and "2 ^ S \<le> length (ff_nodes f)" and "i < length (ff_nodes f)"
  shows "ff_nodes (clear_new_bottom_range f R S) ! i =
    (if 2 ^ R \<le> i \<and> i < 2 ^ S then zero_node else ff_nodes f ! i)"
    and "length (ff_nodes (clear_new_bottom_range f R S)) = length (ff_nodes f)"
  using assms by (auto simp: clear_new_bottom_range_def nth_append not_less)

text \<open>
  The contents a resize may leave on disk when it is interrupted: before the marker says
  \<open>CLEARING\<close> the old nodes are intact while any relocated copy may be torn; afterwards the
  relocated copies are complete while the old internal rows may be partly cleared.
\<close>

definition copying_image :: "nat \<Rightarrow> nat \<Rightarrow> ForestNode list \<Rightarrow> ForestNode list \<Rightarrow> bool" where
  "copying_image R S xs ys \<longleftrightarrow>
     length ys = 2 ^ (S + 1) - 1 \<and>
     (\<forall>i<2 ^ (R + 1) - 1. ys ! i = xs ! i) \<and>
     (\<forall>r k. 1 \<le> r \<and> coord S r k \<and> \<not> coord R r k \<longrightarrow> ys ! pos S r k = zero_node)"

definition clearing_image :: "nat \<Rightarrow> nat \<Rightarrow> ForestNode list \<Rightarrow> ForestNode list \<Rightarrow> bool" where
  "clearing_image R S xs ys \<longleftrightarrow>
     length ys = 2 ^ (S + 1) - 1 \<and>
     (\<forall>i<2 ^ R. ys ! i = xs ! i) \<and>
     (\<forall>r k. 1 \<le> r \<and> coord R r k \<longrightarrow> ys ! pos S r k = xs ! pos R r k) \<and>
     (\<forall>r k. 1 \<le> r \<and> coord S r k \<and> \<not> coord R r k \<longrightarrow> ys ! pos S r k = zero_node)"

lemma copied_clearing_image:
  assumes "R < S" and "copying_image R S xs ys" and "copied_to R S R ys zs"
  shows "clearing_image R S xs zs"
proof -
  have RS: "(2 :: nat) ^ (R + 1) \<le> 2 ^ S" using assms(1) by (intro power_increasing) auto
  have S1: "(2 :: nat) ^ (S + 1) = 2 * 2 ^ S" "(2 :: nat) ^ (R + 1) = 2 * 2 ^ R" by simp_all
  have len: "length ys = 2 ^ (S + 1) - 1" using assms(2) by (simp add: copying_image_def)
  have low: "zs ! i = xs ! i" if "i < 2 ^ R" for i
  proof -
    have "i \<noteq> pos S r k" if "1 \<le> r" "r \<le> R" for r k
      using pos_ge_bottom [of r S k] that \<open>i < 2 ^ R\<close> RS S1 assms(1) by linarith
    then show ?thesis
      using assms(2,3) that RS S1 len unfolding copied_to_def copying_image_def by auto
  qed
  have moved: "zs ! pos S r k = xs ! pos R r k" if "1 \<le> r" "coord R r k" for r k
    using assms(2,3) that coord_pos_less(2) [OF that(2)]
    by (auto simp: copied_to_def copying_image_def coord_def)
  have zero: "zs ! pos S r k = zero_node" if "1 \<le> r" "coord S r k" "\<not> coord R r k" for r k
  proof -
    have "pos S r k \<noteq> pos S r' k'" if "coord R r' k'" for r' k'
      using pos_inj [of S r k r' k'] coord_mono [OF that] that \<open>coord S r k\<close> \<open>\<not> coord R r k\<close> assms(1)
      by auto
    then have "zs ! pos S r k = ys ! pos S r k"
      using assms(3) len coord_pos_less(2) [OF that(2)] by (auto simp: copied_to_def)
    then show ?thesis using assms(2) that by (auto simp: copying_image_def)
  qed
  have "length zs = 2 ^ (S + 1) - 1" using assms(3) len by (simp add: copied_to_def)
  with low moved zero show ?thesis unfolding clearing_image_def by blast
qed

lemma cleared_relocated:
  assumes "R < S" and "clearing_image R S xs (ff_nodes f)"
  shows "relocated R S xs (ff_nodes (clear_new_bottom_range f R S))"
proof -
  have RS: "(2 :: nat) ^ R \<le> 2 ^ S" using assms(1) by (intro power_increasing) auto
  have len: "length (ff_nodes f) = 2 ^ (S + 1) - 1" using assms(2) by (simp add: clearing_image_def)
  have S1: "(2 :: nat) ^ (S + 1) = 2 * 2 ^ S" "(1 :: nat) \<le> 2 ^ S" by simp_all
  have le: "2 ^ S \<le> length (ff_nodes f)" using len S1 by linarith
  note nth = nth_clear(1) [OF RS le]
  have bot: "coord T 0 k \<longleftrightarrow> k < 2 ^ T" for T k by (simp add: coord_def)
  have up: "\<not> pos S r k < 2 ^ S" if "1 \<le> r" "coord S r k" for r k
    using pos_ge_bottom [of r S k] that by (simp add: coord_def)
  show ?thesis
    unfolding relocated_def
  proof (intro conjI allI impI)
    show "length (ff_nodes (clear_new_bottom_range f R S)) = 2 ^ (S + 1) - 1"
      using nth_clear(2) [OF RS le, of 0] len S1 by simp
  next
    fix r k assume c: "coord R r k"
    then have c': "coord S r k" using coord_mono assms(1) by simp
    note i = coord_pos_less(2) [OF c', folded len]
    show "ff_nodes (clear_new_bottom_range f R S) ! pos S r k = xs ! pos R r k"
      using c c' nth [OF i] up [of r k] assms(2)
      by (cases r) (auto simp: clearing_image_def coord_def)
  next
    fix r k assume c: "coord S r k \<and> \<not> coord R r k"
    note i = coord_pos_less(2) [OF c [THEN conjunct1], folded len]
    show "ff_nodes (clear_new_bottom_range f R S) ! pos S r k = zero_node"
      using c nth [OF i] up [of r k] assms(2) bot
      by (cases r) (auto simp: clearing_image_def not_less)
  qed
qed

section \<open>Interrupted resizes\<close>

definition marker_of :: "nat \<Rightarrow> nat \<Rightarrow> u8 \<Rightarrow> ResizeMarker" where
  "marker_of R S stage = \<lparr>rm_old_rows = R, rm_new_rows = S, rm_stage = stage\<rparr>"

text \<open>
  Every disk state a resize from \<open>R\<close> to \<open>S\<close> rows can leave behind: the steps of
  \<open>resume_resize\<close> in their order, with writes to the mapping that may reach the disk in any
  part and in any order before the next sync (\<open>tear_copy\<close>, \<open>tear_clear\<close>).
\<close>

inductive resize_disk :: "nat \<Rightarrow> nat \<Rightarrow> ForestNode list \<Rightarrow> FlatForest \<Rightarrow> bool"
  for R S :: nat and xs :: "ForestNode list" where
  idle: "resize_disk R S xs \<lparr>ff_nodes = xs, ff_marker = None\<rparr>"
| mark: "write_resize_marker \<lparr>ff_nodes = xs, ff_marker = None\<rparr> (marker_of R S RESIZE_STAGE_COPYING) = Inr f
    \<Longrightarrow> resize_disk R S xs f"
| extend: "resize_disk R S xs f \<Longrightarrow> read_resize_marker f = Inr (Some (marker_of R S RESIZE_STAGE_COPYING)) \<Longrightarrow>
    forest_capacity R = Inr old_count \<Longrightarrow> forest_capacity S = Inr new_count \<Longrightarrow>
    resize_disk R S xs (grow_mapping f old_count new_count)"
| tear_copy: "resize_disk R S xs f \<Longrightarrow> read_resize_marker f = Inr (Some (marker_of R S RESIZE_STAGE_COPYING)) \<Longrightarrow>
    length (ff_nodes f) = 2 ^ (S + 1) - 1 \<Longrightarrow> 1 \<le> r \<Longrightarrow> coord R r k \<Longrightarrow>
    resize_disk R S xs (f\<lparr>ff_nodes := (ff_nodes f)[pos S r k := torn]\<rparr>)"
| stage: "resize_disk R S xs f \<Longrightarrow> read_resize_marker f = Inr (Some (marker_of R S RESIZE_STAGE_COPYING)) \<Longrightarrow>
    length (ff_nodes f) = 2 ^ (S + 1) - 1 \<Longrightarrow> copy_internal_rows f R S = Inr g \<Longrightarrow>
    update_resize_marker_stage g RESIZE_STAGE_CLEARING = Inr h \<Longrightarrow> resize_disk R S xs h"
| tear_clear: "resize_disk R S xs f \<Longrightarrow> read_resize_marker f = Inr (Some (marker_of R S RESIZE_STAGE_CLEARING)) \<Longrightarrow>
    2 ^ R \<le> i \<Longrightarrow> i < 2 ^ S \<Longrightarrow> resize_disk R S xs (f\<lparr>ff_nodes := (ff_nodes f)[i := torn]\<rparr>)"
| finish: "resize_disk R S xs f \<Longrightarrow> read_resize_marker f = Inr (Some (marker_of R S RESIZE_STAGE_CLEARING)) \<Longrightarrow>
    resize_disk R S xs ((clear_new_bottom_range f R S)\<lparr>ff_marker := None\<rparr>)"

definition disk_inv :: "nat \<Rightarrow> nat \<Rightarrow> ForestNode list \<Rightarrow> FlatForest \<Rightarrow> bool" where
  "disk_inv R S xs f \<longleftrightarrow>
     (ff_marker f = None \<and> (ff_nodes f = xs \<or> relocated R S xs (ff_nodes f))) \<or>
     (ff_marker f = Some (resize_marker_bytes (marker_of R S RESIZE_STAGE_COPYING)) \<and>
        (ff_nodes f = xs \<or> copying_image R S xs (ff_nodes f))) \<or>
     (ff_marker f = Some (resize_marker_bytes (marker_of R S RESIZE_STAGE_CLEARING)) \<and>
        clearing_image R S xs (ff_nodes f))"

lemma length_magic [simp]: "length RESIZE_MARKER_MAGIC = 8"
  by (simp add: RESIZE_MARKER_MAGIC_def)

lemma stage_neq [simp]: "RESIZE_STAGE_COPYING \<noteq> RESIZE_STAGE_CLEARING" "RESIZE_STAGE_CLEARING \<noteq> RESIZE_STAGE_COPYING"
  by (simp_all add: RESIZE_STAGE_COPYING_def RESIZE_STAGE_CLEARING_def)

lemma nth_marker:
  "resize_marker_bytes m ! 8 = of_nat (rm_old_rows m)"
  "resize_marker_bytes m ! 9 = of_nat (rm_new_rows m)"
  "resize_marker_bytes m ! 10 = rm_stage m"
  by (simp_all add: resize_marker_bytes_def nth_append)

lemma read_marker_bytes:
  assumes "R < S" and "S \<le> 63" and "stage = RESIZE_STAGE_COPYING \<or> stage = RESIZE_STAGE_CLEARING"
    and "ff_marker f = Some (resize_marker_bytes (marker_of R S stage))"
  shows "read_resize_marker f = Inr (Some (marker_of R S stage))"
proof -
  have "unat (of_nat R :: u8) = R" "unat (of_nat S :: u8) = S"
    using assms by (auto intro!: unat_of_nat_small)
  moreover have "length (resize_marker_bytes (marker_of R S stage)) = 11"
    "take 8 (resize_marker_bytes (marker_of R S stage)) = RESIZE_MARKER_MAGIC"
    by (simp_all add: resize_marker_bytes_def)
  ultimately show ?thesis
    using assms by (simp add: read_resize_marker_def nth_marker marker_of_def Let_def)
qed

lemma update_stage_bytes:
  "(resize_marker_bytes (marker_of R S a))[10 := b] = resize_marker_bytes (marker_of R S b)"
  by (simp add: resize_marker_bytes_def marker_of_def list_update_append)

lemma len64: "LENGTH(64) = 64"
  by simp

lemma grow_copying_image:
  assumes "R < S" and "S \<le> 63" and "length xs = 2 ^ (R + 1) - 1"
    and "ff_nodes f = xs \<or> copying_image R S xs (ff_nodes f)"
  shows "copying_image R S xs (ff_nodes (grow_mapping f a (of_nat (2 ^ (S + 1) - 1))))"
    and "ff_marker (grow_mapping f a n) = ff_marker f"
proof -
  let ?c = "2 ^ (S + 1) - 1 :: nat"
  have "(2 :: nat) ^ (R + 1) < 2 ^ (S + 1)" using assms(1) by (intro power_strict_increasing) auto
  then have len: "length xs < ?c" unfolding assms(3) by (rule diff_less_mono) simp
  have "(2 :: nat) ^ (S + 1) \<le> 2 ^ 64" using assms(2) by (intro power_increasing) auto
  then have c64: "?c < 2 ^ 64" by (rule less_le_trans [rotated]) simp
  have u: "unat (of_nat ?c :: u64) = ?c" using c64 by (intro unat_of_nat_small) (simp only: len64)
  show "ff_marker (grow_mapping f a n) = ff_marker f" by (simp add: grow_mapping_def)
  show "copying_image R S xs (ff_nodes (grow_mapping f a (of_nat ?c)))"
  proof (cases "ff_nodes f = xs")
    case True
    have "node_count f \<noteq> of_nat ?c"
    proof
      assume "node_count f = of_nat ?c"
      then have "unat (node_count f) = ?c" using u by simp
      then show False using True len c64 by (simp add: node_count_def unat_of_nat_small)
    qed
    then have g: "ff_nodes (grow_mapping f a (of_nat ?c)) = xs @ replicate (?c - length xs) zero_node"
      unfolding grow_mapping_def by (simp only: if_False u) (simp add: True)
    have RS: "(2 :: nat) ^ (R + 1) \<le> 2 ^ S" using assms(1) by (intro power_increasing) auto
    have "pos S r k \<ge> length xs" if "1 \<le> r" "coord S r k" for r k
      using pos_ge_bottom [of r S k] that RS assms(3) by (simp add: coord_def)
    then have z: "(xs @ replicate (?c - length xs) zero_node) ! pos S r k = zero_node"
      if "1 \<le> r" "coord S r k" for r k
    proof -
      have "length xs \<le> pos S r k" using that by fact
      moreover have "pos S r k < ?c" using that(2) by (rule coord_pos_less(2))
      ultimately have "pos S r k - length xs < ?c - length xs" by (rule diff_less_mono [rotated])
      with \<open>length xs \<le> pos S r k\<close> show ?thesis by (simp only: nth_append not_less [symmetric] if_False nth_replicate)
    qed
    have "\<forall>i<2 ^ (R + 1) - 1. (xs @ replicate (?c - length xs) zero_node) ! i = xs ! i"
      using assms(3) by (simp add: nth_append)
    moreover have "length (xs @ replicate (?c - length xs) zero_node) = ?c"
      using len by (simp only: length_append length_replicate)
    ultimately show ?thesis
      unfolding copying_image_def g using z by blast
  next
    case False
    then have i: "copying_image R S xs (ff_nodes f)" using assms(4) by simp
    then have "node_count f = of_nat ?c" by (simp add: copying_image_def node_count_def)
    then show ?thesis using i by (simp add: grow_mapping_def)
  qed
qed

lemma marker_inj:
  assumes "R < S" and "S \<le> 63" and "disk_inv R S xs f"
    and "read_resize_marker f = Inr (Some (marker_of R S stage))"
  shows "ff_marker f = Some (resize_marker_bytes (marker_of R S stage))"
  using assms(3,4) read_marker_bytes [OF assms(1,2), of RESIZE_STAGE_COPYING f]
    read_marker_bytes [OF assms(1,2), of RESIZE_STAGE_CLEARING f]
  by (auto simp: disk_inv_def marker_of_def read_resize_marker_def)

lemma copying_image_update:
  assumes "copying_image R S xs ys" and "R < S" and "1 \<le> r" and "coord R r k"
  shows "copying_image R S xs (ys[pos S r k := t])"
proof -
  have RS: "(2 :: nat) ^ (R + 1) \<le> 2 ^ S" using assms(2) by (intro power_increasing) auto
  have "2 ^ S \<le> pos S r k" using pos_ge_bottom assms by (simp add: coord_def)
  moreover have "pos S r k \<noteq> pos S r' k'" if "coord S r' k'" "\<not> coord R r' k'" for r' k'
    using that assms(2,4) pos_inj [of S r k r' k'] coord_mono [OF assms(4)] by auto
  ultimately show ?thesis using assms(1) RS by (auto simp: copying_image_def nth_list_update)
qed

lemma clearing_image_update:
  assumes "clearing_image R S xs ys" and "R < S" and "2 ^ R \<le> i" and "i < 2 ^ S"
  shows "clearing_image R S xs (ys[i := t])"
proof -
  have "i \<noteq> pos S r k" if "1 \<le> r" "coord S r k" for r k
    using pos_ge_bottom [of r S k] that assms(4) by (auto simp: coord_def)
  then show ?thesis
    using assms coord_mono [of R _ _ S] by (auto simp: clearing_image_def nth_list_update)
qed

lemma resize_disk_inv:
  assumes "resize_disk R S xs f" and "R < S" and "S \<le> 63" and len: "length xs = 2 ^ (R + 1) - 1"
  shows "disk_inv R S xs f"
  using assms(1)
proof (induction rule: resize_disk.induct)
  case idle
  show ?case by (simp add: disk_inv_def)
next
  case (mark f)
  then show ?case by (auto simp: write_resize_marker_def disk_inv_def)
next
  case (extend f a n)
  have n: "n = of_nat (2 ^ (S + 1) - 1)" using extend.hyps(4) assms(3) by (simp add: forest_capacity_eq)
  note m = marker_inj [OF assms(2,3) extend.IH extend.hyps(2)]
  have "ff_nodes f = xs \<or> copying_image R S xs (ff_nodes f)"
    using extend.IH m by (auto simp: disk_inv_def resize_marker_bytes_def marker_of_def)
  note g = grow_copying_image [OF assms(2,3) len this]
  have "ff_marker (grow_mapping f a n) = Some (resize_marker_bytes (marker_of R S RESIZE_STAGE_COPYING))"
    using g(2) m by (rule trans)
  moreover have "copying_image R S xs (ff_nodes (grow_mapping f a n))" unfolding n by (rule g(1))
  ultimately show ?case unfolding disk_inv_def by blast
next
  case (tear_copy f r k t)
  note m = marker_inj [OF assms(2,3) tear_copy.IH tear_copy.hyps(2)]
  have "(2 :: nat) ^ (R + 1) < 2 ^ (S + 1)" using assms(2) by (intro power_strict_increasing) auto
  then have "length xs \<noteq> 2 ^ (S + 1) - 1"
    unfolding len by (metis diff_less_mono less_irrefl one_le_numeral one_le_power)
  then have "copying_image R S xs (ff_nodes f)"
    using tear_copy.IH tear_copy.hyps(3) m by (auto simp: disk_inv_def resize_marker_bytes_def marker_of_def)
  from copying_image_update [OF this assms(2) tear_copy.hyps(4,5)] m show ?case
    by (simp add: disk_inv_def)
next
  case (stage f g h)
  note m = marker_inj [OF assms(2,3) stage.IH stage.hyps(2)]
  have "(2 :: nat) ^ (R + 1) < 2 ^ (S + 1)" using assms(2) by (intro power_strict_increasing) auto
  then have "length xs \<noteq> 2 ^ (S + 1) - 1"
    unfolding len by (metis diff_less_mono less_irrefl one_le_numeral one_le_power)
  then have i: "copying_image R S xs (ff_nodes f)"
    using stage.IH stage.hyps(3) m by (auto simp: disk_inv_def resize_marker_bytes_def marker_of_def)
  obtain ys where ys: "g = f\<lparr>ff_nodes := ys\<rparr>" "copied_to R S R (ff_nodes f) ys"
    using copy_internal_rows_copied [OF assms(2,3) stage.hyps(3)] stage.hyps(4) by auto
  have "clearing_image R S xs ys" by (rule copied_clearing_image [OF assms(2) i ys(2)])
  then show ?case using stage.hyps(5) ys(1) m
    by (auto simp: update_resize_marker_stage_def update_stage_bytes disk_inv_def)
next
  case (tear_clear f i t)
  note m = marker_inj [OF assms(2,3) tear_clear.IH tear_clear.hyps(2)]
  have "clearing_image R S xs (ff_nodes f)"
    using tear_clear.IH m by (auto simp: disk_inv_def resize_marker_bytes_def marker_of_def)
  from clearing_image_update [OF this assms(2) tear_clear.hyps(3,4)] m show ?case
    by (simp add: disk_inv_def)
next
  case (finish f)
  note m = marker_inj [OF assms(2,3) finish.IH finish.hyps(2)]
  have "clearing_image R S xs (ff_nodes f)"
    using finish.IH m by (auto simp: disk_inv_def resize_marker_bytes_def marker_of_def)
  from cleared_relocated [OF assms(2) this] show ?case
    by (simp add: disk_inv_def)
qed

lemma resume_copying:
  assumes "R < S" and "S \<le> 63" and "length xs = 2 ^ (R + 1) - 1"
    and "ff_marker f = Some (resize_marker_bytes (marker_of R S RESIZE_STAGE_COPYING))"
    and "ff_nodes f = xs \<or> copying_image R S xs (ff_nodes f)"
  shows "\<exists>g. resume_resize f (marker_of R S RESIZE_STAGE_COPYING) = Inr g \<and> ff_marker g = None \<and>
    relocated R S xs (ff_nodes g)"
proof -
  have R: "R \<le> 63" using assms by simp
  obtain a c where a: "forest_capacity R = Inr a" "a = of_nat (2 ^ (R + 1) - 1)"
    and c: "forest_capacity S = Inr c" "c = of_nat (2 ^ (S + 1) - 1)"
    using forest_capacity_eq [OF R] forest_capacity_eq [OF assms(2)] by blast
  let ?g = "grow_mapping f a c"
  have img: "copying_image R S xs (ff_nodes ?g)"
    unfolding c(2) by (rule grow_copying_image(1) [OF assms(1-3,5)])
  have mk: "ff_marker ?g = ff_marker f" by (simp add: grow_mapping_def)
  from img have "length (ff_nodes ?g) = 2 ^ (S + 1) - 1" by (simp add: copying_image_def)
  then obtain ys where ys: "copy_internal_rows ?g R S = Inr (?g\<lparr>ff_nodes := ys\<rparr>)"
    "copied_to R S R (ff_nodes ?g) ys"
    using copy_internal_rows_copied [OF assms(1,2)] by blast
  have cl: "clearing_image R S xs ys" by (rule copied_clearing_image [OF assms(1) img ys(2)])
  have count: "node_count f = a \<or> node_count f = c"
    using assms(3,5) unfolding a(2) c(2) by (auto simp: node_count_def copying_image_def)
  let ?h = "?g\<lparr>ff_nodes := ys, ff_marker := Some (resize_marker_bytes (marker_of R S RESIZE_STAGE_CLEARING))\<rparr>"
  have "update_resize_marker_stage (?g\<lparr>ff_nodes := ys\<rparr>) RESIZE_STAGE_CLEARING = Inr ?h"
    by (simp add: update_resize_marker_stage_def mk assms(4) update_stage_bytes)
  then have "resume_resize f (marker_of R S RESIZE_STAGE_COPYING)
      = Inr ((clear_new_bottom_range ?h R S)\<lparr>ff_marker := None\<rparr>)"
    using count by (simp add: resume_resize_def marker_of_def a(1) c(1) ys(1))
  moreover have "relocated R S xs (ff_nodes (clear_new_bottom_range ?h R S))"
    using cl by (intro cleared_relocated [OF assms(1)]) simp
  ultimately show ?thesis by simp
qed

lemma resume_clearing:
  assumes "R < S" and "S \<le> 63" and "clearing_image R S xs (ff_nodes f)"
  shows "\<exists>g. resume_resize f (marker_of R S RESIZE_STAGE_CLEARING) = Inr g \<and> ff_marker g = None \<and>
    relocated R S xs (ff_nodes g)"
proof -
  have R: "R \<le> 63" using assms by simp
  obtain a c where a: "forest_capacity R = Inr a"
    and c: "forest_capacity S = Inr c" "c = of_nat (2 ^ (S + 1) - 1)"
    using forest_capacity_eq [OF R] forest_capacity_eq [OF assms(2)] by blast
  have "node_count f = c"
    unfolding c(2) using assms(3) by (simp add: node_count_def clearing_image_def)
  then have "resume_resize f (marker_of R S RESIZE_STAGE_CLEARING)
      = Inr ((clear_new_bottom_range f R S)\<lparr>ff_marker := None\<rparr>)"
    by (simp add: resume_resize_def marker_of_def a c(1))
  then show ?thesis using cleared_relocated [OF assms(1,3)] by simp
qed

lemma resume_resize_disk:
  assumes "resize_disk R S xs f" and "R < S" and "S \<le> 63" and "length xs = 2 ^ (R + 1) - 1"
  shows "\<exists>g. resume_resize_if_needed f = Inr g \<and> ff_marker g = None \<and>
    (if ff_marker f = None then g = f \<and> (ff_nodes f = xs \<or> relocated R S xs (ff_nodes f))
     else relocated R S xs (ff_nodes g))"
proof -
  consider "ff_marker f = None" "ff_nodes f = xs \<or> relocated R S xs (ff_nodes f)"
    | "ff_marker f = Some (resize_marker_bytes (marker_of R S RESIZE_STAGE_COPYING))"
      "ff_nodes f = xs \<or> copying_image R S xs (ff_nodes f)"
    | "ff_marker f = Some (resize_marker_bytes (marker_of R S RESIZE_STAGE_CLEARING))"
      "clearing_image R S xs (ff_nodes f)"
    using resize_disk_inv [OF assms] unfolding disk_inv_def by (elim disjE conjE) simp_all
  then show ?thesis
  proof cases
    case 1
    then show ?thesis by (simp add: resume_resize_if_needed_def read_resize_marker_def)
  next
    case 2
    then show ?thesis
      using read_marker_bytes [OF assms(2,3) _ 2(1)] resume_copying [OF assms(2-4) 2]
      by (simp add: resume_resize_if_needed_def)
  next
    case 3
    then show ?thesis
      using read_marker_bytes [OF assms(2,3) _ 3(1)] resume_clearing [OF assms(2,3) 3(2)]
      by (simp add: resume_resize_if_needed_def)
  qed
qed

lemma resize_to_rows_relocates:
  assumes "R < S" and "S \<le> 63" and "length (ff_nodes f) = 2 ^ (R + 1) - 1" and "ff_marker f = None"
  shows "\<exists>g. resize_to_rows f S = Inr g \<and> ff_marker g = None \<and> relocated R S (ff_nodes f) (ff_nodes g)"
proof -
  have R: "R \<le> 62" using assms by simp
  have rows: "forest_rows_from_node_count (node_count f) = Inr R"
    unfolding node_count_def assms(3) by (rule forest_rows_from_capacity [OF R])
  let ?f = "f\<lparr>ff_marker := Some (resize_marker_bytes (marker_of R S RESIZE_STAGE_COPYING))\<rparr>"
  have "resize_to_rows f S = resume_resize ?f (marker_of R S RESIZE_STAGE_COPYING)"
    using assms(1,4) rows
    by (simp add: resize_to_rows_def resume_resize_if_needed_def read_resize_marker_def
        write_resize_marker_def marker_of_def Let_def)
  then show ?thesis using resume_copying [OF assms(1,2), of "ff_nodes f" ?f] assms(3) by simp
qed

section \<open>Properties\<close>


definition example_node :: "u8 \<Rightarrow> ForestNode" where
  "example_node b = \<lparr>fn_hash = replicate 32 b, fn_flags = READY\<rparr>"





text \<open>
  The marker is written by creating the file and then filling it. If a crash falls in between, the
  file is short, and every later start refuses it, although no node has moved yet.
\<close>

lemma torn_marker_refused:
  assumes "ff_marker f = Some bs" and "length bs < 11"
  shows "\<exists>e. read_resize_marker f = Inl e \<and> resume_resize_if_needed f = Inl e"
  using assms by (auto simp: read_resize_marker_def resume_resize_if_needed_def)

end
