(* ===== verification/Journal_File.thy ===== *)
theory Journal_File
  imports Udata
begin

text \<open>
  The files of the write-ahead journal (\<open>src/src/forest_journal.rs\<close>): what a crash may leave
  of a file, the image of a record, and the alternating checksummed publication marker.
  File offsets and lengths are natural numbers; every checked operation of the code tests
  against \<open>2 ^ 64\<close> here, and the unchecked ones come after such a test.
\<close>

section \<open>Files and crashes\<close>

text \<open>
  A file is what reads return, together with the earlier contents that have not been replaced
  by a sync. After a crash every byte, and the length, is one of these versions'; different
  bytes may come from different versions.
\<close>

record vfile =
  vf_data :: bytes
  vf_past :: "bytes list"

definition versions :: "vfile \<Rightarrow> bytes list" where
  "versions f = vf_data f # vf_past f"

definition synced_file :: "bytes \<Rightarrow> vfile" where
  "synced_file d = \<lparr>vf_data = d, vf_past = []\<rparr>"

definition put_data :: "vfile \<Rightarrow> bytes \<Rightarrow> vfile" where
  "put_data f d = \<lparr>vf_data = d, vf_past = vf_data f # vf_past f\<rparr>"

definition crash_image :: "vfile \<Rightarrow> bytes \<Rightarrow> bool" where
  "crash_image f c \<longleftrightarrow>
     (\<exists>v\<in>set (versions f). length c = length v) \<and>
     (\<forall>i<length c. \<exists>v\<in>set (versions f). i < length v \<and> c ! i = v ! i)"

definition sub :: "bytes \<Rightarrow> nat \<Rightarrow> nat \<Rightarrow> bytes" where
  "sub d a b = take (b - a) (drop a d)"

definition read_exact_at :: "bytes \<Rightarrow> nat \<Rightarrow> nat \<Rightarrow> bytes option" where
  "read_exact_at d n off = (if off + n \<le> length d then Some (sub d off (off + n)) else None)"

definition set_len_bytes :: "bytes \<Rightarrow> nat \<Rightarrow> bytes" where
  "set_len_bytes d n = take n d @ replicate (n - length d) 0"

definition write_at :: "bytes \<Rightarrow> bytes \<Rightarrow> nat \<Rightarrow> bytes" where
  "write_at d bs off =
     (if bs = [] then d
      else take off (set_len_bytes d (max off (length d))) @ bs @ drop (off + length bs) d)"

text \<open>
  An operation on a file may fail. \<open>io k = Some n\<close> says that the \<open>k\<close>-th file operation of a
  call fails, a write after \<open>n\<close> bytes; the file keeps what was written.
\<close>

type_synonym faults = "nat \<Rightarrow> nat option"

definition bind_s :: "'s \<times> 'a res \<Rightarrow> ('s \<Rightarrow> 'a \<Rightarrow> 's \<times> 'b res) \<Rightarrow> 's \<times> 'b res" where
  "bind_s m k = (case m of (s, Inl e) \<Rightarrow> (s, Inl e) | (s, Inr x) \<Rightarrow> k s x)"

definition vf_write :: "faults \<Rightarrow> nat \<Rightarrow> vfile \<Rightarrow> bytes \<Rightarrow> nat \<Rightarrow> vfile \<times> unit res" where
  "vf_write io k f bs off =
     (case io k of
        None \<Rightarrow> (put_data f (write_at (vf_data f) bs off), Inr ())
      | Some n \<Rightarrow> (put_data f (write_at (vf_data f) (take n bs) off), Inl (IoError ''write'')))"

definition vf_set_len :: "faults \<Rightarrow> nat \<Rightarrow> vfile \<Rightarrow> nat \<Rightarrow> vfile \<times> unit res" where
  "vf_set_len io k f n =
     (case io k of
        None \<Rightarrow> (put_data f (set_len_bytes (vf_data f) n), Inr ())
      | Some _ \<Rightarrow> (f, Inl (IoError ''set_len'')))"

definition vf_sync :: "faults \<Rightarrow> nat \<Rightarrow> vfile \<Rightarrow> vfile \<times> unit res" where
  "vf_sync io k f =
     (case io k of
        None \<Rightarrow> (synced_file (vf_data f), Inr ())
      | Some _ \<Rightarrow> (f, Inl (IoError ''sync'')))"

definition no_faults :: faults where
  "no_faults k = None"

section \<open>The code outside the repository\<close>

text \<open>SHA-256, the consensus encodings and the header type are parameters.\<close>

record 'h journal_env =
  e_sha :: "bytes \<Rightarrow> bytes"
  e_cons :: consensus
  e_hdr :: "'h header_ops"

definition env_ok :: "'h journal_env \<Rightarrow> bool" where
  "env_ok E \<longleftrightarrow> (\<forall>b. length (e_sha E b) = 32) \<and> consensus_ok (e_cons E) \<and> header_ok (e_hdr E)"

section \<open>Records\<close>

definition ascii :: "string \<Rightarrow> bytes" where
  "ascii s = map of_char s"

definition RECORD_MAGIC :: bytes where "RECORD_MAGIC = ascii ''BRJNL001''"
definition PRUNED_MAGIC :: bytes where "PRUNED_MAGIC = ascii ''PRUNED01''"
definition RECORD_TRAILER :: bytes where "RECORD_TRAILER = ascii ''ENDJNL01''"
definition LEGACY_RECORD_VERSION :: u16 where "LEGACY_RECORD_VERSION = 1"
definition REPLAY_RECORD_VERSION :: u16 where "REPLAY_RECORD_VERSION = 2"
definition RECORD_VERSION :: u16 where "RECORD_VERSION = 3"
definition STATUS_OFFSET :: nat where "STATUS_OFFSET = 10"
definition WAL_MAGIC :: bytes where "WAL_MAGIC = ascii ''BRWAL002''"
definition PUBLICATION_MAGIC :: bytes where "PUBLICATION_MAGIC = ascii ''BRPUB001''"
definition PUBLICATION_SLOT_SIZE :: nat where "PUBLICATION_SLOT_SIZE = 4096"
definition MAX_RECORD_BYTES :: nat where "MAX_RECORD_BYTES = 512 * 1024 * 1024"

datatype JournalStatus = Forward | RolledBack

definition from_byte :: "u8 \<Rightarrow> JournalStatus res" where
  "from_byte b = (if b = 0 then Inr Forward else if b = 1 then Inr RolledBack
                  else bail ''unknown journal status'')"

fun to_byte :: "JournalStatus \<Rightarrow> u8" where
  "to_byte Forward = 0"
| "to_byte RolledBack = 1"

record 'h JournalReplayPayload =
  rp_header :: 'h
  rp_proof :: CompactBlockProof
  rp_proof_forest_rows :: u8

record 'h JournalRecord =
  jr_entry :: JournalEntry
  jr_status :: JournalStatus
  jr_replay :: "'h JournalReplayPayload option"
  jr_offset :: nat
  jr_span :: nat
  jr_checksum :: bytes

record JournalBoundary =
  jb_journal_id :: bytes
  jb_epoch :: nat
  jb_end :: nat
  jb_offset :: nat
  jb_height :: u32
  jb_block_hash :: bytes
  jb_checksum :: bytes

record PublicationMarker =
  pm_generation :: nat
  pm_replay_start :: nat
  pm_boundary :: JournalBoundary

definition empty_boundary :: "bytes \<Rightarrow> nat \<Rightarrow> nat \<Rightarrow> JournalBoundary" where
  "empty_boundary journal_id epoch page_size =
     \<lparr>jb_journal_id = journal_id, jb_epoch = epoch, jb_end = page_size, jb_offset = 0,
      jb_height = 0, jb_block_hash = replicate 32 0, jb_checksum = replicate 32 0\<rparr>"

definition record_boundary :: "'h JournalRecord \<Rightarrow> bytes \<Rightarrow> nat \<Rightarrow> JournalBoundary" where
  "record_boundary r journal_id epoch =
     \<lparr>jb_journal_id = journal_id, jb_epoch = epoch, jb_end = jr_offset r + jr_span r,
      jb_offset = jr_offset r, jb_height = je_height (jr_entry r),
      jb_block_hash = je_block_hash (jr_entry r), jb_checksum = jr_checksum r\<rparr>"

definition align_up :: "nat \<Rightarrow> nat \<Rightarrow> nat option" where
  "align_up n alignment =
     (if alignment = 0 then None
      else if n + (alignment - 1) < 2 ^ 64 then Some ((n + (alignment - 1)) div alignment * alignment)
      else None)"

definition le64 :: "nat \<Rightarrow> bytes" where
  "le64 n = le_bytes 8 (of_nat n :: u64)"

definition rd64 :: "bytes \<Rightarrow> nat \<Rightarrow> nat" where
  "rd64 bs a = unat (from_le (sub bs a (a + 8)) :: u64)"

definition rd16 :: "bytes \<Rightarrow> nat \<Rightarrow> u16" where
  "rd16 bs a = from_le (sub bs a (a + 2))"

definition record_header :: "u16 \<Rightarrow> JournalStatus \<Rightarrow> nat \<Rightarrow> nat \<Rightarrow> bytes \<Rightarrow> bytes" where
  "record_header version status span payload_len checksum =
     RECORD_MAGIC @ le_bytes 2 version @ [to_byte status] @ replicate 5 0 @
     le64 span @ le64 payload_len @ checksum"

definition write_record ::
  "'h journal_env \<Rightarrow> faults \<Rightarrow> vfile \<Rightarrow> nat \<Rightarrow> nat \<Rightarrow> JournalEntry \<Rightarrow> 'h JournalReplayPayload option \<Rightarrow>
   bytes \<Rightarrow> u16 \<Rightarrow> vfile \<times> 'h JournalRecord res" where
  "write_record E io f page_size offset entry replay payload version =
     (if length payload > MAX_RECORD_BYTES then (f, bail ''journal entry is too large'')
      else case align_up (64 + length payload + 8) page_size of
        None \<Rightarrow> (f, bail ''journal span overflow'')
      | Some span \<Rightarrow>
          if offset + span \<ge> 2 ^ 64 then (f, bail ''journal file length overflow'')
          else
            let checksum = e_sha E payload;
                header = record_header version Forward span (length payload) checksum
            in bind_s (vf_set_len io 0 f (offset + span)) (\<lambda>f _.
               bind_s (vf_write io 1 f header offset) (\<lambda>f _.
               bind_s (vf_write io 2 f payload (offset + 64)) (\<lambda>f _.
               bind_s (vf_write io 3 f RECORD_TRAILER (offset + 64 + length payload)) (\<lambda>f _.
                 (f, Inr \<lparr>jr_entry = entry, jr_status = Forward, jr_replay = replay,
                          jr_offset = offset, jr_span = span, jr_checksum = checksum\<rparr>))))))"

definition read_record_header :: "bytes \<Rightarrow> nat \<Rightarrow> nat \<Rightarrow> nat \<Rightarrow> bytes res" where
  "read_record_header d page_size offset end' =
     bind_r (ok_or (read_exact_at d 64 offset) ''published journal header is truncated'') (\<lambda>header.
     bind_r (ensure (sub header 0 8 = RECORD_MAGIC) ''invalid published journal magic'') (\<lambda>_.
     let version = rd16 header 8 in
     bind_r (ensure (version = LEGACY_RECORD_VERSION \<or> version = REPLAY_RECORD_VERSION \<or> version = RECORD_VERSION)
              ''unsupported journal version'') (\<lambda>_.
     bind_r (from_byte (header ! 10)) (\<lambda>_.
     let span = rd64 header 16; payload_len = rd64 header 24 in
     bind_r (ensure (\<not> (payload_len > MAX_RECORD_BYTES \<or>
                         align_up (64 + payload_len + 8) page_size \<noteq> Some span \<or>
                         offset + span \<ge> 2 ^ 64 \<or> offset + span > end'))
              ''invalid published journal span'') (\<lambda>_.
     bind_r (ok_or (read_exact_at d 8 (offset + 64 + payload_len))
              ''published journal trailer is truncated'') (\<lambda>trailer.
     bind_r (ensure (trailer = RECORD_TRAILER) ''invalid published journal trailer'') (\<lambda>_.
       Inr header)))))))"

text \<open>The payload of a record: a bare entry in the legacy version, a length-prefixed entry
  followed by the header, the proof's rows and the compact proof otherwise.\<close>

definition header_matches :: "'h journal_env \<Rightarrow> 'h \<Rightarrow> JournalEntry \<Rightarrow> bool" where
  "header_matches E h e \<longleftrightarrow>
     h_block_hash (e_hdr E) h = je_block_hash e \<and> h_prev_blockhash (e_hdr E) h = je_previous_block_hash e"

definition decode_payload ::
  "'h journal_env \<Rightarrow> u16 \<Rightarrow> bytes \<Rightarrow> (JournalEntry \<times> 'h JournalReplayPayload option) res" where
  "decode_payload E version payload =
     (if version = LEGACY_RECORD_VERSION
      then bind_r (decode_entry payload) (\<lambda>e. Inr (e, None))
      else
        bind_r (take_u32 payload) (\<lambda>(n, reader).
        let entry_len = unat n in
        bind_r (ensure (entry_len \<le> length reader) ''journal forest payload is truncated'') (\<lambda>_.
        bind_r (decode_entry (take entry_len reader)) (\<lambda>entry.
        bind_r (ensure (\<not> (version = RECORD_VERSION \<and> je_forest_rows entry = None))
                 ''journal replay is missing its physical forest layout'') (\<lambda>_.
        bind_r (h_dec (e_hdr E) (drop entry_len reader)) (\<lambda>(header, reader).
        bind_r (take_array 1 reader) (\<lambda>(rows, reader).
        bind_r (ensure (hd rows \<le> 63) ''invalid journal proof forest rows'') (\<lambda>_.
        bind_r (CompactBlockProof_decode (e_cons E) reader) (\<lambda>(proof, reader).
        bind_r (ensure (reader = []) ''journal replay payload has trailing bytes'') (\<lambda>_.
        bind_r (ensure (header_matches E header entry)
                 ''journal replay header does not match its forest entry'') (\<lambda>_.
          Inr (entry, Some \<lparr>rp_header = header, rp_proof = proof, rp_proof_forest_rows = hd rows\<rparr>))))))))))))"

definition read_record :: "'h journal_env \<Rightarrow> bytes \<Rightarrow> nat \<Rightarrow> nat \<Rightarrow> nat \<Rightarrow> 'h JournalRecord res" where
  "read_record E d page_size offset end' =
     bind_r (read_record_header d page_size offset end') (\<lambda>header.
     let payload_len = rd64 header 24 in
     bind_r (ok_or (read_exact_at d payload_len (offset + 64)) ''read'') (\<lambda>payload.
     bind_r (ensure (e_sha E payload = sub header 32 64) ''published journal checksum mismatch'') (\<lambda>_.
     bind_r (decode_payload E (rd16 header 8) payload) (\<lambda>(entry, replay).
     bind_r (from_byte (header ! 10)) (\<lambda>status.
       Inr \<lparr>jr_entry = entry, jr_status = status, jr_replay = replay, jr_offset = offset,
            jr_span = rd64 header 16, jr_checksum = e_sha E payload\<rparr>)))))"

text \<open>The streaming checksum: 64 KiB at a time.\<close>

function digest_loop :: "bytes \<Rightarrow> nat \<Rightarrow> nat \<Rightarrow> nat \<Rightarrow> bytes \<Rightarrow> bytes res" where
  "digest_loop d start payload_len read acc =
     (if read < payload_len then
        let count = min (payload_len - read) (64 * 1024) in
        case read_exact_at d count (start + read) of
          None \<Rightarrow> bail ''read''
        | Some buffer \<Rightarrow> digest_loop d start payload_len (read + count) (acc @ buffer)
      else Inr acc)"
  by pat_completeness auto
termination by (relation "measure (\<lambda>(d, s, n, r, a). n - r)") auto

declare digest_loop.simps [simp del]

definition validate_boundary :: "'h journal_env \<Rightarrow> bytes \<Rightarrow> nat \<Rightarrow> JournalBoundary \<Rightarrow> unit res" where
  "validate_boundary E d page_size b =
     bind_r (read_record_header d page_size (jb_offset b) (jb_end b)) (\<lambda>header.
     let span = rd64 header 16 in
     bind_r (ensure (\<not> (jb_offset b + span \<noteq> jb_end b \<or> sub header 32 64 \<noteq> jb_checksum b))
              ''publication boundary does not match its complete record'') (\<lambda>_.
     let payload_len = rd64 header 24 in
     bind_r (digest_loop d (jb_offset b + 64) payload_len 0 []) (\<lambda>digested.
     bind_r (ensure (e_sha E digested = jb_checksum b)
              ''publication boundary record checksum mismatch'') (\<lambda>_.
     let entry_offset = jb_offset b + 64 + (if rd16 header 8 \<noteq> LEGACY_RECORD_VERSION then 4 else 0) in
     bind_r (ok_or (read_exact_at d 44 entry_offset) ''read'') (\<lambda>identity.
       ensure (\<not> (sub identity 0 32 \<noteq> jb_block_hash b \<or>
                   from_le (sub identity 40 44) \<noteq> jb_height b))
         ''publication boundary height or hash does not match its record'')))))"

lemma align_up_Some:
  "align_up n a = Some s \<Longrightarrow> 0 < a \<and> s mod a = 0 \<and> n \<le> s \<and> s < n + a \<and> s < 2 ^ 64"
proof -
  assume h: "align_up n a = Some s"
  then have a: "0 < a" and s: "s = (n + (a - 1)) div a * a" and lt: "n + (a - 1) < 2 ^ 64"
    by (auto simp: align_up_def split: if_splits)
  have "s + (n + (a - 1)) mod a = n + (a - 1)" unfolding s by (rule div_mult_mod_eq)
  moreover have "(n + (a - 1)) mod a < a" using a by simp
  ultimately have "n \<le> s" "s \<le> n + (a - 1)" by linarith+
  moreover have "s mod a = 0" unfolding s by simp
  ultimately show ?thesis using a lt by linarith
qed

lemma read_record_span_pos: "read_record E d page_size offset end' = Inr r \<Longrightarrow> 0 < jr_span r"
  by (auto simp: read_record_def read_record_header_def Let_def dest!: align_up_Some split: prod.splits)

function scan_loop :: "'h journal_env \<Rightarrow> bytes \<Rightarrow> nat \<Rightarrow> nat \<Rightarrow> nat \<Rightarrow> 'h JournalRecord list res" where
  "scan_loop E d page_size offset end' =
     (if offset < end' then
        bind_r (read_record E d page_size offset end') (\<lambda>r.
        bind_r (scan_loop E d page_size (offset + jr_span r) end') (\<lambda>rs. Inr (r # rs)))
      else Inr [])"
  by pat_completeness auto
termination
  by (relation "measure (\<lambda>(E, d, p, a, e). e - a)") (auto dest: read_record_span_pos)

declare scan_loop.simps [simp del]

definition last_boundary :: "'h JournalRecord list \<Rightarrow> bytes \<Rightarrow> nat \<Rightarrow> nat \<Rightarrow> JournalBoundary" where
  "last_boundary rs journal_id epoch page_size =
     (if rs = [] then empty_boundary journal_id epoch page_size
      else record_boundary (last rs) journal_id epoch)"

definition scan_published ::
  "'h journal_env \<Rightarrow> bytes \<Rightarrow> nat \<Rightarrow> PublicationMarker \<Rightarrow> 'h JournalRecord list res" where
  "scan_published E d page_size m =
     bind_r (scan_loop E d page_size (pm_replay_start m) (jb_end (pm_boundary m))) (\<lambda>rs.
     bind_r (ensure (last_boundary rs (jb_journal_id (pm_boundary m)) 0 page_size = pm_boundary m)
              ''published boundary does not match the final validated journal record'') (\<lambda>_.
       Inr rs))"

section \<open>The publication marker\<close>

definition marker_body :: "PublicationMarker \<Rightarrow> bytes" where
  "marker_body m =
     PUBLICATION_MAGIC @ jb_journal_id (pm_boundary m) @ le64 (pm_generation m) @
     le64 (pm_replay_start m) @ le64 (jb_end (pm_boundary m)) @ le64 (jb_offset (pm_boundary m)) @
     le_bytes 4 (jb_height (pm_boundary m)) @ jb_block_hash (pm_boundary m) @
     jb_checksum (pm_boundary m)"

definition encode_publication_marker :: "'h journal_env \<Rightarrow> PublicationMarker \<Rightarrow> bytes" where
  "encode_publication_marker E m = marker_body m @ e_sha E (marker_body m)"

definition write_publication_marker ::
  "'h journal_env \<Rightarrow> faults \<Rightarrow> nat \<Rightarrow> vfile \<Rightarrow> PublicationMarker \<Rightarrow> vfile \<times> unit res" where
  "write_publication_marker E io k f m =
     bind_s (vf_write io k f (encode_publication_marker E m)
              (pm_generation m mod 2 * PUBLICATION_SLOT_SIZE)) (\<lambda>f _. vf_sync io (k + 1) f)"

definition decode_marker :: "bytes \<Rightarrow> bytes \<Rightarrow> PublicationMarker" where
  "decode_marker bs journal_id =
     \<lparr>pm_generation = rd64 bs 40, pm_replay_start = rd64 bs 48,
      pm_boundary = \<lparr>jb_journal_id = journal_id, jb_epoch = 0, jb_end = rd64 bs 56,
        jb_offset = rd64 bs 64, jb_height = from_le (sub bs 72 76),
        jb_block_hash = sub bs 76 108, jb_checksum = sub bs 108 140\<rparr>\<rparr>"

text \<open>The checks of a slot, and of a marker whose checksum holds.\<close>

definition slot_valid :: "'h journal_env \<Rightarrow> bytes \<Rightarrow> bytes \<Rightarrow> bool" where
  "slot_valid E journal_id bs \<longleftrightarrow>
     sub bs 0 8 = PUBLICATION_MAGIC \<and> sub bs 8 40 = journal_id \<and>
     e_sha E (sub bs 0 140) = sub bs 140 172"

definition marker_shape :: "nat \<Rightarrow> nat \<Rightarrow> PublicationMarker \<Rightarrow> bool" where
  "marker_shape page_size slot m \<longleftrightarrow>
     \<not> (pm_generation m mod 2 \<noteq> slot \<or> pm_replay_start m < page_size \<or>
        pm_replay_start m mod page_size \<noteq> 0 \<or> jb_end (pm_boundary m) < pm_replay_start m \<or>
        jb_end (pm_boundary m) mod page_size \<noteq> 0 \<or>
        (jb_end (pm_boundary m) > page_size \<and>
          (jb_offset (pm_boundary m) < pm_replay_start m \<or>
           jb_offset (pm_boundary m) \<ge> jb_end (pm_boundary m) \<or>
           jb_offset (pm_boundary m) mod page_size \<noteq> 0)))"

definition read_slot :: "'h journal_env \<Rightarrow> bytes \<Rightarrow> bytes \<Rightarrow> nat \<Rightarrow> nat \<Rightarrow> PublicationMarker option res" where
  "read_slot E d journal_id page_size slot =
     (case read_exact_at d 172 (slot * PUBLICATION_SLOT_SIZE) of
        None \<Rightarrow> Inr None
      | Some bs \<Rightarrow>
          if \<not> slot_valid E journal_id bs then Inr None
          else if \<not> marker_shape page_size slot (decode_marker bs journal_id)
          then bail ''invalid checksummed journal publication boundary''
          else Inr (Some (decode_marker bs journal_id)))"

definition read_publication_marker ::
  "'h journal_env \<Rightarrow> bytes \<Rightarrow> bytes \<Rightarrow> nat \<Rightarrow> PublicationMarker res" where
  "read_publication_marker E d journal_id page_size =
     bind_r (read_slot E d journal_id page_size 0) (\<lambda>first.
     bind_r (read_slot E d journal_id page_size 1) (\<lambda>second.
       case (first, second) of
         (Some a, Some b) \<Rightarrow>
           let older = (if pm_generation a < pm_generation b then a else b);
               newer = (if pm_generation a < pm_generation b then b else a)
           in if jb_end (pm_boundary newer) < jb_end (pm_boundary older) \<or>
                 pm_replay_start newer < pm_replay_start older \<or>
                 (jb_end (pm_boundary newer) = jb_end (pm_boundary older) \<and> pm_boundary newer \<noteq> pm_boundary older)
              then bail ''journal publication slots are not monotonic''
              else Inr newer
       | (Some a, None) \<Rightarrow> Inr a
       | (None, Some b) \<Rightarrow> Inr b
       | (None, None) \<Rightarrow> bail ''initialized journal has no valid publication marker''))"

section \<open>The superblock\<close>

definition superblock_bytes :: "'h journal_env \<Rightarrow> nat \<Rightarrow> bytes \<Rightarrow> bytes" where
  "superblock_bytes E page_size journal_id =
     (let body = WAL_MAGIC @ le64 page_size @ journal_id @ replicate 16 0 in body @ e_sha E body)"

definition read_superblock :: "'h journal_env \<Rightarrow> bytes \<Rightarrow> (nat \<times> bytes) res" where
  "read_superblock E d =
     bind_r (ok_or (read_exact_at d 96 0) ''journal initialization header is truncated'') (\<lambda>bs.
     bind_r (ensure (\<not> (sub bs 0 8 \<noteq> WAL_MAGIC \<or> e_sha E (sub bs 0 64) \<noteq> sub bs 64 96))
              ''journal initialization header is corrupt'') (\<lambda>_.
     let page_size = rd64 bs 8 in
     bind_r (ensure (4096 \<le> page_size \<and> page_size \<le> 65536 \<and> (\<exists>k<64. page_size = 2 ^ k))
              ''invalid journal page size'') (\<lambda>_.
       Inr (page_size, sub bs 16 48))))"

section \<open>Reading and writing parts of a file\<close>

definition agree :: "nat \<Rightarrow> nat \<Rightarrow> bytes \<Rightarrow> bytes \<Rightarrow> bool" where
  "agree a b d d' \<longleftrightarrow> sub d a b = sub d' a b"

lemma length_sub [simp]: "length (sub d a b) = min (b - a) (length d - a)"
  by (simp add: sub_def)

lemma sub_sub: "sub (sub d a b) x y = sub d (a + x) (min b (a + y))"
proof -
  have "min (y - x) (b - (a + x)) = min b (a + y) - (a + x)" by linarith
  then show ?thesis by (simp add: sub_def drop_take add.commute diff_diff_left)
qed

lemma sub_join: "a \<le> b \<Longrightarrow> b \<le> c \<Longrightarrow> sub d a b @ sub d b c = sub d a c"
  using take_add [of "b - a" "c - b" "drop a d"] by (simp add: sub_def)

lemma sub_append:
  "b \<le> length x \<Longrightarrow> sub (x @ y) a b = sub x a b"
  "length x \<le> a \<Longrightarrow> sub (x @ y) a b = sub y (a - length x) (b - length x)"
  by (simp_all add: sub_def)

lemma sub_all: "length x \<le> b \<Longrightarrow> sub x 0 b = x"
  by (simp add: sub_def)

lemma nth_sub: "i < b - a \<Longrightarrow> a + i < length d \<Longrightarrow> sub d a b ! i = d ! (a + i)"
  by (simp add: sub_def)

lemma agree_refl [simp]: "agree a b d d" and agree_sym: "agree a b d d' \<Longrightarrow> agree a b d' d"
  and agree_trans: "agree a b d d' \<Longrightarrow> agree a b d' d'' \<Longrightarrow> agree a b d d''"
  by (simp_all add: agree_def)

lemma agreeI_nth:
  assumes "b \<le> length d" and "b \<le> length d'" and "\<And>i. a \<le> i \<Longrightarrow> i < b \<Longrightarrow> d ! i = d' ! i"
  shows "agree a b d d'"
  unfolding agree_def using assms by (intro nth_equalityI) (auto simp: nth_sub)

lemma agree_mono: "agree a b d d' \<Longrightarrow> a \<le> x \<Longrightarrow> y \<le> b \<Longrightarrow> agree x y d d'"
proof (cases "y \<le> x")
  case True
  then show ?thesis by (simp add: agree_def sub_def)
next
  case False
  assume a: "agree a b d d'" "a \<le> x" "y \<le> b"
  then have "sub (sub d a b) (x - a) (y - a) = sub (sub d' a b) (x - a) (y - a)" by (simp add: agree_def)
  moreover have "min b (a + (y - a)) = y" "a + (x - a) = x" using a(2,3) False by auto
  ultimately show ?thesis by (simp add: sub_sub agree_def)
qed

lemma agree_length: "agree a b d d' \<Longrightarrow> b \<le> length d \<Longrightarrow> a < b \<Longrightarrow> b \<le> length d'"
  by (drule arg_cong [of _ _ length, OF agree_def [THEN iffD1]]) auto

lemma read_exact_at_Some: "read_exact_at d n off = Some bs \<longleftrightarrow> off + n \<le> length d \<and> bs = sub d off (off + n)"
  by (auto simp: read_exact_at_def)

lemma read_exact_at_agree:
  assumes "agree a b d d'" and "a \<le> off" and "off + n \<le> b" and "0 < n" and "read_exact_at d n off = Some bs"
  shows "read_exact_at d' n off = Some bs"
proof -
  have g: "agree off (off + n) d d'" using agree_mono [OF assms(1-3)] .
  then have "off + n \<le> length d'" using agree_length [OF g] assms(4,5) by (simp add: read_exact_at_Some)
  then show ?thesis using g assms(5) by (simp add: read_exact_at_Some agree_def)
qed

lemma read_exact_at_sub:
  assumes "read_exact_at d n off = Some bs" and "x + m \<le> n"
  shows "read_exact_at d m (off + x) = Some (sub bs x (x + m))"
  using assms by (auto simp: read_exact_at_Some sub_sub min_def add.assoc)

lemma length_set_len [simp]: "length (set_len_bytes d n) = n"
  by (simp add: set_len_bytes_def)

lemma length_write_at [simp]: "length (write_at d bs off) = (if bs = [] then length d else max (length d) (off + length bs))"
  by (auto simp: write_at_def)

lemma agree_set_len: "b \<le> n \<Longrightarrow> b \<le> length d \<Longrightarrow> agree a b (set_len_bytes d n) d"
  by (rule agreeI_nth) (auto simp: set_len_bytes_def nth_append)

lemma write_at_inside:
  "off + length bs \<le> length d \<Longrightarrow> write_at d bs off = take off d @ bs @ drop (off + length bs) d"
  by (auto simp: write_at_def set_len_bytes_def max_def)

lemma agree_write_before: "b \<le> off \<Longrightarrow> b \<le> length d \<Longrightarrow> agree a b (write_at d bs off) d"
  by (simp add: agree_def sub_def write_at_def set_len_bytes_def drop_take)

lemma agree_write_after:
  "off + length bs \<le> a \<Longrightarrow> off + length bs \<le> length d \<Longrightarrow> agree a b (write_at d bs off) d"
  by (simp add: agree_def sub_def write_at_inside)

lemma read_written:
  "off \<le> length d \<Longrightarrow> bs \<noteq> [] \<Longrightarrow> read_exact_at (write_at d bs off) (length bs) off = Some bs"
  by (simp add: read_exact_at_Some sub_def write_at_def set_len_bytes_def max_def)

lemma crash_image_agree:
  assumes "crash_image f c" and "\<forall>v\<in>set (versions f). agree a b v ref" and "b \<le> length ref"
  shows "agree a b c ref"
proof (cases "a < b")
  case False
  then show ?thesis by (simp add: agree_def sub_def)
next
  case True
  have len: "b \<le> length v" if "v \<in> set (versions f)" for v
    using assms(2,3) that True by (meson agree_length agree_sym)
  then have lc: "b \<le> length c" using assms(1) by (auto simp: crash_image_def)
  have "c ! (a + i) = ref ! (a + i)" if i: "i < b - a" for i
  proof -
    obtain v where v: "v \<in> set (versions f)" "c ! (a + i) = v ! (a + i)"
    proof -
      have "a + i < length c" using i lc by linarith
      then show ?thesis using assms(1) that unfolding crash_image_def by blast
    qed
    have "sub v a b ! i = sub ref a b ! i" using assms(2) v(1) by (simp add: agree_def)
    then show ?thesis using v i len [OF v(1)] assms(3) by (simp add: nth_sub)
  qed
  then show ?thesis
    unfolding agree_def using lc assms(3) by (intro nth_equalityI) (auto simp: nth_sub)
qed

lemma crash_image_synced: "crash_image f c \<Longrightarrow> vf_past f = [] \<Longrightarrow> c = vf_data f"
  by (auto simp: crash_image_def versions_def intro: nth_equalityI)

lemma put_data_simps [simp]:
  "vf_data (put_data f d) = d" "set (versions (put_data f d)) = insert d (set (versions f))"
  "vf_data (synced_file d) = d" "vf_past (synced_file d) = []" "versions (synced_file d) = [d]"
  by (simp_all add: put_data_def versions_def synced_file_def)

lemma vf_data_version [simp]: "vf_data f \<in> set (versions f)"
  by (simp add: versions_def)

lemma bind_s_simps [simp]: "bind_s (s, Inl e) k = (s, Inl e)" "bind_s (s, Inr x) k = k s x"
  by (simp_all add: bind_s_def)

section \<open>The stored image of a record\<close>

lemma length_magics [simp]:
  "length RECORD_MAGIC = 8" "length PRUNED_MAGIC = 8" "length RECORD_TRAILER = 8" "length WAL_MAGIC = 8"
  "length PUBLICATION_MAGIC = 8"
  by (simp_all add: RECORD_MAGIC_def PRUNED_MAGIC_def RECORD_TRAILER_def WAL_MAGIC_def PUBLICATION_MAGIC_def ascii_def)

lemma length_le64 [simp]: "length (le64 n) = 8"
  by (simp add: le64_def)

lemma from_le_le64 [simp]: "n < 2 ^ 64 \<Longrightarrow> unat (from_le (le64 n) :: u64) = n"
  by (simp add: le64_def unat_of_nat_small)

lemma header_fields:
  assumes "length checksum = 32" and "span < 2 ^ 64" and "len < 2 ^ 64"
  shows "length (record_header version status span len checksum) = 64"
    and "sub (record_header version status span len checksum) 0 8 = RECORD_MAGIC"
    and "rd16 (record_header version status span len checksum) 8 = version"
    and "record_header version status span len checksum ! 10 = to_byte status"
    and "rd64 (record_header version status span len checksum) 16 = span"
    and "rd64 (record_header version status span len checksum) 24 = len"
    and "sub (record_header version status span len checksum) 32 64 = checksum"
  using assms
  by (simp_all add: record_header_def sub_def rd16_def rd64_def nth_append)

lemma from_to_byte [simp]: "from_byte (to_byte s) = Inr s"
  by (cases s) (simp_all add: from_byte_def)

definition record_image :: "u16 \<Rightarrow> JournalStatus \<Rightarrow> nat \<Rightarrow> bytes \<Rightarrow> bytes \<Rightarrow> bytes" where
  "record_image version status span checksum payload =
     record_header version status span (length payload) checksum @ payload @ RECORD_TRAILER"

definition valid_version :: "u16 \<Rightarrow> bool" where
  "valid_version v \<longleftrightarrow> v = LEGACY_RECORD_VERSION \<or> v = REPLAY_RECORD_VERSION \<or> v = RECORD_VERSION"

text \<open>The record is in the file, complete and decodable.\<close>

definition stored_as :: "'h journal_env \<Rightarrow> nat \<Rightarrow> u16 \<Rightarrow> bytes \<Rightarrow> bytes \<Rightarrow> 'h JournalRecord \<Rightarrow> bool" where
  "stored_as E page_size version payload d r \<longleftrightarrow>
     valid_version version \<and> length payload \<le> MAX_RECORD_BYTES \<and>
     align_up (64 + length payload + 8) page_size = Some (jr_span r) \<and>
     jr_offset r + jr_span r < 2 ^ 64 \<and> jr_checksum r = e_sha E payload \<and>
     decode_payload E version payload = Inr (jr_entry r, jr_replay r) \<and>
     read_exact_at d (64 + length payload + 8) (jr_offset r) =
       Some (record_image version (jr_status r) (jr_span r) (jr_checksum r) payload)"

definition stored :: "'h journal_env \<Rightarrow> nat \<Rightarrow> bytes \<Rightarrow> 'h JournalRecord \<Rightarrow> bool" where
  "stored E page_size d r \<longleftrightarrow> (\<exists>version payload. stored_as E page_size version payload d r)"

lemma stored_agree:
  assumes "stored E p d r" and "agree a b d d'" and "a \<le> jr_offset r" and "jr_offset r + jr_span r \<le> b"
  shows "stored E p d' r"
proof -
  obtain v w where s: "stored_as E p v w d r" using assms(1) by (auto simp: stored_def)
  then have le: "64 + length w + 8 \<le> jr_span r"
    by (auto simp: stored_as_def dest!: align_up_Some)
  have "read_exact_at d' (64 + length w + 8) (jr_offset r) =
      Some (record_image v (jr_status r) (jr_span r) (jr_checksum r) w)"
    by (rule read_exact_at_agree [OF assms(2,3)]) (use le assms(4) s in \<open>auto simp: stored_as_def\<close>)
  with s show ?thesis unfolding stored_def stored_as_def by blast
qed

lemma stored_header:
  assumes "stored_as E p v w d r" and "env_ok E" and "jr_offset r + jr_span r \<le> end'"
  shows "read_record_header d p (jr_offset r) end' =
           Inr (record_header v (jr_status r) (jr_span r) (length w) (jr_checksum r))"
    and "read_exact_at d (length w) (jr_offset r + 64) = Some w"
proof -
  let ?h = "record_header v (jr_status r) (jr_span r) (length w) (jr_checksum r)"
  have len: "length w < 2 ^ 64" "jr_span r < 2 ^ 64"
    using assms(1) by (auto simp: stored_as_def MAX_RECORD_BYTES_def)
  have c: "length (jr_checksum r) = 32" using assms(1,2) by (simp add: stored_as_def env_ok_def)
  note h = header_fields [OF c len(2,1)]
  have img: "read_exact_at d (64 + length w + 8) (jr_offset r) = Some (?h @ w @ RECORD_TRAILER)"
    using assms(1) by (simp add: stored_as_def record_image_def)
  have "read_exact_at d 64 (jr_offset r) = Some ?h"
    using read_exact_at_sub [OF img, of 0 64] h(1) by (simp add: sub_def)
  moreover have "read_exact_at d 8 (jr_offset r + 64 + length w) = Some RECORD_TRAILER"
    using read_exact_at_sub [OF img, of "64 + length w" 8] h(1) by (simp add: sub_def add.assoc)
  moreover have "valid_version v" using assms(1) by (simp add: stored_as_def)
  moreover have "length w \<le> MAX_RECORD_BYTES" "align_up (64 + length w + 8) p = Some (jr_span r)"
    "jr_offset r + jr_span r < 2 ^ 64"
    using assms(1) by (simp_all add: stored_as_def)
  ultimately show "read_record_header d p (jr_offset r) end' = Inr ?h"
    using assms(3) by (auto simp: read_record_header_def Let_def h valid_version_def)
  show "read_exact_at d (length w) (jr_offset r + 64) = Some w"
    using read_exact_at_sub [OF img, of 64 "length w"] h(1) by (simp add: sub_def)
qed

lemma read_stored_record:
  assumes "stored E p d r" and "env_ok E" and "jr_offset r + jr_span r \<le> end'"
  shows "read_record E d p (jr_offset r) end' = Inr r"
proof -
  obtain v w where s: "stored_as E p v w d r" using assms(1) by (auto simp: stored_def)
  have len: "length w < 2 ^ 64" "jr_span r < 2 ^ 64"
    using s by (auto simp: stored_as_def MAX_RECORD_BYTES_def)
  have c: "length (jr_checksum r) = 32" using s assms(2) by (simp add: stored_as_def env_ok_def)
  have checksum: "jr_checksum r = e_sha E w" using s by (simp add: stored_as_def)
  note h = header_fields [OF c len(2,1)]
  show ?thesis
    using stored_header [OF s assms(2,3)] s
    by (simp add: read_record_def h [unfolded checksum] stored_as_def)
qed

section \<open>A part of the file that no pending write touches\<close>

definition keeps :: "nat \<Rightarrow> nat \<Rightarrow> bytes \<Rightarrow> vfile \<Rightarrow> bool" where
  "keeps a b ref f \<longleftrightarrow> b \<le> length ref \<and> (\<forall>v\<in>set (versions f). b \<le> length v \<and> agree a b v ref)"

lemma keeps_put:
  "keeps a b ref f \<Longrightarrow> b \<le> length d \<Longrightarrow> agree a b d (vf_data f) \<Longrightarrow> keeps a b ref (put_data f d)"
  unfolding keeps_def using agree_trans by fastforce

lemma keeps_data: "keeps a b ref f \<Longrightarrow> b \<le> length (vf_data f) \<and> agree a b (vf_data f) ref"
  by (simp add: keeps_def)

lemma keeps_write:
  "keeps a b ref f \<Longrightarrow> b \<le> off \<Longrightarrow> keeps a b ref (fst (vf_write io k f bs off))"
  by (auto simp: vf_write_def split: option.splits intro!: keeps_put agree_write_before dest: keeps_data)

lemma keeps_set_len:
  "keeps a b ref f \<Longrightarrow> b \<le> n \<Longrightarrow> keeps a b ref (fst (vf_set_len io k f n))"
  by (auto simp: vf_set_len_def split: option.splits intro!: keeps_put agree_set_len dest: keeps_data)

lemma keeps_sync: "keeps a b ref f \<Longrightarrow> keeps a b ref (fst (vf_sync io k f))"
  by (auto simp: vf_sync_def keeps_def split: option.splits)

lemma keeps_bind:
  assumes "keeps a b ref (fst m)" and "\<And>f x. keeps a b ref f \<Longrightarrow> keeps a b ref (fst (k f x))"
  shows "keeps a b ref (fst (bind_s m k))"
  using assms by (cases m; cases "snd m") auto

lemma keeps_crash: "keeps a b ref f \<Longrightarrow> crash_image f c \<Longrightarrow> b \<le> length c \<and> agree a b c ref"
  unfolding keeps_def using crash_image_agree [of f c a b ref] by (auto simp: crash_image_def)

lemma keeps_mono: "keeps a b ref f \<Longrightarrow> a \<le> x \<Longrightarrow> y \<le> b \<Longrightarrow> keeps x y ref f"
  unfolding keeps_def using agree_mono by fastforce

lemma keeps_synced: "b \<le> length d \<Longrightarrow> keeps a b d (synced_file d)"
  by (simp add: keeps_def)

lemmas keeps_intros = keeps_write keeps_set_len keeps_sync keeps_bind

lemma write_record_keeps:
  "keeps a b ref f \<Longrightarrow> b \<le> offset \<Longrightarrow>
   keeps a b ref (fst (write_record E io f p offset entry replay payload version))"
  by (auto simp: write_record_def Let_def split: option.splits intro!: keeps_intros)

section \<open>Writing a record\<close>

lemma write_at_append:
  assumes "off + length a + length b \<le> length d"
  shows "write_at (write_at d a off) b (off + length a) = write_at d (a @ b) off"
proof -
  have "length (take off d @ a @ drop (off + length a) d) = length d" using assms by simp
  then show ?thesis using assms by (simp add: write_at_inside ac_simps)
qed

lemma write_record_stored:
  assumes "write_record E io f p offset entry replay payload version = (g, Inr r)"
    and "env_ok E" and "valid_version version" and "decode_payload E version payload = Inr (entry, replay)"
    and "offset \<le> length (vf_data f)"
  shows "stored E p (vf_data g) r" and "jr_offset r = offset" and "jr_status r = Forward"
    and "length (vf_data g) = offset + jr_span r" and "jr_entry r = entry" and "jr_replay r = replay"
    and "0 < jr_span r" and "jr_span r mod p = 0" and "offset + jr_span r < 2 ^ 64"
proof -
  let ?c = "e_sha E payload"
  obtain span where span: "align_up (64 + length payload + 8) p = Some span" "offset + span < 2 ^ 64"
    and len: "length payload \<le> MAX_RECORD_BYTES"
    using assms(1) by (auto simp: write_record_def not_less split: if_splits option.splits)
  let ?h = "record_header version Forward span (length payload) ?c"
  let ?d1 = "set_len_bytes (vf_data f) (offset + span)"
  let ?d4 = "write_at (write_at (write_at ?d1 ?h offset) payload (offset + 64))
      RECORD_TRAILER (offset + 64 + length payload)"
  have r: "r = \<lparr>jr_entry = entry, jr_status = Forward, jr_replay = replay, jr_offset = offset,
      jr_span = span, jr_checksum = ?c\<rparr>" and g: "vf_data g = ?d4"
    using assms(1) span len
    by (auto simp: write_record_def Let_def vf_write_def vf_set_len_def split: option.splits)
  have h: "length ?h = 64"
    using assms(2) span len by (intro header_fields) (auto simp: env_ok_def MAX_RECORD_BYTES_def)
  note a = align_up_Some [OF span(1)]
  have img: "?d4 = write_at ?d1 (record_image version Forward span ?c payload) offset"
    using write_at_append [of offset ?h payload ?d1] write_at_append [of offset "?h @ payload" RECORD_TRAILER ?d1] a h
    by (simp add: record_image_def add.assoc)
  have il: "length (record_image version Forward span ?c payload) = 64 + length payload + 8"
    using h by (simp add: record_image_def)
  have "read_exact_at ?d4 (64 + length payload + 8) offset = Some (record_image version Forward span ?c payload)"
    unfolding img il [symmetric] by (rule read_written) (use a il in auto)
  then show "stored E p (vf_data g) r"
    unfolding stored_def stored_as_def g r using assms(3,4) span len by auto
  show "length (vf_data g) = offset + jr_span r" unfolding g img r using il a by simp
qed (use assms(1) in \<open>auto simp: write_record_def Let_def vf_write_def vf_set_len_def
       dest!: align_up_Some split: if_splits option.splits\<close>)

lemma write_record_ok:
  assumes "length payload \<le> MAX_RECORD_BYTES" and "0 < p" and "p \<le> 65536" and "offset < 2 ^ 63"
  shows "\<exists>g r. write_record E no_faults f p offset entry replay payload version = (g, Inr r)"
proof -
  have "64 + length payload + 8 + (p - 1) < 2 ^ 64" using assms by (simp add: MAX_RECORD_BYTES_def)
  then obtain span where span: "align_up (64 + length payload + 8) p = Some span"
    using assms(2) by (auto simp: align_up_def)
  have "span < 2 ^ 63" using align_up_Some [OF span] assms by (simp add: MAX_RECORD_BYTES_def)
  then have "offset + span < 2 ^ 64" using assms(4) by simp
  then show ?thesis using assms(1) span
    by (simp add: write_record_def Let_def vf_write_def vf_set_len_def no_faults_def)
qed

section \<open>Rolling a record back\<close>

lemma header_status:
  "(record_header v s span n c)[10 := to_byte t] = record_header v t span n c"
  by (simp add: record_header_def list_update_append)

lemma write_at_byte: "i < length d \<Longrightarrow> write_at d [b] i = d[i := b]"
  by (simp add: write_at_inside upd_conv_take_nth_drop)

lemma sub_update_inside:
  "a \<le> i \<Longrightarrow> i < b \<Longrightarrow> i < length d \<Longrightarrow> sub (d[i := x]) a b = (sub d a b)[i - a := x]"
  by (rule nth_equalityI) (auto simp: nth_sub nth_list_update)

lemma stored_set_status:
  assumes "stored E p d r" and "env_ok E"
  shows "stored E p (d[jr_offset r + STATUS_OFFSET := to_byte t]) (r\<lparr>jr_status := t\<rparr>)"
proof -
  obtain v w where s: "stored_as E p v w d r" using assms(1) by (auto simp: stored_def)
  let ?i = "jr_offset r + STATUS_OFFSET"
  have img: "read_exact_at d (64 + length w + 8) (jr_offset r) =
      Some (record_header v (jr_status r) (jr_span r) (length w) (jr_checksum r) @ w @ RECORD_TRAILER)"
    using s by (simp add: stored_as_def record_image_def)
  have h: "length (record_header v (jr_status r) (jr_span r) (length w) (jr_checksum r)) = 64"
    using s assms(2) by (intro header_fields) (auto simp: stored_as_def env_ok_def MAX_RECORD_BYTES_def)
  let ?old = "record_header v (jr_status r) (jr_span r) (length w) (jr_checksum r) @ w @ RECORD_TRAILER"
  have upd: "?old[10 := to_byte t] = record_header v t (jr_span r) (length w) (jr_checksum r) @ w @ RECORD_TRAILER"
    using h by (simp add: list_update_append header_status)
  have "sub (d[?i := to_byte t]) (jr_offset r) (jr_offset r + (64 + length w + 8)) = ?old[10 := to_byte t]"
    using img by (simp add: read_exact_at_Some STATUS_OFFSET_def sub_update_inside)
  then have "read_exact_at (d[?i := to_byte t]) (64 + length w + 8) (jr_offset r) =
      Some (record_header v t (jr_span r) (length w) (jr_checksum r) @ w @ RECORD_TRAILER)"
    using img unfolding upd by (simp add: read_exact_at_Some)
  then show ?thesis using s unfolding stored_def stored_as_def record_image_def by auto
qed

lemma agree_update: "i < a \<or> b \<le> i \<Longrightarrow> agree a b (d[i := x]) d"
  unfolding agree_def by (rule nth_equalityI) (auto simp: nth_sub nth_list_update)

section \<open>Contiguous records\<close>

fun chain :: "nat \<Rightarrow> 'h JournalRecord list \<Rightarrow> nat \<Rightarrow> bool" where
  "chain a [] b \<longleftrightarrow> a = b"
| "chain a (r # rs) b \<longleftrightarrow> jr_offset r = a \<and> 0 < jr_span r \<and> chain (a + jr_span r) rs b"

lemma chain_le: "chain a rs b \<Longrightarrow> a \<le> b"
  by (induction rs arbitrary: a) force+

lemma chain_append: "chain a (rs @ ss) b \<longleftrightarrow> (\<exists>m. chain a rs m \<and> chain m ss b)"
  by (induction rs arbitrary: a) auto

lemma chain_bounds: "chain a rs b \<Longrightarrow> r \<in> set rs \<Longrightarrow> a \<le> jr_offset r \<and> jr_offset r + jr_span r \<le> b"
proof (induction rs arbitrary: a)
  case (Cons s rs)
  then show ?case using chain_le [of "a + jr_span s" rs b] by fastforce
qed simp

lemma chain_last: "chain a rs b \<Longrightarrow> rs \<noteq> [] \<Longrightarrow> jr_offset (last rs) + jr_span (last rs) = b"
  by (induction rs arbitrary: a) auto

lemma chain_empty: "chain a rs b \<Longrightarrow> rs = [] \<longleftrightarrow> a = b"
  by (cases rs) (auto dest: chain_le)

lemma scan_stored:
  assumes "chain a rs b" and "\<forall>r\<in>set rs. stored E p d r" and "env_ok E"
  shows "scan_loop E d p a b = Inr rs"
  using assms(1,2)
proof (induction rs arbitrary: a)
  case Nil
  then show ?case by (simp add: scan_loop.simps)
next
  case (Cons r rs)
  have b: "a + jr_span r \<le> b" using Cons.prems(1) chain_le by auto
  then have "read_record E d p a b = Inr r"
    using read_stored_record [OF _ assms(3), of p d r b] Cons.prems by simp
  then show ?case using Cons b by (subst scan_loop.simps) simp
qed

section \<open>The marker's slots\<close>

definition wf_boundary :: "JournalBoundary \<Rightarrow> bool" where
  "wf_boundary b \<longleftrightarrow> length (jb_journal_id b) = 32 \<and> jb_end b < 2 ^ 64 \<and> jb_offset b < 2 ^ 64 \<and>
     length (jb_block_hash b) = 32 \<and> length (jb_checksum b) = 32"

definition wf_marker :: "PublicationMarker \<Rightarrow> bool" where
  "wf_marker m \<longleftrightarrow> pm_generation m < 2 ^ 64 \<and> pm_replay_start m < 2 ^ 64 \<and> wf_boundary (pm_boundary m)"

text \<open>The epoch is not stored; a marker read back has epoch 0.\<close>

definition durable :: "PublicationMarker \<Rightarrow> PublicationMarker" where
  "durable m = m\<lparr>pm_boundary := (pm_boundary m)\<lparr>jb_epoch := 0\<rparr>\<rparr>"

lemma durable_simps [simp]:
  "pm_generation (durable m) = pm_generation m" "pm_replay_start (durable m) = pm_replay_start m"
  "jb_end (pm_boundary (durable m)) = jb_end (pm_boundary m)"
  "jb_offset (pm_boundary (durable m)) = jb_offset (pm_boundary m)"
  "jb_journal_id (pm_boundary (durable m)) = jb_journal_id (pm_boundary m)"
  "durable (durable m) = durable m"
  by (simp_all add: durable_def)

lemma marker_encoding:
  assumes "wf_marker m" and "env_ok E"
  shows "length (encode_publication_marker E m) = 172"
    and "slot_valid E (jb_journal_id (pm_boundary m)) (encode_publication_marker E m)"
    and "decode_marker (encode_publication_marker E m) (jb_journal_id (pm_boundary m)) = durable m"
proof -
  have len: "length (e_sha E x) = 32" for x using assms(2) by (simp add: env_ok_def)
  have body: "length (marker_body m) = 140"
    using assms(1) by (simp add: marker_body_def wf_marker_def wf_boundary_def)
  show "length (encode_publication_marker E m) = 172"
    by (simp add: encode_publication_marker_def body len)
  have "sub (marker_body m @ e_sha E (marker_body m)) 0 140 = marker_body m"
    "sub (marker_body m @ e_sha E (marker_body m)) 140 172 = e_sha E (marker_body m)"
    using body len by (simp_all add: sub_def)
  then show "slot_valid E (jb_journal_id (pm_boundary m)) (encode_publication_marker E m)"
    using assms(1) unfolding slot_valid_def encode_publication_marker_def
    by (simp add: marker_body_def sub_def wf_marker_def wf_boundary_def)
  show "decode_marker (encode_publication_marker E m) (jb_journal_id (pm_boundary m)) = durable m"
    using assms(1)
    by (simp add: decode_marker_def encode_publication_marker_def marker_body_def rd64_def sub_def
        wf_marker_def wf_boundary_def durable_def)
qed

definition slot_of :: "bytes \<Rightarrow> nat \<Rightarrow> bytes option" where
  "slot_of d s = read_exact_at d 172 (s * PUBLICATION_SLOT_SIZE)"

text \<open>What a slot may hold next to the slot of the current marker \<open>m\<close>: nothing valid, or an
  older marker that \<open>m\<close> extends.\<close>

definition extends :: "PublicationMarker \<Rightarrow> PublicationMarker \<Rightarrow> bool" where
  "extends m old \<longleftrightarrow>
     pm_generation old < pm_generation m \<and> jb_end (pm_boundary old) \<le> jb_end (pm_boundary m) \<and>
     pm_replay_start old \<le> pm_replay_start m \<and>
     (jb_end (pm_boundary old) = jb_end (pm_boundary m) \<longrightarrow> pm_boundary (durable old) = pm_boundary (durable m))"

definition slot_holds :: "'h journal_env \<Rightarrow> nat \<Rightarrow> bytes \<Rightarrow> PublicationMarker \<Rightarrow> bool" where
  "slot_holds E p d m \<longleftrightarrow>
     wf_marker m \<and> marker_shape p (pm_generation m mod 2) m \<and>
     slot_of d (pm_generation m mod 2) = Some (encode_publication_marker E m)"

definition slot_stale :: "'h journal_env \<Rightarrow> nat \<Rightarrow> bytes \<Rightarrow> PublicationMarker \<Rightarrow> bool" where
  "slot_stale E p d m \<longleftrightarrow>
     (let s = 1 - pm_generation m mod 2; journal_id = jb_journal_id (pm_boundary m) in
      (\<forall>bs. slot_of d s = Some bs \<longrightarrow> \<not> slot_valid E journal_id bs) \<or>
      (\<exists>old. slot_holds E p d old \<and> pm_generation old mod 2 = s \<and>
         jb_journal_id (pm_boundary old) = journal_id \<and> extends m old))"

lemma marker_shape_durable [simp]: "marker_shape p s (durable m) = marker_shape p s m"
  by (simp add: marker_shape_def)

lemma read_slot_holds:
  assumes "slot_holds E p d m" and "env_ok E"
  shows "read_slot E d (jb_journal_id (pm_boundary m)) p (pm_generation m mod 2) = Inr (Some (durable m))"
  using assms marker_encoding [of m E] by (simp add: slot_holds_def slot_of_def read_slot_def)

lemma read_slot_stale:
  assumes "slot_stale E p d m" and "env_ok E"
  shows "read_slot E d (jb_journal_id (pm_boundary m)) p (1 - pm_generation m mod 2) = Inr None \<or>
    (\<exists>old. read_slot E d (jb_journal_id (pm_boundary m)) p (1 - pm_generation m mod 2) = Inr (Some (durable old)) \<and>
       extends m old)"
proof -
  let ?s = "1 - pm_generation m mod 2" and ?id = "jb_journal_id (pm_boundary m)"
  consider "\<forall>bs. slot_of d ?s = Some bs \<longrightarrow> \<not> slot_valid E ?id bs"
    | old where "slot_holds E p d old" "pm_generation old mod 2 = ?s" "jb_journal_id (pm_boundary old) = ?id"
      "extends m old"
    using assms(1) unfolding slot_stale_def Let_def by blast
  then show ?thesis
  proof cases
    case 1
    then show ?thesis by (auto simp: slot_of_def read_slot_def split: option.splits)
  next
    case 2
    then show ?thesis using read_slot_holds [OF 2(1) assms(2)] by metis
  qed
qed

lemma read_current_marker:
  assumes "slot_holds E p d m" and "slot_stale E p d m" and "env_ok E"
  shows "read_publication_marker E d (jb_journal_id (pm_boundary m)) p = Inr (durable m)"
proof -
  note h = read_slot_holds [OF assms(1,3)] and s = read_slot_stale [OF assms(2,3)]
  show ?thesis
  proof (cases "pm_generation m mod 2 = 0")
    case True
    then show ?thesis using h s
      by (auto simp: read_publication_marker_def extends_def Let_def)
  next
    case False
    then have "pm_generation m mod 2 = 1" by presburger
    then show ?thesis using h s
      by (auto simp: read_publication_marker_def extends_def Let_def)
  qed
qed

section \<open>The boundary check\<close>

lemma digest_loop_sub:
  "start + n \<le> length d \<Longrightarrow> k \<le> n \<Longrightarrow> digest_loop d start n k acc = Inr (acc @ sub d (start + k) (start + n))"
proof (induction d start n k acc rule: digest_loop.induct)
  case (1 d start n k acc)
  show ?case
  proof (cases "k < n")
    case False
    then show ?thesis using 1(3) by (subst digest_loop.simps) (simp add: sub_def)
  next
    case True
    define c where "c = min (n - k) (64 * 1024)"
    have c2: "min (n - k) 65536 = c" by (simp add: c_def)
    have c: "k + c \<le> n" "start + k + c \<le> length d" using 1(2) True by (auto simp: c_def)
    then have rd: "read_exact_at d c (start + k) = Some (sub d (start + k) (start + k + c))"
      by (simp add: read_exact_at_Some)
    have "sub d (start + k) (start + k + c) @ sub d (start + (k + c)) (start + n) = sub d (start + k) (start + n)"
      using sub_join [of "start + k" "start + k + c" "start + n" d] c(1) by (simp add: add.assoc)
    then show ?thesis
      using True rd 1(1) [OF True c_def rd 1(2) c(1)]
      by (subst digest_loop.simps) (simp add: c2 Let_def)
  qed
qed

lemma entry_identity:
  assumes "decode_entry bs = Inr e"
  shows "44 \<le> length bs" and "sub bs 0 32 = je_block_hash e" and "from_le (sub bs 40 44) = je_height e"
  using decode_entry_sound [OF assms] by (auto simp: encode_entry_iff wf_entry_def sub_def)

lemma payload_identity:
  assumes "decode_payload E v w = Inr (e, rp)"
  defines "x \<equiv> (if v \<noteq> LEGACY_RECORD_VERSION then 4 else 0)"
  shows "x + 44 \<le> length w \<and> sub w x (x + 32) = je_block_hash e \<and> from_le (sub w (x + 40) (x + 44)) = je_height e"
proof (cases "v = LEGACY_RECORD_VERSION")
  case True
  then show ?thesis using assms entry_identity [of w e] by (auto simp: decode_payload_def)
next
  case False
  then obtain n r where r: "take_u32 w = Inr (n, r)" "unat n \<le> length r" "decode_entry (take (unat n) r) = Inr e"
    using assms(1) by (auto simp: decode_payload_def Let_def split: prod.splits)
  then have "w = le_bytes 4 n @ r" by (simp add: take_u32_iff)
  then show ?thesis using False r(2) entry_identity [OF r(3)]
    by (simp add: x_def sub_def drop_take min_def split: if_splits)
qed

lemma validate_stored:
  assumes "stored E p d r" and "env_ok E"
  shows "validate_boundary E d p (record_boundary r journal_id epoch) = Inr ()"
proof -
  obtain v w where s: "stored_as E p v w d r" using assms(1) by (auto simp: stored_def)
  have len: "length w < 2 ^ 64" "jr_span r < 2 ^ 64"
    using s by (auto simp: stored_as_def MAX_RECORD_BYTES_def)
  have c: "length (jr_checksum r) = 32" using s assms(2) by (simp add: stored_as_def env_ok_def)
  note h = header_fields [OF c len(2,1)]
  note st = stored_header [OF s assms(2) order_refl]
  have w: "jr_offset r + 64 + length w \<le> length d" "sub d (jr_offset r + 64) (jr_offset r + 64 + length w) = w"
    using st(2) by (simp_all add: read_exact_at_Some)
  have dg: "digest_loop d (jr_offset r + 64) (length w) 0 [] = Inr w"
    using digest_loop_sub [OF w(1), of 0 "[]"] w(2) by simp
  define x :: nat where "x = (if v \<noteq> LEGACY_RECORD_VERSION then 4 else 0)"
  have id: "x + 44 \<le> length w" "sub w x (x + 32) = je_block_hash (jr_entry r)"
    "from_le (sub w (x + 40) (x + 44)) = je_height (jr_entry r)"
    using payload_identity [of E v w "jr_entry r" "jr_replay r"] s by (simp_all add: stored_as_def x_def)
  have ide: "read_exact_at d 44 (jr_offset r + 64 + x) = Some (sub w x (x + 44))"
    using read_exact_at_sub [OF st(2), of x 44] id(1) by simp
  have "e_sha E w = jr_checksum r" using s by (simp add: stored_as_def)
  then show ?thesis
    using id ide by (simp add: validate_boundary_def record_boundary_def st(1) h dg x_def [symmetric] sub_sub)
qed

end
