(* ===== verification/Forest_Journal.thy ===== *)
theory Forest_Journal
  imports Journal_File
begin

text \<open>
  The write-ahead journal (\<open>ForestJournal\<close>, \<open>JournalPublisher\<close> and \<open>JournalPrune\<close> in
  \<open>src/src/forest_journal.rs\<close>): opening with recovery and legacy import, appending, publishing,
  discarding, rolling back and pruning. \<open>PublicationState\<close> is shared by the journal and its
  publishers, so its fields are part of the journal's state here.
\<close>

section \<open>State\<close>

record 'h ForestJournal =
  fj_wal :: vfile
  fj_mk :: vfile
  fj_page_size :: nat
  fj_journal_id :: bytes
  fj_records :: "'h JournalRecord list"
  fj_marker :: PublicationMarker
  fj_appended_end :: nat
  fj_published_end :: nat
  fj_epoch :: nat
  fj_poisoned :: bool
  fj_needs_replay :: bool

record JournalPrune =
  pr_replay_start :: nat
  pr_count :: nat

text \<open>The journal's files by the suffix of their name.\<close>

record journal_dir =
  jd_wal :: "vfile option"
  jd_published :: "vfile option"
  jd_initialize :: "vfile option"
  jd_clean :: "bytes option"
  jd_rows :: "bytes option"

definition CLEAN_SHUTDOWN_MARKER :: bytes where
  "CLEAN_SHUTDOWN_MARKER = ascii ''BRJNL-CLEAN-1''"

section \<open>Opening\<close>

definition take_clean_shutdown_marker :: "journal_dir \<Rightarrow> journal_dir \<times> bool" where
  "take_clean_shutdown_marker dir =
     (case jd_clean dir of
        None \<Rightarrow> (dir, False)
      | Some bs \<Rightarrow>
          (dir\<lparr>jd_clean := None\<rparr>,
           length bs = length CLEAN_SHUTDOWN_MARKER \<and> bs = CLEAN_SHUTDOWN_MARKER))"

text \<open>The page size the system reports, as \<open>sysconf\<close> returns it.\<close>

definition page_size :: "int \<Rightarrow> nat" where
  "page_size sysconf = (if sysconf > 0 then nat sysconf else 4096)"

lemma page_size_pos [simp]: "0 < page_size v"
  by (simp add: page_size_def)

function scan_legacy :: "'h journal_env \<Rightarrow> int \<Rightarrow> bytes \<Rightarrow> nat \<Rightarrow> 'h JournalRecord list res" where
  "scan_legacy E sysconf d offset =
     (if offset < length d then
        case read_exact_at d 64 offset of
          None \<Rightarrow> Inr []
        | Some header \<Rightarrow>
            if sub header 0 8 = replicate 8 0 then scan_legacy E sysconf d (offset + page_size sysconf)
            else if sub header 0 8 = PRUNED_MAGIC then
              (if rd64 header 16 = 0 \<or> rd64 header 16 mod page_size sysconf \<noteq> 0 \<or>
                  offset + rd64 header 16 \<ge> 2 ^ 64 \<or> offset + rd64 header 16 > length d
               then Inr []
               else scan_legacy E sysconf d (offset + rd64 header 16))
            else if sub header 0 8 \<noteq> RECORD_MAGIC then
              (if offset = 0 then bail ''unrecognized journal format; refusing legacy import'' else Inr [])
            else if rd16 header 8 \<noteq> LEGACY_RECORD_VERSION then
              bail ''publication record without an initialization header''
            else
              (case read_record E d (page_size sysconf) offset (length d) of
                 Inr r \<Rightarrow> bind_r (scan_legacy E sysconf d (offset + jr_span r)) (\<lambda>rs. Inr (r # rs))
               | Inl e \<Rightarrow>
                   if rd64 header 16 \<noteq> 0 \<and> offset + rd64 header 16 < 2 ^ 64 \<and> offset + rd64 header 16 < length d
                   then Inl e else Inr [])
      else Inr [])"
  by pat_completeness auto
termination
  by (relation "measure (\<lambda>(E, v, d, a). length d - a)")
    (auto dest: read_record_span_pos intro: diff_less_mono2)

declare scan_legacy.simps [simp del]

text \<open>One imported record: its bytes, and the status of a rolled-back one.\<close>

definition import_record ::
  "'h journal_env \<Rightarrow> nat \<Rightarrow> bytes \<Rightarrow> vfile \<times> JournalBoundary \<Rightarrow> 'h JournalRecord \<Rightarrow> (vfile \<times> JournalBoundary) res" where
  "import_record E page journal_id st legacy =
     (case st of (f, b) \<Rightarrow>
        bind_r (encode_entry (jr_entry legacy)) (\<lambda>payload.
        case write_record E no_faults f page (jb_end b) (jr_entry legacy) None payload LEGACY_RECORD_VERSION of
          (f, Inl e) \<Rightarrow> Inl e
        | (f, Inr r) \<Rightarrow>
            Inr (if jr_status legacy = RolledBack
                 then fst (vf_write no_faults 0 f [to_byte RolledBack] (jr_offset r + STATUS_OFFSET))
                 else f,
                 record_boundary r journal_id 0)))"

text \<open>\<open>journal_id\<close> is what \<open>/dev/urandom\<close> returns. Every file is synced before it is renamed.\<close>

definition initialize_journal ::
  "'h journal_env \<Rightarrow> int \<Rightarrow> bytes \<Rightarrow> journal_dir \<Rightarrow> bytes \<Rightarrow> journal_dir res" where
  "initialize_journal E sysconf journal_id dir legacy =
     (let page = page_size sysconf in
      bind_r (scan_legacy E sysconf legacy 0) (\<lambda>legacy_records.
      let temporary = write_at (set_len_bytes [] page) (superblock_bytes E page journal_id) 0 in
      bind_r (fold_r (import_record E page journal_id)
                (synced_file temporary, empty_boundary journal_id 0 page) legacy_records) (\<lambda>(f, b).
      let m = (\<lambda>g. \<lparr>pm_generation = g, pm_replay_start = page, pm_boundary = b\<rparr>);
          mk0 = synced_file (set_len_bytes [] (PUBLICATION_SLOT_SIZE * 2));
          mk1 = fst (write_publication_marker E no_faults 0 mk0 (m 0));
          mk2 = fst (write_publication_marker E no_faults 0 mk1 (m 1))
      in Inr (dir\<lparr>jd_wal := Some (synced_file (vf_data f)), jd_published := Some mk2,
                  jd_initialize := None\<rparr>))))"

text \<open>A missing journal file is created empty.\<close>

definition ForestJournal_open ::
  "'h journal_env \<Rightarrow> int \<Rightarrow> bytes \<Rightarrow> journal_dir \<Rightarrow> (journal_dir \<times> 'h ForestJournal) res" where
  "ForestJournal_open E sysconf fresh_id dir =
     (let (dir, clean) = take_clean_shutdown_marker dir;
          file = (case jd_wal dir of Some f \<Rightarrow> f | None \<Rightarrow> synced_file [])
      in
      bind_r (if read_exact_at (vf_data file) 8 0 = Some WAL_MAGIC
              then Inr (dir\<lparr>jd_wal := Some file\<rparr>)
              else if jd_published dir \<noteq> None \<and> jd_initialize dir = None
              then bail ''publication journal is missing its initialization header''
              else initialize_journal E sysconf fresh_id dir (vf_data file)) (\<lambda>dir.
      bind_r (ok_or (jd_wal dir) ''open'') (\<lambda>file.
      bind_r (read_superblock E (vf_data file)) (\<lambda>(page, journal_id).
      bind_r (ok_or (jd_published dir) ''initialized journal is missing its publication marker'') (\<lambda>marker_file.
      bind_r (read_publication_marker E (vf_data marker_file) journal_id page) (\<lambda>marker.
      bind_r (ensure (\<not> length (vf_data file) < jb_end (pm_boundary marker))
               ''published journal data is truncated'') (\<lambda>_.
      bind_r (scan_published E (vf_data file) page marker) (\<lambda>records.
      let e = jb_end (pm_boundary marker);
          file = (if length (vf_data file) \<noteq> e then put_data file (set_len_bytes (vf_data file) e) else file)
      in Inr (dir\<lparr>jd_wal := Some file\<rparr>,
            \<lparr>fj_wal = file, fj_mk = marker_file, fj_page_size = page, fj_journal_id = journal_id,
             fj_records = records, fj_marker = marker, fj_appended_end = e, fj_published_end = e,
             fj_epoch = 0, fj_poisoned = False, fj_needs_replay = \<not> clean\<rparr>)))))))))"

section \<open>Reading\<close>

text \<open>\<open>partition_point\<close> on records in file order: the longest prefix that ends by \<open>e\<close>.\<close>

definition records_upto :: "nat \<Rightarrow> 'h JournalRecord list \<Rightarrow> 'h JournalRecord list" where
  "records_upto e rs = takeWhile (\<lambda>r. jr_offset r + jr_span r \<le> e) rs"

definition records :: "'h ForestJournal \<Rightarrow> 'h JournalRecord list" where
  "records j = records_upto (fj_published_end j) (fj_records j)"

fun rfind :: "(nat \<Rightarrow> 'a \<Rightarrow> bool) \<Rightarrow> 'a list \<Rightarrow> nat \<Rightarrow> (nat \<times> 'a) option" where
  "rfind P xs 0 = None"
| "rfind P xs (Suc i) = (if P i (xs ! i) then Some (i, xs ! i) else rfind P xs i)"

definition latest_forward :: "'h ForestJournal \<Rightarrow> (nat \<times> 'h JournalRecord) option" where
  "latest_forward j = rfind (\<lambda>_ r. jr_status r = Forward) (records j) (length (records j))"

definition boundary :: "'h ForestJournal \<Rightarrow> JournalBoundary" where
  "boundary j = last_boundary (fj_records j) (fj_journal_id j) (fj_epoch j) (fj_page_size j)"

definition binding_bytes :: "'h journal_env \<Rightarrow> bytes \<Rightarrow> u8 \<Rightarrow> bytes" where
  "binding_bytes E journal_id rows = (journal_id @ [rows]) @ e_sha E (journal_id @ [rows])"

definition bind_legacy_forest_rows ::
  "'h journal_env \<Rightarrow> journal_dir \<Rightarrow> 'h ForestJournal \<Rightarrow> u8 \<Rightarrow> (journal_dir \<times> 'h ForestJournal) res" where
  "bind_legacy_forest_rows E dir j rows =
     (if rows > 63 then bail ''invalid legacy forest rows''
      else if \<not> list_ex (\<lambda>r. je_forest_rows (jr_entry r) = None) (fj_records j) then Inr (dir, j)
      else
        bind_r (case jd_rows dir of
            Some bs \<Rightarrow>
              bind_r (ensure (length bs = 65) ''invalid legacy forest layout binding length'') (\<lambda>_.
              bind_r (ensure (\<not> (take 32 bs \<noteq> fj_journal_id j \<or> bs ! 32 > 63 \<or> e_sha E (take 33 bs) \<noteq> drop 33 bs))
                       ''invalid legacy forest layout binding'') (\<lambda>_. Inr (dir, bs ! 32)))
          | None \<Rightarrow> Inr (dir\<lparr>jd_rows := Some (binding_bytes E (fj_journal_id j) rows)\<rparr>, rows)) (\<lambda>(dir, rows).
        Inr (dir, j\<lparr>fj_records := map (\<lambda>r.
               if je_forest_rows (jr_entry r) = None
               then r\<lparr>jr_entry := (jr_entry r)\<lparr>je_forest_rows := Some rows\<rparr>\<rparr> else r) (fj_records j)\<rparr>)))"

definition mark_clean_shutdown :: "journal_dir \<Rightarrow> 'h ForestJournal \<Rightarrow> journal_dir res" where
  "mark_clean_shutdown dir j =
     (if fj_poisoned j then bail ''cannot mark a failed publication clean; reopen the journal''
      else if fj_appended_end j \<noteq> fj_published_end j then bail ''cannot mark an unpublished journal tail clean''
      else Inr (dir\<lparr>jd_clean := Some CLEAN_SHUTDOWN_MARKER\<rparr>))"

section \<open>Appending\<close>

definition append_payload ::
  "'h journal_env \<Rightarrow> faults \<Rightarrow> 'h ForestJournal \<Rightarrow> JournalEntry \<Rightarrow> 'h JournalReplayPayload option \<Rightarrow> bytes \<Rightarrow>
   u16 \<Rightarrow> 'h ForestJournal \<times> nat res" where
  "append_payload E io j entry replay payload version =
     (if fj_poisoned j then (j, bail ''journal publication failed; reopen before appending'')
      else
        let offset = fj_appended_end j in
        case write_record E io (fj_wal j) (fj_page_size j) offset entry replay payload version of
          (f, Inl e) \<Rightarrow>
            (case vf_set_len io 4 f offset of
               (f, Inl _) \<Rightarrow> (j\<lparr>fj_wal := f, fj_poisoned := True\<rparr>, Inl e)
             | (f, Inr _) \<Rightarrow> (j\<lparr>fj_wal := f\<rparr>, Inl e))
        | (f, Inr r) \<Rightarrow>
            (j\<lparr>fj_wal := f, fj_records := fj_records j @ [r],
               fj_appended_end := jr_offset r + jr_span r, fj_needs_replay := True\<rparr>,
             Inr (length (fj_records j))))"

definition replay_payload ::
  "'h journal_env \<Rightarrow> JournalEntry \<Rightarrow> 'h JournalReplayPayload \<Rightarrow> bytes res" where
  "replay_payload E entry replay =
     bind_r (encode_entry entry) (\<lambda>bs.
     bind_r (ensure (length bs < 2 ^ 32) ''journal entry exceeds u32'') (\<lambda>_.
       Inr (le_bytes 4 (of_nat (length bs) :: u32) @ bs @ h_enc (e_hdr E) (rp_header replay) @
            [rp_proof_forest_rows replay] @ fst (CompactBlockProof_encode (e_cons E) (rp_proof replay)))))"

definition append_block ::
  "'h journal_env \<Rightarrow> faults \<Rightarrow> 'h ForestJournal \<Rightarrow> JournalEntry \<Rightarrow> 'h \<Rightarrow> CompactBlockProof \<Rightarrow> u8 \<Rightarrow>
   'h ForestJournal \<times> JournalBoundary res" where
  "append_block E io j entry header proof proof_forest_rows =
     (if je_forest_rows entry = None \<or> proof_forest_rows > 63
      then (j, bail ''journal replay requires valid physical and proof forest layouts'')
      else if \<not> header_matches E header entry
      then (j, bail ''journal replay header does not match its forest entry'')
      else
        let replay = \<lparr>rp_header = header, rp_proof = proof, rp_proof_forest_rows = proof_forest_rows\<rparr> in
        case replay_payload E entry replay of
          Inl e \<Rightarrow> (j, Inl e)
        | Inr payload \<Rightarrow>
            bind_s (append_payload E io j entry (Some replay) payload RECORD_VERSION)
              (\<lambda>j _. (j, Inr (boundary j))))"

section \<open>Publishing\<close>

text \<open>The checks before any write; \<open>True\<close> when the boundary is already durable.\<close>

definition publish_check :: "'h journal_env \<Rightarrow> 'h ForestJournal \<Rightarrow> JournalBoundary \<Rightarrow> bool res" where
  "publish_check E j b =
     (if fj_poisoned j then bail ''journal publication previously failed; reopen the journal''
      else if jb_journal_id b \<noteq> fj_journal_id j \<or> jb_epoch b \<noteq> fj_epoch j \<or>
              jb_end b < jb_end (pm_boundary (fj_marker j)) \<or> jb_end b > fj_appended_end j
      then bail ''stale or invalid journal publication boundary''
      else if jb_end b = jb_end (pm_boundary (fj_marker j))
      then (if (pm_boundary (fj_marker j))\<lparr>jb_epoch := jb_epoch b\<rparr> \<noteq> b
            then bail ''journal publication boundary conflicts with the durable record''
            else Inr True)
      else bind_r (validate_boundary E (vf_data (fj_wal j)) (fj_page_size j) b) (\<lambda>_. Inr False))"

definition publish_flush :: "faults \<Rightarrow> 'h ForestJournal \<Rightarrow> 'h ForestJournal \<times> unit res" where
  "publish_flush io j = (let (f, r) = vf_sync io 0 (fj_wal j) in (j\<lparr>fj_wal := f\<rparr>, r))"

definition next_marker :: "'h ForestJournal \<Rightarrow> JournalBoundary \<Rightarrow> PublicationMarker" where
  "next_marker j b = \<lparr>pm_generation = pm_generation (fj_marker j) + 1,
     pm_replay_start = pm_replay_start (fj_marker j), pm_boundary = b\<rparr>"

definition publish_mark ::
  "'h journal_env \<Rightarrow> faults \<Rightarrow> 'h ForestJournal \<Rightarrow> JournalBoundary \<Rightarrow> 'h ForestJournal \<times> unit res" where
  "publish_mark E io j b =
     (if pm_generation (fj_marker j) + 1 \<ge> 2 ^ 64 then (j, bail ''publication generation overflow'')
      else case write_publication_marker E io 1 (fj_mk j) (next_marker j b) of
        (f, Inl e) \<Rightarrow> (j\<lparr>fj_mk := f\<rparr>, Inl e)
      | (f, Inr _) \<Rightarrow>
          (j\<lparr>fj_mk := f, fj_marker := next_marker j b, fj_published_end := jb_end b\<rparr>, Inr ()))"

definition poison_on_error :: "'h ForestJournal \<times> 'a res \<Rightarrow> 'h ForestJournal \<times> 'a res" where
  "poison_on_error m = (case m of (j, Inl e) \<Rightarrow> (j\<lparr>fj_poisoned := True\<rparr>, Inl e) | (j, Inr x) \<Rightarrow> (j, Inr x))"

definition publish ::
  "'h journal_env \<Rightarrow> faults \<Rightarrow> 'h ForestJournal \<Rightarrow> JournalBoundary \<Rightarrow> 'h ForestJournal \<times> unit res" where
  "publish E io j b =
     (case publish_check E j b of
        Inl e \<Rightarrow> (j, Inl e)
      | Inr True \<Rightarrow> (j, Inr ())
      | Inr False \<Rightarrow> poison_on_error (bind_s (publish_flush io j) (\<lambda>j _. publish_mark E io j b)))"

section \<open>Discarding, rolling back and pruning\<close>

definition discard_unpublished :: "faults \<Rightarrow> 'h ForestJournal \<Rightarrow> 'h ForestJournal \<times> unit res" where
  "discard_unpublished io j =
     (if fj_poisoned j then (j, bail ''cannot discard after a failed publication; reopen the journal'')
      else
        let e = jb_end (pm_boundary (fj_marker j)) in
        case vf_set_len io 0 (fj_wal j) e of
          (f, Inl err) \<Rightarrow> (j\<lparr>fj_wal := f\<rparr>, Inl err)
        | (f, Inr _) \<Rightarrow>
            (j\<lparr>fj_wal := f, fj_records := records_upto e (fj_records j), fj_appended_end := e,
               fj_epoch := (fj_epoch j + 1) mod 2 ^ 64\<rparr>, Inr ()))"

definition mark_rolled_back :: "faults \<Rightarrow> 'h ForestJournal \<Rightarrow> nat \<Rightarrow> 'h ForestJournal \<times> unit res" where
  "mark_rolled_back io j index =
     (if fj_poisoned j then (j, bail ''cannot roll back after a failed publication; reopen the journal'')
      else if fj_appended_end j \<noteq> fj_published_end j
      then (j, bail ''discard unpublished entries before rolling back'')
      else if index \<ge> length (records j) then (j, bail ''journal record index is not published'')
      else
        let r = fj_records j ! index in
        case bind_s (vf_write io 0 (fj_wal j) [to_byte RolledBack] (jr_offset r + STATUS_OFFSET))
               (\<lambda>f _. vf_sync io 1 f) of
          (f, Inl e) \<Rightarrow> (j\<lparr>fj_wal := f, fj_poisoned := True\<rparr>, Inl e)
        | (f, Inr _) \<Rightarrow>
            (j\<lparr>fj_wal := f, fj_records := (fj_records j)[index := r\<lparr>jr_status := RolledBack\<rparr>],
               fj_needs_replay := True\<rparr>, Inr ()))"

text \<open>The loop over the published records from the newest: the index of the \<open>keep\<close>-th forward
  record, or 0.\<close>

fun prune_count :: "'h JournalRecord list \<Rightarrow> nat \<Rightarrow> nat \<Rightarrow> nat \<Rightarrow> nat" where
  "prune_count rs keep 0 forward = 0"
| "prune_count rs keep (Suc i) forward =
     (if jr_status (rs ! i) = Forward
      then if forward + 1 \<ge> max keep 1 then i else prune_count rs keep i (forward + 1)
      else prune_count rs keep i forward)"

definition prepare_prune :: "'h ForestJournal \<Rightarrow> nat \<Rightarrow> 'h ForestJournal \<times> JournalPrune option res" where
  "prepare_prune j keep =
     (if fj_poisoned j then (j, bail ''cannot prepare pruning after a failed publication; reopen the journal'')
      else
        let rs = records j; count = prune_count rs keep (length rs) 0 in
        if count = 0 then (j, Inr None)
        else (j\<lparr>fj_records := drop count (fj_records j)\<rparr>,
              Inr (Some \<lparr>pr_replay_start = jr_offset (rs ! count), pr_count = count\<rparr>)))"

definition advance_marker ::
  "'h journal_env \<Rightarrow> faults \<Rightarrow> nat \<Rightarrow> 'h ForestJournal \<Rightarrow> nat \<Rightarrow> 'h ForestJournal \<times> unit res" where
  "advance_marker E io k j replay_start =
     (if pm_generation (fj_marker j) + 1 \<ge> 2 ^ 64 then (j, bail ''publication generation overflow'')
      else
        let m = (fj_marker j)\<lparr>pm_generation := pm_generation (fj_marker j) + 1, pm_replay_start := replay_start\<rparr> in
        case write_publication_marker E io k (fj_mk j) m of
          (f, Inl e) \<Rightarrow> (j\<lparr>fj_mk := f, fj_poisoned := True\<rparr>, Inl e)
        | (f, Inr _) \<Rightarrow> (j\<lparr>fj_mk := f, fj_marker := m\<rparr>, Inr ()))"

text \<open>Punching a hole zeroes the range. \<open>Some 0\<close> is a file system that does not support it.\<close>

definition punch_hole :: "faults \<Rightarrow> nat \<Rightarrow> 'h ForestJournal \<Rightarrow> nat \<Rightarrow> nat \<Rightarrow> 'h ForestJournal \<times> unit res" where
  "punch_hole io k j a b =
     (case io k of
        None \<Rightarrow> (j\<lparr>fj_wal := put_data (fj_wal j) (write_at (vf_data (fj_wal j)) (replicate (b - a) 0) a)\<rparr>, Inr ())
      | Some 0 \<Rightarrow> (j, Inr ())
      | Some _ \<Rightarrow> (j, Inl (IoError ''failed to reclaim pruned journal pages'')))"

definition prune_finish :: "'h journal_env \<Rightarrow> faults \<Rightarrow> 'h ForestJournal \<Rightarrow> JournalPrune \<Rightarrow> 'h ForestJournal \<times> nat res" where
  "prune_finish E io j p =
     (if fj_poisoned j then (j, bail ''cannot prune after a failed publication; reopen the journal'')
      else if pr_replay_start p \<le> pm_replay_start (fj_marker j) then (j, Inr (pr_count p))
      else if pr_replay_start p > jb_offset (pm_boundary (fj_marker j))
      then (j, bail ''pruning would discard the published boundary record'')
      else
        let old_start = pm_replay_start (fj_marker j) in
        bind_s (advance_marker E io 0 j (pr_replay_start p)) (\<lambda>j _.
        bind_s (advance_marker E io 2 j (pr_replay_start p)) (\<lambda>j _.
        bind_s (punch_hole io 4 j old_start (pr_replay_start p)) (\<lambda>j _.
          (j, Inr (pr_count p))))))"

end
