(* ===== verification/Steady_Forest.thy ===== *)
theory Steady_Forest
  imports Flat_Forest Forest_Journal "HOL-Library.AList" "HOL-Library.List_Lexorder" "HOL-Library.Product_Lexorder"
begin

text \<open>
  The steady-state forest of \<open>src/src/parallel_forest.rs\<close>: the leaf map interface, the overlay of
  mutations that are not yet durable, reads through it, planning a block's update, applying and
  undoing journal entries, and replaying the journal after an interrupted run.
\<close>

section \<open>External code\<close>

text \<open>
  \<open>rustreexo\<close> hashes two children to their parent; \<open>floresta-db\<close> stores the leaf map. Its
  contents are seen through \<open>db_view\<close>. \<open>put_batch\<close> appends without looking for an earlier value
  of a key, so its effect is known only for new, distinct keys; a lookup of a key stored
  twice is not specified.
\<close>

record 'd forest_env =
  fe_parent_hash :: "bytes \<Rightarrow> bytes \<Rightarrow> bytes"
  fe_empty_hash :: bytes
  fe_sha :: "bytes \<Rightarrow> bytes"
  db_open_runtime :: "'d \<Rightarrow> 'd res"
  db_fetch :: "'d \<Rightarrow> bytes list \<Rightarrow> bytes option list res"
  db_put :: "'d \<Rightarrow> bytes \<Rightarrow> bytes \<Rightarrow> 'd res"
  db_delete :: "'d \<Rightarrow> bytes list \<Rightarrow> 'd res"
  db_put_batch :: "'d \<Rightarrow> (bytes \<times> bytes) list \<Rightarrow> 'd res"
  db_compact :: "'d \<Rightarrow> u16 \<Rightarrow> 'd res"
  db_sync :: "'d \<Rightarrow> 'd res"
  db_view :: "'d \<Rightarrow> bytes \<Rightarrow> bytes option"

definition db_ok :: "'d forest_env \<Rightarrow> bool" where
  "db_ok E \<longleftrightarrow>
     (\<forall>d ks. db_fetch E d ks = Inr (map (db_view E d) ks)) \<and>
     (\<forall>d ks. \<exists>d'. db_delete E d ks = Inr d' \<and> (\<forall>k. db_view E d' k = (if k \<in> set ks then None else db_view E d k))) \<and>
     (\<forall>d kvs. distinct (map fst kvs) \<longrightarrow> (\<forall>k\<in>fst ` set kvs. db_view E d k = None) \<longrightarrow>
        (\<exists>d'. db_put_batch E d kvs = Inr d' \<and>
          (\<forall>k. db_view E d' k = (case map_of kvs k of Some v \<Rightarrow> Some v | None \<Rightarrow> db_view E d k)))) \<and>
     (\<forall>d n. \<exists>d'. db_compact E d n = Inr d' \<and> db_view E d' = db_view E d) \<and>
     (\<forall>d. \<exists>d'. db_sync E d = Inr d' \<and> db_view E d' = db_view E d)"

text \<open>Opening the runtime handle and replacing one value.\<close>

definition db_opens :: "'d forest_env \<Rightarrow> bool" where
  "db_opens E \<longleftrightarrow> (\<forall>d. \<exists>d'. db_open_runtime E d = Inr d' \<and> db_view E d' = db_view E d)"

definition db_puts :: "'d forest_env \<Rightarrow> bool" where
  "db_puts E \<longleftrightarrow> (\<forall>d k v. \<exists>d'. db_put E d k v = Inr d' \<and> db_view E d' = (db_view E d)(k \<mapsto> v))"

section \<open>Nodes\<close>

definition combine_children :: "'d forest_env \<Rightarrow> ForestNodeData \<Rightarrow> ForestNodeData \<Rightarrow> ForestNodeData" where
  "combine_children E left right =
     (if nd_spent left \<and> nd_spent right then \<lparr>nd_hash = replicate 32 0, nd_spent = True\<rparr>
      else if nd_spent left then right
      else if nd_spent right then left
      else \<lparr>nd_hash = fe_parent_hash E (nd_hash left) (nd_hash right), nd_spent = False\<rparr>)"

definition accumulator_hash :: "'d forest_env \<Rightarrow> ForestNodeData \<Rightarrow> bytes" where
  "accumulator_hash E n = (if nd_spent n then fe_empty_hash E else nd_hash n)"

section \<open>State\<close>

record 'd SteadyStateForest =
  sf_forest :: FlatForest
  sf_map :: 'd
  sf_leaves :: u64
  sf_rows :: nat

record ForestOverlay =
  ov_nodes :: "u64 \<Rightarrow> JournalNodeState option"
  ov_heights :: "u64 \<Rightarrow> u32 option"
  ov_positions :: "OutPoint \<Rightarrow> (u32 \<times> u64 option) option"

definition empty_overlay :: ForestOverlay where
  "empty_overlay = \<lparr>ov_nodes = Map.empty, ov_heights = Map.empty, ov_positions = Map.empty\<rparr>"

definition push :: "ForestOverlay \<Rightarrow> JournalEntry \<Rightarrow> ForestOverlay" where
  "push ov e =
     \<lparr>ov_nodes = fold (\<lambda>d m. m(fd_position d \<mapsto> fd_after d)) (je_forest e) (ov_nodes ov),
      ov_heights = fold (\<lambda>d m. m(fd_position d \<mapsto> je_height e)) (je_forest e) (ov_heights ov),
      ov_positions =
        fold (\<lambda>d m. m(ix_outpoint d \<mapsto> (je_height e, Some (ix_position d)))) (je_added e)
          (fold (\<lambda>d m. m(ix_outpoint d \<mapsto> (je_height e, None))) (je_removed e) (ov_positions ov))\<rparr>"

definition retire_node :: "u32 \<Rightarrow> JournalForestDelta \<Rightarrow> ForestOverlay \<Rightarrow> ForestOverlay" where
  "retire_node height d ov =
     (if ov_heights ov (fd_position d) = Some height
      then ov\<lparr>ov_nodes := (ov_nodes ov)(fd_position d := None), ov_heights := (ov_heights ov)(fd_position d := None)\<rparr>
      else ov)"

definition retire_position :: "u32 \<Rightarrow> JournalIndexDelta \<Rightarrow> ForestOverlay \<Rightarrow> ForestOverlay" where
  "retire_position height d ov =
     (case ov_positions ov (ix_outpoint d) of
        Some (h, _) \<Rightarrow> if h = height then ov\<lparr>ov_positions := (ov_positions ov)(ix_outpoint d := None)\<rparr> else ov
      | None \<Rightarrow> ov)"

definition retire :: "ForestOverlay \<Rightarrow> JournalEntry \<Rightarrow> ForestOverlay" where
  "retire ov e =
     fold (retire_position (je_height e)) (je_removed e @ je_added e)
       (fold (retire_node (je_height e)) (je_forest e) ov)"

section \<open>Opening\<close>

text \<open>The binary search for the first uninitialized leaf.\<close>

function count_leaves :: "FlatForest \<Rightarrow> u64 \<Rightarrow> u64 \<Rightarrow> u64 res" where
  "count_leaves f first end' =
     (if first < end' then
        let middle = first + (end' - first) div 2
        in bind_r (try_read f middle) (\<lambda>n.
             if n \<noteq> None then count_leaves f (middle + 1) end' else count_leaves f first middle)
      else Inr first)"
  by pat_completeness auto

lemma half_word: "first < end' \<Longrightarrow> unat (first + (end' - first) div 2) = unat first + (unat end' - unat first) div 2"
  for first :: u64
proof -
  assume a: "first < end'"
  then have lt: "unat first < unat end'" by (simp add: word_less_nat_alt)
  have "unat ((end' - first) div 2) = (unat end' - unat first) div 2"
    using a by (simp add: unat_div unat_sub)
  moreover have "unat first + (unat end' - unat first) div 2 < 2 ^ 64"
    using lt unsigned_less [of end', where 'a = nat] by simp
  ultimately show ?thesis by (simp add: unat_word_ariths)
qed

lemma half_word_less: "first < end' \<Longrightarrow> first + (end' - first) div 2 < end'" for first :: u64
  by (simp add: word_less_nat_alt half_word)

lemma unat_plus_one: "x < y \<Longrightarrow> unat (x + 1) = unat x + 1" for x y :: u64
proof -
  assume "x < y"
  then have "unat x + 1 < 2 ^ 64" using unsigned_less [of y, where 'a = nat] by (simp add: word_less_nat_alt)
  then show ?thesis by (simp add: unat_word_ariths)
qed

termination count_leaves
proof (relation "measure (\<lambda>(f, first, end'). unat end' - unat first)")
  show "wf (measure (\<lambda>(f, first, end'). unat end' - unat first))" by simp
next
  fix f first end' x and xa :: "ForestNodeData option"
  assume a: "first < (end' :: u64)" "x = first + (end' - first) div 2"
  then show "((f, x + 1, end'), f, first, end') \<in> measure (\<lambda>(f, first, end'). unat end' - unat first)"
    using half_word [OF a(1)] half_word_less [OF a(1)] unat_plus_one [of x end']
    by (simp add: word_less_nat_alt) linarith
next
  fix f first end' x and xa :: "ForestNodeData option"
  assume a: "first < (end' :: u64)" "x = first + (end' - first) div 2"
  then show "((f, first, x), f, first, end') \<in> measure (\<lambda>(f, first, end'). unat end' - unat first)"
    using half_word [OF a(1)] half_word_less [OF a(1)] by (simp add: word_less_nat_alt)
qed

text \<open>\<open>1u64.checked_shl(rows)\<close>.\<close>

definition checked_shl_one :: "nat \<Rightarrow> u64 option" where
  "checked_shl_one rows = (if rows < 64 then Some (push_bit rows 1) else None)"

definition SteadyStateForest_open :: "'d forest_env \<Rightarrow> nat \<Rightarrow> FlatForest \<Rightarrow> 'd \<Rightarrow> 'd SteadyStateForest res" where
  "SteadyStateForest_open E byte_len f leaf_map =
     bind_r (FlatForest_open byte_len f) (\<lambda>forest.
     bind_r (forest_rows_from_node_count (node_count forest)) (\<lambda>rows.
     bind_r (ok_or (checked_shl_one rows) ''forest bottom capacity overflow'') (\<lambda>bottom_capacity.
     bind_r (count_leaves forest 0 bottom_capacity) (\<lambda>first.
     if first = 0 then bail ''flat forest has no initialized leaves''
     else bind_r (db_open_runtime E leaf_map) (\<lambda>leaf_map.
       Inr \<lparr>sf_forest = forest, sf_map = leaf_map, sf_leaves = first, sf_rows = rows\<rparr>)))))"

definition leaf_capacity :: "'d SteadyStateForest \<Rightarrow> u64 res" where
  "leaf_capacity s = ok_or (checked_shl_one (sf_rows s)) ''forest bottom capacity overflow''"

definition ensure_leaf_capacity :: "'d SteadyStateForest \<Rightarrow> u64 \<Rightarrow> ('d SteadyStateForest \<times> bool) res" where
  "ensure_leaf_capacity s required =
     bind_r (leaf_capacity s) (\<lambda>current.
     if required \<le> current then Inr (s, False)
     else
       bind_r (ok_or (checked_shl_one (tree_rows required)) ''resized forest bottom capacity overflow'') (\<lambda>_.
       bind_r (resize_to_rows (sf_forest s) (tree_rows required)) (\<lambda>forest.
         Inr (s\<lparr>sf_forest := forest, sf_rows := tree_rows required\<rparr>, True))))"

text \<open>The layout of a legacy journal, before opening the forest finishes an interrupted resize.\<close>

definition legacy_journal_rows :: "nat \<Rightarrow> FlatForest \<Rightarrow> nat res" where
  "legacy_journal_rows byte_len f =
     bind_r (read_resize_marker f) (\<lambda>m. case m of
       Some m \<Rightarrow> Inr (rm_old_rows m)
     | None \<Rightarrow>
         if byte_len mod 33 \<noteq> 0 then bail ''forest file has invalid byte length''
         else forest_rows_from_node_count (of_nat (byte_len div 33)))"

section \<open>Reads through the overlay\<close>

definition read_with_overlay ::
  "'d SteadyStateForest \<Rightarrow> (u64 \<Rightarrow> JournalNodeState option) \<Rightarrow> u64 \<Rightarrow> ForestNodeData res" where
  "read_with_overlay s overlay position =
     (case overlay position of
        Some st \<Rightarrow>
          if \<not> jn_ready st then bail ''forest position is uninitialized''
          else Inr \<lparr>nd_hash = jn_hash st, nd_spent = jn_spent st\<rparr>
      | None \<Rightarrow> bind_r (try_read (sf_forest s) position) (\<lambda>n. ok_or n ''forest position is uninitialized''))"

fun roots_from :: "'d forest_env \<Rightarrow> (u64 \<Rightarrow> ForestNodeData res) \<Rightarrow> u64 \<Rightarrow> nat \<Rightarrow> nat list \<Rightarrow> bytes list res" where
  "roots_from E rd leaves rows [] = Inr []"
| "roots_from E rd leaves rows (row # rest) =
     (if leaves AND push_bit row 1 = 0 then roots_from E rd leaves rows rest
      else bind_r (rd (root_position leaves row rows)) (\<lambda>n.
           bind_r (roots_from E rd leaves rows rest) (\<lambda>hs. Inr (accumulator_hash E n # hs))))"

definition roots :: "'d forest_env \<Rightarrow> 'd SteadyStateForest \<Rightarrow> bytes list res" where
  "roots E s =
     roots_from E (\<lambda>position. bind_r (try_read (sf_forest s) position) (\<lambda>n. ok_or n ''root position is uninitialized''))
       (sf_leaves s) (sf_rows s) (rev [0..<sf_rows s + 1])"

definition leaf_map_key :: "'d forest_env \<Rightarrow> OutPoint \<Rightarrow> bytes" where
  "leaf_map_key E p = take 16 (fe_sha E (op_txid p @ le_bytes 4 (op_vout p)))"

definition leaf_value :: "u64 \<Rightarrow> bytes option list \<Rightarrow> (u32 \<times> u64 option) option \<Rightarrow> u64 res \<times> bytes option list" where
  "leaf_value leaves values staged =
     (let check = (\<lambda>position. if position \<ge> leaves then bail ''outpoint maps beyond the leaves'' else Inr position)
      in case staged of
           Some (_, position) \<Rightarrow> (bind_r (ok_or position ''outpoint is spent'') check, values)
         | None \<Rightarrow>
             (case values of
                [] \<Rightarrow> (bail ''leaf-map batch omitted an outpoint'', [])
              | value # values \<Rightarrow>
                  (bind_r (ok_or value ''outpoint is not in the leaf map'') (\<lambda>bs.
                     if length bs \<noteq> 8 then bail ''leaf position has the wrong size'' else check (from_le bs)),
                   values)))"

fun leaf_values :: "ForestOverlay \<Rightarrow> u64 \<Rightarrow> OutPoint list \<Rightarrow> bytes option list \<Rightarrow> u64 res list" where
  "leaf_values ov leaves [] values = []"
| "leaf_values ov leaves (p # ps) values =
     (case leaf_value leaves values (ov_positions ov p) of (r, values) \<Rightarrow> r # leaf_values ov leaves ps values)"

definition leaf_positions ::
  "'d forest_env \<Rightarrow> 'd SteadyStateForest \<Rightarrow> ForestOverlay \<Rightarrow> u64 \<Rightarrow> OutPoint list \<Rightarrow> u64 res list res" where
  "leaf_positions E s ov leaves outpoints =
     bind_r (db_fetch E (sf_map s) (map (leaf_map_key E) (filter (\<lambda>p. ov_positions ov p = None) outpoints)))
       (\<lambda>values. Inr (leaf_values ov leaves outpoints values))"

definition leaf_hash :: "'d SteadyStateForest \<Rightarrow> ForestOverlay \<Rightarrow> u64 \<Rightarrow> bytes res" where
  "leaf_hash s ov position =
     bind_r (read_with_overlay s (ov_nodes ov) position) (\<lambda>n.
       if nd_spent n then bail ''leaf position is spent'' else Inr (nd_hash n))"

definition repair_leaf_position :: "'d forest_env \<Rightarrow> 'd SteadyStateForest \<Rightarrow> OutPoint \<Rightarrow> u64 \<Rightarrow> 'd SteadyStateForest res" where
  "repair_leaf_position E s p position =
     (if position \<ge> sf_leaves s then bail ''cannot map the outpoint beyond the leaves''
      else bind_r (db_put E (sf_map s) (leaf_map_key E p) (le_bytes 8 position)) (\<lambda>d.
           bind_r (db_sync E d) (\<lambda>d. Inr (s\<lparr>sf_map := d\<rparr>))))"

section \<open>Recovering a leaf position\<close>

definition live_leaf :: "'d SteadyStateForest \<Rightarrow> ForestOverlay \<Rightarrow> bytes \<Rightarrow> u64 \<Rightarrow> bool res" where
  "live_leaf s ov hash position =
     bind_r (read_with_overlay s (ov_nodes ov) position) (\<lambda>n. Inr (\<not> nd_spent n \<and> nd_hash n = hash))"

fun neighbour_search ::
  "'d SteadyStateForest \<Rightarrow> ForestOverlay \<Rightarrow> u64 \<Rightarrow> u64 \<Rightarrow> bytes \<Rightarrow> nat \<Rightarrow> (u64 res \<times> bytes) list \<Rightarrow> u64 option res" where
  "neighbour_search s ov leaves target_index target_hash local_index [] = Inr None"
| "neighbour_search s ov leaves target_index target_hash local_index ((position, hash) # rest) =
     (let continue' = neighbour_search s ov leaves target_index target_hash (local_index + 1) rest in
      case position of
        Inl _ \<Rightarrow> continue'
      | Inr position \<Rightarrow>
          if leaf_hash s ov position \<noteq> Inr hash then continue'
          else
            (case (case checked_sub position (of_nat local_index) of
                     None \<Rightarrow> None | Some start \<Rightarrow> checked_add start target_index) of
               None \<Rightarrow> continue'
             | Some candidate \<Rightarrow>
                 if candidate < leaves
                 then bind_r (live_leaf s ov target_hash candidate) (\<lambda>found.
                        if found then Inr (Some candidate) else continue')
                 else continue'))"

fun leaf_search :: "'d SteadyStateForest \<Rightarrow> ForestOverlay \<Rightarrow> bytes \<Rightarrow> u64 list \<Rightarrow> u64 res" where
  "leaf_search s ov target_hash [] = bail ''could not recover the outpoint from its creating block''"
| "leaf_search s ov target_hash (position # rest) =
     bind_r (live_leaf s ov target_hash position) (\<lambda>found.
       if found then Inr position else leaf_search s ov target_hash rest)"

fun index_of :: "('a \<Rightarrow> bool) \<Rightarrow> 'a list \<Rightarrow> nat option" where
  "index_of P [] = None"
| "index_of P (x # xs) = (if P x then Some 0 else map_option Suc (index_of P xs))"

definition recover_leaf_position_from_block ::
  "'d forest_env \<Rightarrow> 'd SteadyStateForest \<Rightarrow> ForestOverlay \<Rightarrow> u64 \<Rightarrow> OutPoint \<Rightarrow> bytes \<Rightarrow> (OutPoint \<times> bytes) list \<Rightarrow> u64 res" where
  "recover_leaf_position_from_block E s ov leaves target target_hash block_leaves =
     bind_r (ok_or (index_of (\<lambda>(p, _). p = target) block_leaves) ''outpoint is not an eligible leaf in its block'') (\<lambda>target_index.
     bind_r (leaf_positions E s ov leaves (map fst block_leaves)) (\<lambda>positions.
     bind_r (neighbour_search s ov leaves (of_nat target_index) target_hash 0 (zip positions (map snd block_leaves))) (\<lambda>found.
       case found of
         Some candidate \<Rightarrow> Inr candidate
       | None \<Rightarrow> leaf_search s ov target_hash (map of_nat [0..<unat leaves]))))"

section \<open>Planning a block\<close>

record PlannedNode =
  pn_before :: JournalNodeState
  pn_after :: ForestNodeData

text \<open>The hash map of staged nodes; its iteration order is irrelevant, as the deltas are sorted.\<close>

type_synonym staged = "(u64 \<times> PlannedNode) list"
type_synonym base = "FlatForest \<times> (u64 \<Rightarrow> JournalNodeState option)"

definition base_state :: "base \<Rightarrow> u64 \<Rightarrow> JournalNodeState res" where
  "base_state b position =
     (case snd b position of Some st \<Rightarrow> Inr st | None \<Rightarrow> journal_state (fst b) position)"

definition staged_read :: "base \<Rightarrow> staged \<Rightarrow> u64 \<Rightarrow> ForestNodeData res" where
  "staged_read b nodes position =
     (case map_of nodes position of
        Some n \<Rightarrow> Inr (pn_after n)
      | None \<Rightarrow>
          (case snd b position of
             Some st \<Rightarrow>
               if \<not> jn_ready st then bail ''forest position is uninitialized''
               else Inr \<lparr>nd_hash = jn_hash st, nd_spent = jn_spent st\<rparr>
           | None \<Rightarrow> bind_r (try_read (fst b) position) (\<lambda>n. ok_or n ''forest position is uninitialized'')))"

definition stage_node :: "base \<Rightarrow> staged \<Rightarrow> u64 \<Rightarrow> ForestNodeData \<Rightarrow> staged res" where
  "stage_node b nodes position after =
     (case map_of nodes position of
        Some n \<Rightarrow> Inr (AList.update position (n\<lparr>pn_after := after\<rparr>) nodes)
      | None \<Rightarrow>
          bind_r (base_state b position) (\<lambda>before.
            Inr ((position, \<lparr>pn_before = before, pn_after = after\<rparr>) # nodes)))"

definition stage_deletion :: "base \<Rightarrow> staged \<Rightarrow> OutPoint \<times> u64 \<Rightarrow> staged res" where
  "stage_deletion b nodes d =
     bind_r (staged_read b nodes (snd d)) (\<lambda>n.
       stage_node b nodes (snd d) \<lparr>nd_hash = nd_hash n, nd_spent = True\<rparr>)"

definition planned_parent :: "'d forest_env \<Rightarrow> base \<Rightarrow> nat \<Rightarrow> staged \<Rightarrow> u64 \<Rightarrow> ForestNodeData res" where
  "planned_parent E b rows nodes p =
     bind_r (staged_read b nodes (left_child p rows)) (\<lambda>left.
     bind_r (staged_read b nodes (left_child p rows + 1)) (\<lambda>right.
       Inr (combine_children E left right)))"

text \<open>
  One row of the walk to the roots per iteration: every parent is computed from the nodes staged
  so far, then all are staged. The row rises each time, so \<open>rows + 2\<close> iterations are enough
  (a position past the last row is outside the file, an error).
\<close>

fun stage_parents :: "'d forest_env \<Rightarrow> base \<Rightarrow> u64 \<Rightarrow> nat \<Rightarrow> nat \<Rightarrow> u64 list \<Rightarrow> staged \<Rightarrow> staged res" where
  "stage_parents E b leaves rows 0 positions nodes =
     (if positions = [] then Inr nodes else Inl (Panic ''the walk to the roots does not end''))"
| "stage_parents E b leaves rows (Suc fuel) positions nodes =
     (if positions = [] then Inr nodes
      else
        let parents = sort (remdups (map (\<lambda>p. parent p rows) (filter (\<lambda>p. \<not> is_root_position p leaves rows) positions)))
        in bind_r (fold_r (\<lambda>ns (p, after). bind_r after (stage_node b ns p)) nodes
                     (map (\<lambda>p. (p, planned_parent E b rows nodes p)) parents))
             (stage_parents E b leaves rows fuel parents))"

function merge_roots :: "'d forest_env \<Rightarrow> base \<Rightarrow> u64 \<Rightarrow> nat \<Rightarrow> nat \<Rightarrow> u64 \<Rightarrow> staged \<Rightarrow> staged res" where
  "merge_roots E b leaves rows row position nodes =
     (if leaves AND push_bit row 1 \<noteq> 0 then
        bind_r (staged_read b nodes (root_position leaves row rows)) (\<lambda>left.
        bind_r (staged_read b nodes position) (\<lambda>right.
        bind_r (stage_node b nodes (parent position rows) (combine_children E left right)) (\<lambda>nodes.
          merge_roots E b leaves rows (row + 1) (parent position rows) nodes)))
      else Inr nodes)"
  by pat_completeness auto
termination
  by (relation "measure (\<lambda>(E, b, leaves, rows, row, _). 64 - row)") (auto simp: and_exp_eq_0_iff_not_bit dest: bit_imp_le_length intro: ccontr)

declare merge_roots.simps [simp del] count_leaves.simps [simp del]

text \<open>The additions: the staged nodes, the leaf count and the index entries so far.\<close>

definition stage_addition ::
  "'d forest_env \<Rightarrow> base \<Rightarrow> nat \<Rightarrow> staged \<times> u64 \<times> JournalIndexDelta list \<Rightarrow> OutPoint \<times> bytes \<Rightarrow> (staged \<times> u64 \<times> JournalIndexDelta list) res" where
  "stage_addition E b rows st a =
     (case st of (nodes, leaves, added) \<Rightarrow>
        bind_r (stage_node b nodes leaves \<lparr>nd_hash = snd a, nd_spent = False\<rparr>) (\<lambda>nodes.
        bind_r (merge_roots E b leaves rows 0 leaves nodes) (\<lambda>nodes.
          Inr (nodes, leaves + 1, added @ [\<lparr>ix_outpoint = fst a, ix_position = leaves\<rparr>]))))"

definition planned_delta :: "u64 \<times> PlannedNode \<Rightarrow> JournalForestDelta" where
  "planned_delta pn =
     \<lparr>fd_position = fst pn, fd_before = pn_before (snd pn),
      fd_after = \<lparr>jn_ready = True, jn_spent = nd_spent (pn_after (snd pn)), jn_hash = nd_hash (pn_after (snd pn))\<rparr>\<rparr>"

definition plan_update_with_overlay ::
  "'d forest_env \<Rightarrow> 'd SteadyStateForest \<Rightarrow> u32 \<Rightarrow> bytes \<Rightarrow> bytes \<Rightarrow> u64 \<Rightarrow> (u64 \<Rightarrow> JournalNodeState option) \<Rightarrow>
     (OutPoint \<times> u64) list \<Rightarrow> (OutPoint \<times> bytes) list \<Rightarrow> JournalEntry res" where
  "plan_update_with_overlay E s height block_hash previous_block_hash base_leaves overlay deletions additions =
     (let b = (sf_forest s, overlay); rows = sf_rows s in
      bind_r (ok_or (checked_shl_one rows) ''forest bottom capacity overflow'') (\<lambda>bottom_capacity.
      bind_r (ok_or (checked_add base_leaves (of_nat (length additions))) ''leaf count overflow'') (\<lambda>final_leaves.
      if final_leaves > bottom_capacity then bail ''flat forest capacity is exhausted''
      else
        bind_r (fold_r (stage_deletion b) [] deletions) (\<lambda>nodes.
        bind_r (stage_parents E b base_leaves rows (rows + 2) (map snd deletions) nodes) (\<lambda>nodes.
        bind_r (fold_r (stage_addition E b rows) (nodes, base_leaves, []) additions) (\<lambda>(nodes, leaves, added).
          Inr \<lparr>je_height = height, je_block_hash = block_hash, je_num_leaves = leaves,
               je_previous_block_hash = previous_block_hash,
               je_forest = sort_key fd_position (map planned_delta nodes),
               je_removed = map (\<lambda>(p, position). \<lparr>ix_outpoint = p, ix_position = position\<rparr>) deletions,
               je_added = added, je_forest_rows = Some (of_nat rows)\<rparr>))))))"

definition roots_after_with_overlay ::
  "'d forest_env \<Rightarrow> 'd SteadyStateForest \<Rightarrow> JournalEntry \<Rightarrow> u64 \<Rightarrow> (u64 \<Rightarrow> JournalNodeState option) \<Rightarrow> bytes list res" where
  "roots_after_with_overlay E s e base_leaves overlay =
     bind_r (previous_num_leaves e) (\<lambda>previous.
     if previous \<noteq> base_leaves then bail ''planned update begins with another leaf count''
     else
       let changed = fold (\<lambda>d m. m(fd_position d \<mapsto> fd_after d)) (je_forest e) Map.empty
       in roots_from E (\<lambda>position.
            bind_r (case changed position of
                      Some st \<Rightarrow> Inr st
                    | None \<Rightarrow> base_state (sf_forest s, overlay) position) (\<lambda>st.
              if \<not> jn_ready st then bail ''planned root position is uninitialized''
              else Inr \<lparr>nd_hash = jn_hash st, nd_spent = jn_spent st\<rparr>))
            (je_num_leaves e) (sf_rows s) (rev [0..<sf_rows s + 1]))"

section \<open>Applying and undoing entries\<close>

text \<open>
  The heap of merge heads, ordered by position, block and index. No two heads are equal, so
  the least element is determined and a sorted list is the heap.
\<close>

type_synonym heads = "(u64 \<times> nat \<times> nat) list"

definition delta_at :: "JournalEntry list \<Rightarrow> nat \<times> nat \<Rightarrow> JournalForestDelta" where
  "delta_at entries bi = je_forest (entries ! fst bi) ! snd bi"

definition push_next :: "JournalEntry list \<Rightarrow> nat \<times> nat \<Rightarrow> heads \<Rightarrow> heads" where
  "push_next entries bi heads =
     (if snd bi + 1 < length (je_forest (entries ! fst bi))
      then insort (fd_position (delta_at entries (fst bi, snd bi + 1)), fst bi, snd bi + 1) heads
      else heads)"

text \<open>Deltas behind a head, itself included.\<close>

definition heads_size :: "JournalEntry list \<Rightarrow> heads \<Rightarrow> nat" where
  "heads_size entries heads = sum_list (map (\<lambda>(_, b, i). length (je_forest (entries ! b)) - i + 1) heads)"

lemma heads_size_insort: "heads_size entries (insort h heads) = heads_size entries (h # heads)"
  by (induction heads) (auto simp: heads_size_def)

lemma heads_size_push_next: "heads_size entries (push_next entries bi heads) < heads_size entries ((p, bi) # heads)"
  by (cases bi) (simp add: push_next_def heads_size_insort, simp add: heads_size_def, linarith)

text \<open>The inner loop: every head at \<open>position\<close> is consumed, the latest one wins.\<close>

function absorb :: "JournalEntry list \<Rightarrow> u64 \<Rightarrow> nat \<times> nat \<Rightarrow> nat \<times> nat \<Rightarrow> heads \<Rightarrow> (nat \<times> nat) \<times> heads" where
  "absorb entries position latest current heads =
     (case push_next entries current heads of
        (next_position, nxt) # rest \<Rightarrow>
          if next_position = position then absorb entries position (max latest nxt) nxt rest
          else (latest, (next_position, nxt) # rest)
      | [] \<Rightarrow> (latest, []))"
  by pat_completeness auto
termination
proof (relation "measure (\<lambda>(entries, p, l, c, heads). heads_size entries ((p, c) # heads))")
  fix entries position latest current heads x21 x22 x a b
  assume "push_next entries current heads = x21 # x22" "(a, b) = x21" "a = position"
  then show "((entries, position, max latest b, b, x22), entries, position, latest, current, heads)
       \<in> measure (\<lambda>(entries, p, l, c, heads). heads_size entries ((p, c) # heads))"
    using heads_size_push_next [of entries current heads position] by auto
qed simp

declare absorb.simps [simp del]

lemma absorb_shrinks:
  "absorb entries position latest current heads = (l, heads') \<Longrightarrow>
     heads_size entries heads' < heads_size entries ((position, current) # heads)"
proof (induction entries position latest current heads rule: absorb.induct)
  case (1 entries position latest current heads)
  show ?case
  proof (cases "push_next entries current heads")
    case Nil
    then show ?thesis
      using 1(2) heads_size_push_next [of entries current heads position] by (simp add: absorb.simps)
  next
    case (Cons h rest)
    obtain p nxt where h: "h = (p, nxt)" by (cases h)
    have less: "heads_size entries ((p, nxt) # rest) < heads_size entries ((position, current) # heads)"
      using heads_size_push_next [of entries current heads position] Cons h by simp
    show ?thesis
    proof (cases "p = position")
      case True
      then have "absorb entries position (max latest nxt) nxt rest = (l, heads')"
        using 1(2) Cons h by (simp add: absorb.simps [of entries position latest])
      then show ?thesis using 1(1) [OF Cons h [symmetric] True] less True by fastforce
    next
      case False
      then show ?thesis using 1(2) Cons h less by (simp add: absorb.simps)
    qed
  qed
qed

function merged_loop :: "JournalEntry list \<Rightarrow> heads \<Rightarrow> (u64 \<times> JournalNodeState) list" where
  "merged_loop entries [] = []"
| "merged_loop entries ((position, bi) # heads) =
     (case absorb entries position bi bi heads of
        (latest, heads) \<Rightarrow> (position, fd_after (delta_at entries latest)) # merged_loop entries heads)"
  by pat_completeness auto
termination
  by (relation "measure (\<lambda>(entries, heads). heads_size entries heads)") (auto intro: absorb_shrinks sym)

definition initial_heads :: "JournalEntry list \<Rightarrow> heads" where
  "initial_heads entries =
     sort [(fd_position (hd (je_forest (entries ! b))), b, 0). b \<leftarrow> [0..<length entries], je_forest (entries ! b) \<noteq> []]"

definition merged_forest_writes :: "JournalEntry list \<Rightarrow> (u64 \<times> JournalNodeState) list" where
  "merged_forest_writes entries = merged_loop entries (initial_heads entries)"

text \<open>\<open>dedup_by_key\<close> keeps the first of a run.\<close>

fun dedup_by_key :: "('a \<times> 'b) list \<Rightarrow> ('a \<times> 'b) list" where
  "dedup_by_key (x # y # xs) = (if fst x = fst y then dedup_by_key (x # xs) else x # dedup_by_key (y # xs))"
| "dedup_by_key xs = xs"

definition delta_key :: "'d forest_env \<Rightarrow> JournalIndexDelta \<Rightarrow> bytes" where
  "delta_key E d = leaf_map_key E (ix_outpoint d)"

definition apply_leaf_map_delta ::
  "'d forest_env \<Rightarrow> 'd SteadyStateForest \<Rightarrow> JournalIndexDelta list \<Rightarrow> JournalIndexDelta list \<Rightarrow> 'd SteadyStateForest res" where
  "apply_leaf_map_delta E s removed inserted =
     (let keys = remdups_adj (sort (map (delta_key E) removed @ map (delta_key E) inserted));
          entries = dedup_by_key (sort_key fst (rev (map (\<lambda>d. (delta_key E d, le_bytes 8 (ix_position d))) inserted)))
      in bind_r (db_delete E (sf_map s) keys) (\<lambda>d.
         bind_r (db_put_batch E d entries) (\<lambda>d. Inr (s\<lparr>sf_map := d\<rparr>))))"

definition compact_leaf_map :: "'d forest_env \<Rightarrow> 'd SteadyStateForest \<Rightarrow> 'd SteadyStateForest res" where
  "compact_leaf_map E s = bind_r (db_compact E (sf_map s) (of_nat (2 ^ 20 div 32 div 2))) (\<lambda>d. Inr (s\<lparr>sf_map := d\<rparr>))"

definition journal_forest_rows :: "'d SteadyStateForest \<Rightarrow> JournalEntry \<Rightarrow> nat res" where
  "journal_forest_rows s e =
     (let rows = (case je_forest_rows e of Some r \<Rightarrow> unat r | None \<Rightarrow> sf_rows s)
      in if rows > sf_rows s then bail ''journal forest height exceeds current height'' else Inr rows)"

definition journal_position :: "'d SteadyStateForest \<Rightarrow> u64 \<Rightarrow> nat \<Rightarrow> u64 res" where
  "journal_position s position rows =
     (if rows = sf_rows s then Inr position else translate_position position rows (sf_rows s))"

definition set_state :: "'d SteadyStateForest \<Rightarrow> u64 \<Rightarrow> JournalNodeState \<Rightarrow> 'd SteadyStateForest res" where
  "set_state s position st = bind_r (set_journal_state (sf_forest s) position st) (\<lambda>f. Inr (s\<lparr>sf_forest := f\<rparr>))"

definition apply_entry_batched :: "'d forest_env \<Rightarrow> 'd SteadyStateForest \<Rightarrow> JournalEntry \<Rightarrow> 'd SteadyStateForest res" where
  "apply_entry_batched E s e =
     bind_r (apply_leaf_map_delta E s (je_removed e) (je_added e)) (\<lambda>s.
       let s = s\<lparr>sf_leaves := je_num_leaves e\<rparr>
       in if je_height e mod 1000 = 0 then compact_leaf_map E s else Inr s)"

definition apply_forward_batch :: "'d forest_env \<Rightarrow> 'd SteadyStateForest \<Rightarrow> JournalEntry list \<Rightarrow> 'd SteadyStateForest res" where
  "apply_forward_batch E s entries =
     bind_r (fold_r (\<lambda>_ e. bind_r (journal_forest_rows s e) (\<lambda>rows.
               ensure (rows = sf_rows s) ''published window spans different physical forest layouts'')) () entries) (\<lambda>_.
     bind_r (fold_r (\<lambda>s (position, st). set_state s position st) s (merged_forest_writes entries)) (\<lambda>s.
       fold_r (apply_entry_batched E) s entries))"

definition apply_forward :: "'d forest_env \<Rightarrow> 'd SteadyStateForest \<Rightarrow> JournalEntry \<Rightarrow> 'd SteadyStateForest res" where
  "apply_forward E s e =
     bind_r (journal_forest_rows s e) (\<lambda>rows.
     bind_r (fold_r (\<lambda>s d. bind_r (journal_position s (fd_position d) rows) (\<lambda>p. set_state s p (fd_after d))) s (je_forest e)) (\<lambda>s.
     bind_r (apply_leaf_map_delta E s (je_removed e) (je_added e)) (\<lambda>s.
       Inr (s\<lparr>sf_leaves := je_num_leaves e\<rparr>))))"

definition apply_backward :: "'d forest_env \<Rightarrow> 'd SteadyStateForest \<Rightarrow> JournalEntry \<Rightarrow> 'd SteadyStateForest res" where
  "apply_backward E s e =
     bind_r (journal_forest_rows s e) (\<lambda>rows.
     bind_r (fold_r (\<lambda>s d. bind_r (journal_position s (fd_position d) rows) (\<lambda>p. set_state s p (fd_before d))) s (rev (je_forest e))) (\<lambda>s.
     bind_r (apply_leaf_map_delta E s (je_added e) (je_removed e)) (\<lambda>s.
     bind_r (previous_num_leaves e) (\<lambda>n. Inr (s\<lparr>sf_leaves := n\<rparr>)))))"

text \<open>Flushing the mapping changes no contents; the leaf map is synced even when it fails.\<close>

definition sync :: "'d forest_env \<Rightarrow> 'd SteadyStateForest \<Rightarrow> 'd SteadyStateForest res" where
  "sync E s = bind_r (db_sync E (sf_map s)) (\<lambda>d. Inr (s\<lparr>sf_map := d\<rparr>))"

definition replay_journal :: "'d forest_env \<Rightarrow> 'd SteadyStateForest \<Rightarrow> 'h ForestJournal \<Rightarrow> ('d SteadyStateForest \<times> bool) res" where
  "replay_journal E s j =
     (if \<not> fj_needs_replay j then Inr (s, False)
      else
        bind_r (fold_r (apply_backward E) s (map jr_entry (rev (records j)))) (\<lambda>s.
        bind_r (fold_r (apply_forward E) s (map jr_entry (filter (\<lambda>r. jr_status r = Forward) (records j)))) (\<lambda>s.
        bind_r (if records j = [] then Inr s else sync E s) (\<lambda>s. Inr (s, True)))))"

end
