(* ===== verification/Forest_Canon.thy ===== *)
theory Forest_Canon
  imports Steady_Forest
begin

text \<open>
  What the forest's contents mean: the perfect trees over a list of leaves. A store of nodes is
  canonical for a list when every populated position holds its tree's value. The planner is shown
  to turn a forest that is canonical for the old leaves into one that is canonical for the new.
\<close>

section \<open>The trees over a list of leaves\<close>

fun tree :: "'d forest_env \<Rightarrow> ForestNodeData list \<Rightarrow> nat \<Rightarrow> nat \<Rightarrow> ForestNodeData" where
  "tree E L 0 k = L ! k"
| "tree E L (Suc r) k = combine_children E (tree E L r (2 * k)) (tree E L r (2 * k + 1))"

definition roots_of :: "'d forest_env \<Rightarrow> ForestNodeData list \<Rightarrow> bytes list" where
  "roots_of E L =
     [accumulator_hash E (tree E L r (length L div 2 ^ r - 1)). r \<leftarrow> rev [0..<64], odd (length L div 2 ^ r)]"

text \<open>A tree depends on the leaves below it only.\<close>

lemma tree_cong:
  "(\<And>i. i div 2 ^ r = k \<Longrightarrow> L ! i = M ! i) \<Longrightarrow> tree E L r k = tree E M r k"
proof (induction r arbitrary: k)
  case 0
  then show ?case by simp
next
  case (Suc r)
  have "tree E L r (2 * k) = tree E M r (2 * k)" "tree E L r (2 * k + 1) = tree E M r (2 * k + 1)"
    by (rule Suc.IH, rule Suc.prems, simp add: div_power_Suc del: power_Suc)+
  then show ?case by simp
qed

lemma pop_below: "pop n r k \<Longrightarrow> i div 2 ^ r = k \<Longrightarrow> i < n"
  unfolding pop_def by (metis div_le_mono leD leI)

lemma tree_append: "pop (length L) r k \<Longrightarrow> tree E (L @ M) r k = tree E L r k"
  by (rule tree_cong) (simp add: nth_append pop_below)

text \<open>A tree is spent exactly when all its leaves are.\<close>

lemma spent_combine: "nd_spent (combine_children E l r) \<longleftrightarrow> nd_spent l \<and> nd_spent r"
  by (simp add: combine_children_def)

lemma spent_tree: "nd_spent (tree E L r k) \<longleftrightarrow> (\<forall>i. i div 2 ^ r = k \<longrightarrow> nd_spent (L ! i))"
proof (induction r arbitrary: k)
  case 0
  then show ?case by simp
next
  case (Suc r)
  have "i div 2 ^ Suc r = k \<longleftrightarrow> i div 2 ^ r = 2 * k \<or> i div 2 ^ r = 2 * k + 1" for i :: nat
    unfolding div_power_Suc by linarith
  then show ?case by (auto simp: spent_combine Suc)
qed

section \<open>Stores of nodes\<close>

text \<open>
  What the walks over the forest rely on: a store that can be read and written position by
  position. The planner writes into its staged nodes, the builder into the mapped file, where a
  position can be written once.
\<close>

locale node_store =
  fixes rd :: "'s \<Rightarrow> u64 \<Rightarrow> ForestNodeData res"
    and wr :: "'s \<Rightarrow> u64 \<Rightarrow> ForestNodeData \<Rightarrow> 's res"
    and ok :: "'s \<Rightarrow> bool"
    and cap :: nat
    and free :: "'s \<Rightarrow> u64 \<Rightarrow> bool"
  assumes wr_rd: "ok s \<Longrightarrow> unat p < cap \<Longrightarrow> free s p \<Longrightarrow>
    \<exists>s'. wr s p v = Inr s' \<and> ok s' \<and> (\<forall>q. rd s' q = (if q = p then Inr v else rd s q)) \<and>
      (\<forall>q. q \<noteq> p \<longrightarrow> free s' q = free s q)"
begin

lemma write_all:
  assumes "ok s" and "\<And>p. p \<in> set ps \<Longrightarrow> unat p < cap \<and> free s p" and "distinct ps"
  shows "\<exists>s'. fold_r (\<lambda>s p. wr s p (v p)) s ps = Inr s' \<and> ok s' \<and>
    (\<forall>q. rd s' q = (if q \<in> set ps then Inr (v q) else rd s q)) \<and> (\<forall>q. q \<notin> set ps \<longrightarrow> free s' q = free s q)"
  using assms
proof (induction ps arbitrary: s)
  case Nil
  then show ?case by simp
next
  case (Cons p ps)
  obtain s1 where s1: "wr s p (v p) = Inr s1" "ok s1" "\<And>q. rd s1 q = (if q = p then Inr (v p) else rd s q)"
    "\<And>q. q \<noteq> p \<Longrightarrow> free s1 q = free s q"
    using wr_rd [of s p "v p"] Cons.prems by auto
  have "p' \<in> set ps \<Longrightarrow> unat p' < cap \<and> free s1 p'" for p'
    using Cons.prems(2,3) s1(4) [of p'] by auto
  then obtain s2 where "fold_r (\<lambda>s p. wr s p (v p)) s1 ps = Inr s2" "ok s2"
    "\<And>q. rd s2 q = (if q \<in> set ps then Inr (v q) else rd s1 q)" "\<And>q. q \<notin> set ps \<Longrightarrow> free s2 q = free s1 q"
    using Cons.IH [OF s1(2)] Cons.prems(3) by auto
  then show ?case using s1 Cons.prems(3) by (intro exI [of _ s2]) auto
qed

end

section \<open>Staged nodes\<close>

definition staged_ok :: "base \<Rightarrow> staged \<Rightarrow> bool" where
  "staged_ok b nodes \<longleftrightarrow> wf_forest (fst b) \<and> distinct (map fst nodes) \<and>
     (\<forall>(p, n)\<in>set nodes. unat p < length (ff_nodes (fst b)) \<and> base_state b p = Inr (pn_before n))"

lemma base_state_total:
  assumes "wf_forest (fst b)" and "unat p < length (ff_nodes (fst b))"
  obtains st where "base_state b p = Inr st"
  using assms by (cases "snd b p") (auto simp: base_state_def journal_state_def try_read_def node_eq)

lemma stage_node_spec:
  assumes "staged_ok b nodes" and "unat p < length (ff_nodes (fst b))"
  shows "\<exists>ns. stage_node b nodes p v = Inr ns \<and> staged_ok b ns \<and>
    (\<forall>q. staged_read b ns q = (if q = p then Inr v else staged_read b nodes q))"
proof (cases "map_of nodes p")
  case None
  obtain st where st: "base_state b p = Inr st" using base_state_total assms unfolding staged_ok_def by blast
  have "p \<notin> fst ` set nodes" using None by (simp add: map_of_eq_None_iff)
  then show ?thesis using None st assms by (auto simp: stage_node_def staged_ok_def staged_read_def)
next
  case (Some n)
  let ?ns = "AList.update p (n\<lparr>pn_after := v\<rparr>) nodes"
  have d: "distinct (map fst ?ns)" using assms(1) by (simp add: staged_ok_def distinct_update)
  have m: "map_of ?ns = (map_of nodes)(p \<mapsto> n\<lparr>pn_after := v\<rparr>)" by (simp add: update_conv')
  have n: "(p, n) \<in> set nodes" using Some by (rule map_of_SomeD)
  have "unat q < length (ff_nodes (fst b)) \<and> base_state b q = Inr (pn_before x)" if "(q, x) \<in> set ?ns" for q x
  proof -
    have "map_of ?ns q = Some x" using that d by simp
    then have "q = p \<and> x = n\<lparr>pn_after := v\<rparr> \<or> (q, x) \<in> set nodes"
      unfolding m by (auto split: if_splits dest: map_of_SomeD)
    then show ?thesis using assms(1) n by (auto simp: staged_ok_def)
  qed
  then show ?thesis using Some d m assms(1) by (auto simp: stage_node_def staged_ok_def staged_read_def)
qed

interpretation staged: node_store "staged_read b" "stage_node b" "staged_ok b" "length (ff_nodes (fst b))" "\<lambda>_ _. True" for b
  by unfold_locales (use stage_node_spec in auto)

text \<open>The forest below \<open>R\<close> rows is complete: one node per position.\<close>

definition wf_base :: "base \<Rightarrow> nat \<Rightarrow> bool" where
  "wf_base b R \<longleftrightarrow> R \<le> 62 \<and> length (ff_nodes (fst b)) = 2 ^ (R + 1) - 1"

lemma wf_base_bound: "wf_base b R \<Longrightarrow> wf_forest (fst b)"
proof -
  assume a: "wf_base b R"
  then have "(2 :: nat) ^ (R + 1) \<le> 2 ^ 63" by (intro power_increasing) (auto simp: wf_base_def)
  then show ?thesis using a by (simp add: wf_base_def wf_forest_def)
qed

lemma posw_in_base: "wf_base b R \<Longrightarrow> coord R r k \<Longrightarrow> unat (posw R r k) < length (ff_nodes (fst b))"
  using coord_pos_less(2) [of R r k] by (simp add: wf_base_def)

definition canon :: "'d forest_env \<Rightarrow> base \<Rightarrow> staged \<Rightarrow> nat \<Rightarrow> ForestNodeData list \<Rightarrow> bool" where
  "canon E b nodes R L \<longleftrightarrow>
     (\<forall>r k. pop (length L) r k \<longrightarrow> staged_read b nodes (posw R r k) = Inr (tree E L r k))"

section \<open>The walk to the roots\<close>

text \<open>The next row: the parents of the positions that are not roots.\<close>

definition climb :: "nat \<Rightarrow> nat \<Rightarrow> nat set \<Rightarrow> nat set" where
  "climb n c K = (\<lambda>k. k div 2) ` {k \<in> K. \<not> root_at n c k}"

lemma climb_pop: "\<forall>k\<in>K. pop n c k \<Longrightarrow> \<forall>k\<in>climb n c K. pop n (Suc c) k"
  using root_or_parent by (auto simp: climb_def)

lemma list_of_images: "set ps \<subseteq> f ` S \<Longrightarrow> \<exists>ks. ps = map f ks \<and> set ks \<subseteq> S"
proof (induction ps)
  case (Cons p ps)
  then obtain k ks where "k \<in> S" "p = f k" "ps = map f ks" "set ks \<subseteq> S" by auto
  then show ?case by (intro exI [of _ "k # ks"]) simp
qed simp

lemma parents_row:
  assumes b: "wf_base b R" and n: "unat leaves \<le> 2 ^ R" and K: "\<forall>k\<in>set K. pop (unat leaves) c k"
  obtains K' where
    "sort (remdups (map (\<lambda>p. parent p R) (filter (\<lambda>p. \<not> is_root_position p leaves R) (map (posw R c) K)))) =
       map (posw R (Suc c)) K'" and "set K' = climb (unat leaves) c (set K)" and "distinct (map (posw R (Suc c)) K')"
proof -
  let ?f = "posw R (Suc c)" and ?S = "climb (unat leaves) c (set K)"
  let ?ps = "sort (remdups (map (\<lambda>p. parent p R) (filter (\<lambda>p. \<not> is_root_position p leaves R) (map (posw R c) K))))"
  have R: "R \<le> 63" using b by (simp add: wf_base_def)
  have co: "coord R (Suc c) k" if "k \<in> ?S" for k using climb_pop [OF K] pop_coord [OF n] that by blast
  have e: "parent (posw R c k) R = ?f (k div 2)" if "k \<in> set K" "\<not> root_at (unat leaves) c k" for k
  proof -
    have "coord R (Suc c) (k div 2)" using co that by (auto simp: climb_def)
    then have "c < R" by (simp add: coord_def)
    then show ?thesis using parent_posw R K that(1) pop_coord [OF n] by blast
  qed
  have ro: "is_root_position (posw R c k) leaves R \<longleftrightarrow> root_at (unat leaves) c k" if "k \<in> set K" for k
    using is_root_position_posw [OF n R pop_coord [OF n]] K that by blast
  have "set ?ps = (\<lambda>k. parent (posw R c k) R) ` {k \<in> set K. \<not> is_root_position (posw R c k) leaves R}" by auto
  also have "\<dots> = (\<lambda>k. ?f (k div 2)) ` {k \<in> set K. \<not> root_at (unat leaves) c k}"
    using e ro by (intro image_cong) auto
  also have "\<dots> = ?f ` ?S" by (simp add: climb_def image_image)
  finally have set: "set ?ps = ?f ` ?S" .
  then obtain K' where K': "?ps = map ?f K'" "set K' \<subseteq> ?S" using list_of_images [of ?ps ?f ?S] by auto
  have "?S \<subseteq> set K'"
  proof
    fix k assume k: "k \<in> ?S"
    then have "?f k \<in> set (map ?f K')" using set K'(1) by (metis imageI)
    then obtain k' where "k' \<in> set K'" "?f k = ?f k'" by auto
    then show "k \<in> set K'" using posw_inj [OF R co [OF k] co] K'(2) by auto
  qed
  then have "set K' = ?S" using K'(2) by blast
  moreover have "distinct ?ps" by simp
  ultimately show ?thesis using that K'(1) by metis
qed

text \<open>The parents of one row, staged from the children read before any of them is written.\<close>

lemma stage_row:
  assumes b: "wf_base b R" and ns: "staged_ok b nodes" and pr: "distinct (map (posw R (Suc c)) K)"
    and K: "\<forall>k\<in>set K. coord R (Suc c) k"
    and ch: "\<And>k. k \<in> set K \<Longrightarrow> staged_read b nodes (posw R c (2 * k)) = Inr (tree E L c (2 * k)) \<and>
      staged_read b nodes (posw R c (2 * k + 1)) = Inr (tree E L c (2 * k + 1))"
  obtains ns' where
    "fold_r (\<lambda>ns (p, after). bind_r after (stage_node b ns p)) nodes
       (map (\<lambda>p. (p, planned_parent E b R nodes p)) (map (posw R (Suc c)) K)) = Inr ns'"
    and "staged_ok b ns'"
    and "\<And>r k. coord R r k \<Longrightarrow> staged_read b ns' (posw R r k) =
      (if r = Suc c \<and> k \<in> set K then Inr (tree E L r k) else staged_read b nodes (posw R r k))"
proof -
  have R: "R \<le> 63" using b by (simp add: wf_base_def)
  let ?v = "\<lambda>p. projr (planned_parent E b R nodes p)"
  have pp: "planned_parent E b R nodes (posw R (Suc c) k) = Inr (tree E L (Suc c) k)" if "k \<in> set K" for k
  proof -
    have k: "coord R (Suc c) k" using K that by blast
    have "posw R c (2 * k) + 1 = posw R c (2 * k + 1)" by (simp add: pos_def)
    then show ?thesis using ch [OF that] left_child_posw [OF k R] by (simp add: planned_parent_def)
  qed
  have eq: "fold_r (\<lambda>ns (p, after). bind_r after (stage_node b ns p)) ns (map (\<lambda>p. (p, planned_parent E b R nodes p)) ps)
      = fold_r (\<lambda>ns p. stage_node b ns p (?v p)) ns ps"
    if "set ps \<subseteq> posw R (Suc c) ` set K" for ps ns
    using that
  proof (induction ps arbitrary: ns)
    case (Cons p ps)
    then have "planned_parent E b R nodes p = Inr (?v p)" using pp by force
    then have "bind_r (planned_parent E b R nodes p) (stage_node b ns p) = stage_node b ns p (?v p)"
      by (metis bind_r_simps(2))
    with Cons show ?case by simp
  qed simp
  obtain ns' where n: "fold_r (\<lambda>ns p. stage_node b ns p (?v p)) nodes (map (posw R (Suc c)) K) = Inr ns'" "staged_ok b ns'"
    "\<And>q. staged_read b ns' q = (if q \<in> set (map (posw R (Suc c)) K) then Inr (?v q) else staged_read b nodes q)"
    using staged.write_all [OF ns _ pr, of ?v] K posw_in_base [OF b] by auto
  have "staged_read b ns' (posw R r k) = (if r = Suc c \<and> k \<in> set K then Inr (tree E L r k) else staged_read b nodes (posw R r k))"
    if c: "coord R r k" for r k
  proof (cases "r = Suc c \<and> k \<in> set K")
    case True
    then show ?thesis using n(3) pp by simp
  next
    case False
    then have "posw R r k \<notin> set (map (posw R (Suc c)) K)" using posw_inj [OF R c] K by auto
    then show ?thesis using n(3) False by auto
  qed
  moreover have "fold_r (\<lambda>ns (p, after). bind_r after (stage_node b ns p)) nodes
      (map (\<lambda>p. (p, planned_parent E b R nodes p)) (map (posw R (Suc c)) K)) = Inr ns'"
    using eq [of "map (posw R (Suc c)) K" nodes] n(1) by simp
  ultimately show ?thesis using that n(2) by blast
qed

text \<open>Rows above \<open>c\<close> are right except on the way from the positions \<open>K\<close> to their roots.\<close>

definition climbing :: "'d forest_env \<Rightarrow> base \<Rightarrow> staged \<Rightarrow> nat \<Rightarrow> ForestNodeData list \<Rightarrow> nat \<Rightarrow> nat set \<Rightarrow> bool" where
  "climbing E b nodes R L c K \<longleftrightarrow>
     (\<forall>r k. pop (length L) r k \<longrightarrow> (c < r \<longrightarrow> (\<forall>i\<in>K. i div 2 ^ (r - c) \<noteq> k)) \<longrightarrow>
        staged_read b nodes (posw R r k) = Inr (tree E L r k))"

lemma climbing_empty: "climbing E b nodes R L c {} \<longleftrightarrow> canon E b nodes R L"
  by (simp add: climbing_def canon_def)

lemma climbing_row:
  assumes "climbing E b nodes R L c K" and pk: "\<forall>k\<in>K. pop (length L) c k"
    and rd: "\<And>r k. coord R r k \<Longrightarrow> staged_read b ns (posw R r k) =
      (if r = Suc c \<and> k \<in> climb (length L) c K then Inr (tree E L r k) else staged_read b nodes (posw R r k))"
    and n: "length L \<le> 2 ^ R"
  shows "climbing E b ns R L (Suc c) (climb (length L) c K)"
  unfolding climbing_def
proof (intro allI impI)
  fix r k
  assume p: "pop (length L) r k" and nd: "Suc c < r \<longrightarrow> (\<forall>i\<in>climb (length L) c K. i div 2 ^ (r - Suc c) \<noteq> k)"
  show "staged_read b ns (posw R r k) = Inr (tree E L r k)"
  proof (cases "r = Suc c \<and> k \<in> climb (length L) c K")
    case True
    then show ?thesis using rd [OF pop_coord [OF n p]] by simp
  next
    case False
    have "i div 2 ^ (r - c) \<noteq> k" if cr: "c < r" and i: "i \<in> K" for i
    proof
      assume e: "i div 2 ^ (r - c) = k"
      have d: "i div 2 ^ (r - c) = i div 2 div 2 ^ (r - Suc c)"
        using cr by (metis Suc_diff_Suc div_mult2_eq power_Suc)
      have pop: "pop (length L) (Suc c) (i div 2)"
        using p e unfolding d pop_def using cr
        by (metis Suc_leI div_le_mono div_mult2_eq le_add_diff_inverse leD leI power_add)
      then have "\<not> root_at (length L) c i" using root_no_parent by blast
      then have "i div 2 \<in> climb (length L) c K" using i by (auto simp: climb_def)
      then show False using False nd e d cr by (cases "r = Suc c") auto
    qed
    then show ?thesis using assms(1) p rd [OF pop_coord [OF n p]] False by (auto simp: climbing_def)
  qed
qed

lemma stage_parents_canon:
  assumes "wf_base b R" and "unat leaves = length L" and "length L \<le> 2 ^ R"
    and "staged_ok b nodes" and "\<forall>k\<in>set K. pop (length L) c k" and "climbing E b nodes R L c (set K)"
    and "R + 2 \<le> c + fuel"
  shows "\<exists>ns. stage_parents E b leaves R fuel (map (posw R c) K) nodes = Inr ns \<and> staged_ok b ns \<and> canon E b ns R L"
  using assms(4-7)
proof (induction fuel arbitrary: c K nodes)
  case 0
  have "\<not> pop (length L) c k" for k
    using pop_coord [OF assms(3), of c k] 0(4) by (auto simp: coord_def)
  then have "K = []" using 0(2) by (cases K) auto
  with 0 show ?case by (simp add: climbing_empty)
next
  case (Suc fuel)
  show ?case
  proof (cases "K = []")
    case True
    with Suc show ?thesis by (simp add: climbing_empty)
  next
    case False
    obtain K' where K': "sort (remdups (map (\<lambda>p. parent p R) (filter (\<lambda>p. \<not> is_root_position p leaves R) (map (posw R c) K)))) =
       map (posw R (Suc c)) K'" "set K' = climb (length L) c (set K)" "distinct (map (posw R (Suc c)) K')"
      using parents_row [OF assms(1), of leaves K c] assms(2,3) Suc.prems(2) by metis
    have p: "\<forall>k\<in>set K'. pop (length L) (Suc c) k" using climb_pop [OF Suc.prems(2)] K'(2) by blast
    have ch: "staged_read b nodes (posw R c (2 * k)) = Inr (tree E L c (2 * k)) \<and>
      staged_read b nodes (posw R c (2 * k + 1)) = Inr (tree E L c (2 * k + 1))" if "k \<in> set K'" for k
      using Suc.prems(3) pop_child p that by (auto simp: climbing_def)
    obtain ns where ns: "fold_r (\<lambda>ns (p, after). bind_r after (stage_node b ns p)) nodes
       (map (\<lambda>p. (p, planned_parent E b R nodes p)) (map (posw R (Suc c)) K')) = Inr ns" "staged_ok b ns"
      "\<And>r k. coord R r k \<Longrightarrow> staged_read b ns (posw R r k) =
        (if r = Suc c \<and> k \<in> set K' then Inr (tree E L r k) else staged_read b nodes (posw R r k))"
      using stage_row [OF assms(1) Suc.prems(1) K'(3) _ ch] p pop_coord [OF assms(3)] by blast
    have "climbing E b ns R L (Suc c) (set K')"
      using climbing_row [OF Suc.prems(3,2) ns(3) [unfolded K'(2)] assms(3)] K'(2) by simp
    then obtain ns' where "stage_parents E b leaves R fuel (map (posw R (Suc c)) K') ns = Inr ns' \<and> staged_ok b ns' \<and> canon E b ns' R L"
      using Suc.IH [OF ns(2) p] Suc.prems(4) by auto
    then show ?thesis using False K'(1) ns(1) by (simp only: stage_parents.simps Let_def map_is_Nil_conv if_False bind_r_simps) blast
  qed
qed

section \<open>Deletions\<close>

definition spend :: "ForestNodeData list \<Rightarrow> nat \<Rightarrow> ForestNodeData list" where
  "spend L i = L[i := (L ! i)\<lparr>nd_spent := True\<rparr>]"

lemma length_fold_spend [simp]: "length (fold (\<lambda>i L. spend L i) is L) = length L"
  by (induction "is" arbitrary: L) (auto simp: spend_def)

lemma nth_fold_spend:
  "i \<notin> set is \<Longrightarrow> fold (\<lambda>i L. spend L i) is L ! i = L ! i"
  by (induction "is" arbitrary: L) (auto simp: spend_def)

lemma stage_deletions:
  assumes b: "wf_base b R" and "staged_ok b nodes" and n: "length L \<le> 2 ^ R"
    and "\<And>k. k < length L \<Longrightarrow> staged_read b nodes (of_nat k) = Inr (L ! k)"
    and "\<And>p. p \<in> snd ` set ds \<Longrightarrow> unat p < length L"
  shows "\<exists>ns. fold_r (stage_deletion b) nodes ds = Inr ns \<and> staged_ok b ns \<and>
    (\<forall>k<length L. staged_read b ns (of_nat k) = Inr (fold (\<lambda>i L. spend L i) (map (\<lambda>d. unat (snd d)) ds) L ! k)) \<and>
    (\<forall>q. q \<notin> snd ` set ds \<longrightarrow> staged_read b ns q = staged_read b nodes q)"
  using assms(2-5)
proof (induction ds arbitrary: nodes L)
  case Nil
  then show ?case by simp
next
  case (Cons d ds)
  let ?p = "snd d" and ?L = "spend L (unat (snd d))"
  have lt: "unat ?p < length L" using Cons.prems(4) by simp
  have "coord R 0 (unat ?p)" using lt Cons.prems(2) by (simp add: coord_def)
  then have "unat ?p < length (ff_nodes (fst b))" using posw_in_base [OF b, of 0 "unat ?p"] by simp
  then obtain ns where ns: "stage_node b nodes ?p ((L ! unat ?p)\<lparr>nd_spent := True\<rparr>) = Inr ns" "staged_ok b ns"
    "\<And>q. staged_read b ns q = (if q = ?p then Inr ((L ! unat ?p)\<lparr>nd_spent := True\<rparr>) else staged_read b nodes q)"
    using stage_node_spec [OF Cons.prems(1)] by metis
  have rd: "staged_read b nodes ?p = Inr (L ! unat ?p)" using Cons.prems(3) [OF lt] by simp
  have "stage_deletion b nodes d = Inr ns"
    unfolding stage_deletion_def rd bind_r_simps using ns(1) by (cases "L ! unat ?p") simp
  have row: "staged_read b ns (of_nat k) = Inr (?L ! k)" if "k < length ?L" for k
  proof -
    have "k < 2 ^ 64" "unat (of_nat k :: u64) = k"
    proof -
      have "(2 :: nat) ^ R \<le> 2 ^ 62" using b by (intro power_increasing) (auto simp: wf_base_def)
      then show "k < 2 ^ 64" using that Cons.prems(2) by (simp add: spend_def)
      then show "unat (of_nat k :: u64) = k" by (simp add: unat_of_nat_small)
    qed
    then show ?thesis using ns(3) [of "of_nat k"] Cons.prems(3) [of k] that lt
      by (auto simp: spend_def nth_list_update word_unat_eq_iff)
  qed
  have "length ?L \<le> 2 ^ R" "\<And>p. p \<in> snd ` set ds \<Longrightarrow> unat p < length ?L"
    using Cons.prems(2,4) by (auto simp: spend_def)
  then obtain ns' where "fold_r (stage_deletion b) ns ds = Inr ns'" "staged_ok b ns'"
    "\<And>k. k < length ?L \<Longrightarrow> staged_read b ns' (of_nat k) = Inr (fold (\<lambda>i L. spend L i) (map (\<lambda>d. unat (snd d)) ds) ?L ! k)"
    "\<And>q. q \<notin> snd ` set ds \<Longrightarrow> staged_read b ns' q = staged_read b ns q"
    using Cons.IH [OF ns(2) _ row] by blast
  then show ?case
    using ns(3) \<open>stage_deletion b nodes d = Inr ns\<close> by (intro exI [of _ ns']) (auto simp: spend_def)
qed

text \<open>Deleting spends the leaves and brings every tree above them up to date.\<close>

lemma deletions_canon:
  assumes b: "wf_base b R" and ns: "staged_ok b nodes" and l: "unat leaves = length L" and n: "length L \<le> 2 ^ R"
    and c: "canon E b nodes R L" and ds: "\<And>p. p \<in> snd ` set ds \<Longrightarrow> unat p < length L"
  shows "\<exists>ns. bind_r (fold_r (stage_deletion b) nodes ds) (stage_parents E b leaves R (R + 2) (map snd ds)) = Inr ns \<and>
    staged_ok b ns \<and> canon E b ns R (fold (\<lambda>i L. spend L i) (map (\<lambda>d. unat (snd d)) ds) L)"
proof -
  let ?is = "map (\<lambda>d. unat (snd d)) ds"
  let ?M = "fold (\<lambda>i L. spend L i) ?is L"
  have R: "R \<le> 63" using b by (simp add: wf_base_def)
  have row: "staged_read b nodes (of_nat k) = Inr (L ! k)" if "k < length L" for k
    using c that unfolding canon_def pop_def by (metis div_by_1 pos_0 power_0 tree.simps(1))
  obtain n1 where n1: "fold_r (stage_deletion b) nodes ds = Inr n1" "staged_ok b n1"
    "\<And>k. k < length L \<Longrightarrow> staged_read b n1 (of_nat k) = Inr (?M ! k)"
    "\<And>q. q \<notin> snd ` set ds \<Longrightarrow> staged_read b n1 q = staged_read b nodes q"
    using stage_deletions [OF b ns n row ds, of ds] by blast
  have "climbing E b n1 R ?M 0 (set ?is)"
    unfolding climbing_def
  proof (intro allI impI)
    fix r k
    assume p: "pop (length ?M) r k" and nd: "0 < r \<longrightarrow> (\<forall>i\<in>set ?is. i div 2 ^ (r - 0) \<noteq> k)"
    show "staged_read b n1 (posw R r k) = Inr (tree E ?M r k)"
    proof (cases r)
      case 0
      then show ?thesis using p n1(3) by (simp add: pop_def)
    next
      case (Suc r')
      have p': "pop (length L) r k" using p by simp
      have "posw R r k \<noteq> snd d" if "d \<in> set ds" for d
      proof
        assume e: "posw R r k = snd d"
        have "coord R 0 (unat (snd d))" using ds that n by (auto simp: coord_def intro: less_le_trans)
        then show False using posw_inj [OF R pop_coord [OF n p'], of 0 "unat (snd d)"] e Suc by simp
      qed
      then have "posw R r k \<notin> snd ` set ds" by blast
      then have "staged_read b n1 (posw R r k) = Inr (tree E L r k)"
        using n1(4) c p' unfolding canon_def by simp
      also have "tree E L r k = tree E ?M r k"
        using nd Suc by (intro tree_cong nth_fold_spend [symmetric]) auto
      finally show ?thesis .
    qed
  qed
  moreover have eq: "map (posw R 0) ?is = map snd ds" by simp
  moreover have "\<forall>k\<in>set ?is. pop (length ?M) 0 k" using ds by (auto simp: pop_def)
  moreover have "unat leaves = length ?M" "length ?M \<le> 2 ^ R" "R + 2 \<le> 0 + (R + 2)" using l n by simp_all
  ultimately show ?thesis
    using stage_parents_canon [OF b, of leaves ?M n1 ?is 0 E "R + 2"] n1(2)
    unfolding n1(1) bind_r_simps eq by blast
qed

section \<open>Additions\<close>

lemma pop_Suc: "pop (Suc n) r k \<Longrightarrow> pop n r k \<or> k = n div 2 ^ r \<and> Suc n div 2 ^ r = Suc (n div 2 ^ r)"
  unfolding pop_def by (metis div_le_mono div_Suc less_SucE less_antisym)

lemma even_no_carry:
  assumes "even (n div 2 ^ c)" and "c < r"
  shows "Suc n div 2 ^ r = n div 2 ^ r"
proof -
  have s: "Suc n div 2 ^ c = n div 2 ^ c \<or> Suc n div 2 ^ c = Suc (n div 2 ^ c)" by (metis div_Suc)
  have "Suc n div 2 ^ c div 2 = n div 2 ^ c div 2" using s assms(1) by (elim disjE) simp_all
  moreover have "m div 2 ^ r = m div 2 ^ c div 2 div 2 ^ (r - Suc c)" for m :: nat
    using assms(2) by (metis Suc_leI div_mult2_eq le_add_diff_inverse power_Suc power_add mult.commute)
  ultimately show ?thesis by simp
qed

lemma merge_roots_canon:
  assumes b: "wf_base b R" and l: "unat leaves = length L" and n: "Suc (length L) \<le> 2 ^ R"
    and "staged_ok b nodes" and "pop (Suc (length L)) c (length L div 2 ^ c)"
    and "\<And>r k. pop (length L) r k \<or> r \<le> c \<and> k = length L div 2 ^ r \<Longrightarrow>
      staged_read b nodes (posw R r k) = Inr (tree E (L @ [x]) r k)"
  shows "\<exists>ns. merge_roots E b leaves R c (posw R c (length L div 2 ^ c)) nodes = Inr ns \<and> staged_ok b ns \<and>
    canon E b ns R (L @ [x])"
  using assms(4-6)
proof (induction "R - c" arbitrary: c nodes rule: less_induct)
  case less
  let ?n = "length L"
  let ?m = "?n div 2 ^ c"
  have R: "R \<le> 63" using b by (simp add: wf_base_def)
  note co = pop_coord [OF n]
  show ?case
  proof (cases "even ?m")
    case True
    then have stop: "merge_roots E b leaves R c (posw R c ?m) nodes = Inr nodes"
      using leaves_bit [of leaves c] l by (subst merge_roots.simps) simp
    have "staged_read b nodes (posw R r k) = Inr (tree E (L @ [x]) r k)" if "pop (Suc ?n) r k" for r k
      using pop_Suc [OF that] even_no_carry [OF True, of r] less.prems(3) [of r k]
      by (cases "c < r") auto
    then show ?thesis using stop less.prems(1) by (simp add: canon_def)
  next
    case False
    have m: "?m = 2 * (?m div 2) + 1" using False by (metis odd_two_times_div_two_succ)
    have p: "pop (Suc ?n) (Suc c) (?m div 2)" using less.prems(2) m by (metis Suc_eq_plus1 pop_parent)
    have cR: "c < R" using co [OF p] by (simp add: coord_def)
    have np: "\<not> pop ?n (Suc c) (?m div 2)" unfolding pop_def div_power_Suc by simp
    have "unat leaves < 2 ^ (R + 1)" using l n by simp
    then have "root_position leaves c R = posw R c (2 * (?m div 2))"
      using root_position_posw [of leaves R c, OF _ less_imp_le [OF cR] R] l n by (simp add: div_power_Suc [symmetric] del: power_Suc)
    moreover have "pop ?n c (2 * (?m div 2))" using m by (simp add: pop_def)
    ultimately have left: "staged_read b nodes (root_position leaves c R) = Inr (tree E (L @ [x]) c (2 * (?m div 2)))"
      using less.prems(3) by simp
    have right: "staged_read b nodes (posw R c ?m) = Inr (tree E (L @ [x]) c (2 * (?m div 2) + 1))"
      using less.prems(3) [of c ?m] m by simp
    have par: "parent (posw R c ?m) R = posw R (Suc c) (?n div 2 ^ Suc c)"
      using parent_posw [OF co [OF less.prems(2)] cR R] by (simp add: div_power_Suc del: power_Suc)
    obtain n1 where n1: "stage_node b nodes (posw R (Suc c) (?n div 2 ^ Suc c)) (tree E (L @ [x]) (Suc c) (?m div 2)) = Inr n1" "staged_ok b n1"
      "\<And>q. staged_read b n1 q = (if q = posw R (Suc c) (?n div 2 ^ Suc c) then Inr (tree E (L @ [x]) (Suc c) (?m div 2)) else staged_read b nodes q)"
      using stage_node_spec [OF less.prems(1) posw_in_base [OF b co [OF p]]] unfolding div_power_Suc by metis
    have "staged_read b n1 (posw R r k) = Inr (tree E (L @ [x]) r k)"
      if h: "pop ?n r k \<or> r \<le> Suc c \<and> k = ?n div 2 ^ r" for r k
    proof (cases "r = Suc c \<and> k = ?m div 2")
      case True
      then show ?thesis using n1(3) by (simp add: div_power_Suc del: power_Suc)
    next
      case False
      have old: "pop ?n r k \<or> r \<le> c \<and> k = ?n div 2 ^ r" using h False by (auto simp: div_power_Suc le_Suc_eq simp del: power_Suc)
      have "coord R r k"
      proof -
        have "pop ?n r k \<Longrightarrow> pop (Suc ?n) r k" by (auto simp: pop_def intro: less_le_trans div_le_mono)
        moreover have "r \<le> c \<Longrightarrow> coord R r (?n div 2 ^ r)"
          using n cR by (simp add: coord_def) (metis Suc_le_eq le_add_diff_inverse2 less_mult_imp_div_less less_or_eq_imp_le order_le_less_trans power_add)
        ultimately show ?thesis using old co by blast
      qed
      then show ?thesis
        using old n1(3) less.prems(3) posw_inj [OF R _ co [OF p], of r k] False by (auto simp: div_power_Suc simp del: power_Suc)
    qed
    then obtain n2 where "merge_roots E b leaves R (Suc c) (posw R (Suc c) (?n div 2 ^ Suc c)) n1 = Inr n2" "staged_ok b n2"
      "canon E b n2 R (L @ [x])"
      using less.hyps [of "Suc c" n1] n1(2) p diff_less_mono2 [OF lessI cR] unfolding div_power_Suc by blast
    then show ?thesis
      using left right par n1(1) False leaves_bit [of leaves c] l by (subst merge_roots.simps) simp
  qed
qed

lemma stage_addition_canon:
  assumes b: "wf_base b R" and ns: "staged_ok b nodes" and l: "unat leaves = length L" and n: "Suc (length L) \<le> 2 ^ R"
    and c: "canon E b nodes R L"
  shows "\<exists>ns. stage_addition E b R (nodes, leaves, added) (p, h) =
      Inr (ns, leaves + 1, added @ [\<lparr>ix_outpoint = p, ix_position = leaves\<rparr>]) \<and>
    staged_ok b ns \<and> canon E b ns R (L @ [\<lparr>nd_hash = h, nd_spent = False\<rparr>]) \<and> unat (leaves + 1) = Suc (length L)"
proof -
  let ?n = "length L" and ?x = "\<lparr>nd_hash = h, nd_spent = False\<rparr>"
  have R: "R \<le> 63" using b by (simp add: wf_base_def)
  have co: "coord R 0 ?n" using n by (simp add: coord_def)
  have lv: "leaves = posw R 0 ?n" using l by (metis of_nat_unat pos_0 ucast_id)
  obtain n1 where n1: "stage_node b nodes leaves ?x = Inr n1" "staged_ok b n1"
    "\<And>q. staged_read b n1 q = (if q = leaves then Inr ?x else staged_read b nodes q)"
    using stage_node_spec [OF ns] posw_in_base [OF b co] lv by metis
  have "staged_read b n1 (posw R r k) = Inr (tree E (L @ [?x]) r k)"
    if h: "pop ?n r k \<or> r \<le> 0 \<and> k = ?n div 2 ^ r" for r k
  proof (cases "pop ?n r k")
    case True
    have "coord R r k" using pop_coord [of ?n R] n True by simp
    moreover have "r \<noteq> 0 \<or> k \<noteq> ?n" using True by (auto simp: pop_def)
    ultimately have "posw R r k \<noteq> leaves" using posw_inj [OF R _ co] unfolding lv by blast
    then show ?thesis using n1(3) c True tree_append [OF True, of E "[?x]"] by (simp add: canon_def)
  next
    case False
    then show ?thesis using h n1(3) lv by simp
  qed
  then obtain n2 where "merge_roots E b leaves R 0 (posw R 0 (?n div 2 ^ 0)) n1 = Inr n2" "staged_ok b n2"
    "canon E b n2 R (L @ [?x])"
    using merge_roots_canon [OF b l n n1(2), of 0 E ?x] by (auto simp: pop_def)
  moreover have "unat (leaves + 1) = Suc ?n"
  proof -
    have "(2 :: nat) ^ R \<le> 2 ^ 62" using b by (intro power_increasing) (auto simp: wf_base_def)
    then have "Suc ?n < 2 ^ 64" using n by simp
    then show ?thesis using l by (simp add: unat_word_ariths)
  qed
  ultimately show ?thesis using n1(1) lv by (intro exI [of _ n2]) (simp add: stage_addition_def)
qed

definition new_leaves :: "(OutPoint \<times> bytes) list \<Rightarrow> ForestNodeData list" where
  "new_leaves additions = map (\<lambda>a. \<lparr>nd_hash = snd a, nd_spent = False\<rparr>) additions"

fun added_entries :: "u64 \<Rightarrow> (OutPoint \<times> bytes) list \<Rightarrow> JournalIndexDelta list" where
  "added_entries leaves [] = []"
| "added_entries leaves (a # as) = \<lparr>ix_outpoint = fst a, ix_position = leaves\<rparr> # added_entries (leaves + 1) as"

lemma length_added_entries [simp]: "length (added_entries leaves as) = length as"
  by (induction as arbitrary: leaves) auto

lemma additions_canon:
  assumes b: "wf_base b R" and "staged_ok b nodes" and "unat leaves = length L" and "length L + length as \<le> 2 ^ R"
    and "canon E b nodes R L"
  shows "\<exists>ns. fold_r (stage_addition E b R) (nodes, leaves, added) as =
      Inr (ns, leaves + of_nat (length as), added @ added_entries leaves as) \<and>
    staged_ok b ns \<and> canon E b ns R (L @ new_leaves as)"
  using assms(2-5)
proof (induction as arbitrary: nodes leaves L added)
  case Nil
  then show ?case by (simp add: new_leaves_def)
next
  case (Cons a as)
  obtain p h where a: "a = (p, h)" by (cases a)
  let ?x = "\<lparr>nd_hash = h, nd_spent = False\<rparr>"
  obtain n1 where n1: "stage_addition E b R (nodes, leaves, added) a =
      Inr (n1, leaves + 1, added @ [\<lparr>ix_outpoint = p, ix_position = leaves\<rparr>])" "staged_ok b n1"
    "canon E b n1 R (L @ [?x])" "unat (leaves + 1) = length (L @ [?x])"
    using stage_addition_canon [OF b Cons.prems(1,2) _ Cons.prems(4), of added p h] Cons.prems(3) a by auto
  obtain n2 where "fold_r (stage_addition E b R) (n1, leaves + 1, added @ [\<lparr>ix_outpoint = p, ix_position = leaves\<rparr>]) as =
      Inr (n2, leaves + 1 + of_nat (length as), (added @ [\<lparr>ix_outpoint = p, ix_position = leaves\<rparr>]) @ added_entries (leaves + 1) as)"
    "staged_ok b n2" "canon E b n2 R ((L @ [?x]) @ new_leaves as)"
    using Cons.IH [OF n1(2,4) _ n1(3)] Cons.prems(3) by fastforce
  then show ?case
    using n1(1) a by (intro exI [of _ n2]) (simp add: new_leaves_def add.assoc)
qed

section \<open>The planned deltas\<close>

abbreviation delta_writes :: "JournalForestDelta list \<Rightarrow> (u64 \<Rightarrow> JournalNodeState option) \<Rightarrow> u64 \<Rightarrow> JournalNodeState option" where
  "delta_writes ds m \<equiv> fold (\<lambda>d m. m(fd_position d \<mapsto> fd_after d)) ds m"

lemma delta_writes_other: "p \<notin> fd_position ` set ds \<Longrightarrow> delta_writes ds m p = m p"
  by (induction ds arbitrary: m) auto

lemma delta_writes_mem:
  "distinct (map fd_position ds) \<Longrightarrow> d \<in> set ds \<Longrightarrow> delta_writes ds m (fd_position d) = Some (fd_after d)"
  by (induction ds arbitrary: m) (auto simp: delta_writes_other)

lemma map_sort_key: "map f (sort_key f xs) = sort (map f xs)"
proof -
  have "map f (insort_key f x xs) = insort (f x) (map f xs)" for x xs by (induction xs) auto
  then show ?thesis by (induction xs) auto
qed

lemma planned_deltas:
  assumes "staged_ok b ns" and "ds = sort_key fd_position (map planned_delta ns)"
  shows "sorted_wrt (<) (map fd_position ds)"
    and "\<forall>d\<in>set ds. base_state b (fd_position d) = Inr (fd_before d) \<and> jn_ready (fd_after d) \<and>
      unat (fd_position d) < length (ff_nodes (fst b))"
    and "staged_read (fst b, delta_writes ds (snd b)) [] p = staged_read b ns p"
proof -
  have fst: "map fd_position (map planned_delta ns) = map fst ns" by (simp add: planned_delta_def comp_def)
  have d: "distinct (map fd_position ds)"
    unfolding assms(2) map_sort_key fst using assms(1) by (simp add: staged_ok_def)
  have "sorted (map fd_position ds)" using assms(2) by simp
  with d show "sorted_wrt (<) (map fd_position ds)" using strict_sorted_iff by blast
  show "\<forall>d\<in>set ds. base_state b (fd_position d) = Inr (fd_before d) \<and> jn_ready (fd_after d) \<and>
      unat (fd_position d) < length (ff_nodes (fst b))"
    using assms by (auto simp: staged_ok_def planned_delta_def)
  have s: "set ds = planned_delta ` set ns" using assms(2) by simp
  show "staged_read (fst b, delta_writes ds (snd b)) [] p = staged_read b ns p"
  proof (cases "map_of ns p")
    case None
    then have "p \<notin> fd_position ` set ds" unfolding s map_of_eq_None_iff by (auto simp: planned_delta_def image_iff)
    then show ?thesis using None delta_writes_other [of p ds]
      by (cases "snd b p") (simp_all add: staged_read_def)
  next
    case (Some n)
    then have "planned_delta (p, n) \<in> set ds" unfolding s by (auto dest: map_of_SomeD)
    from delta_writes_mem [OF d this, of "snd b"] show ?thesis
      using Some by (simp add: staged_read_def planned_delta_def)
  qed
qed

text \<open>The forest and an overlay together hold the trees over \<open>L\<close>.\<close>

definition canonical :: "'d forest_env \<Rightarrow> 'd SteadyStateForest \<Rightarrow> (u64 \<Rightarrow> JournalNodeState option) \<Rightarrow> ForestNodeData list \<Rightarrow> bool" where
  "canonical E s overlay L \<longleftrightarrow>
     sf_rows s \<le> 62 \<and> length (ff_nodes (sf_forest s)) = 2 ^ (sf_rows s + 1) - 1 \<and> length L \<le> 2 ^ sf_rows s \<and>
     (\<forall>r k. pop (length L) r k \<longrightarrow> read_with_overlay s overlay (posw (sf_rows s) r k) = Inr (tree E L r k))"

lemma read_is_staged: "read_with_overlay s overlay p = staged_read (sf_forest s, overlay) [] p"
  by (cases "overlay p") (simp_all add: read_with_overlay_def staged_read_def)

lemma canonical_iff:
  "canonical E s overlay L \<longleftrightarrow> wf_base (sf_forest s, overlay) (sf_rows s) \<and> length L \<le> 2 ^ sf_rows s \<and>
     canon E (sf_forest s, overlay) [] (sf_rows s) L"
  by (auto simp: canonical_def wf_base_def canon_def read_is_staged)

abbreviation after_block :: "ForestNodeData list \<Rightarrow> (OutPoint \<times> u64) list \<Rightarrow> (OutPoint \<times> bytes) list \<Rightarrow> ForestNodeData list" where
  "after_block L deletions additions \<equiv>
     fold (\<lambda>i L. spend L i) (map (\<lambda>d. unat (snd d)) deletions) L @ new_leaves additions"

lemma checked_shl_one_eq: "R \<le> 62 \<Longrightarrow> \<exists>c. checked_shl_one R = Some c \<and> unat c = 2 ^ R"
  by (simp add: checked_shl_one_def unat_two_power push_bit_eq_mult)

lemma plan_update_spec:
  assumes c: "canonical E s overlay L" and l: "unat leaves = length L"
    and n: "length L + length additions \<le> 2 ^ sf_rows s"
    and ds: "\<And>p. p \<in> snd ` set deletions \<Longrightarrow> unat p < length L"
  shows "\<exists>e. plan_update_with_overlay E s height bh pbh leaves overlay deletions additions = Inr e \<and>
    canonical E s (delta_writes (je_forest e) overlay) (after_block L deletions additions) \<and>
    unat (je_num_leaves e) = length L + length additions \<and>
    je_height e = height \<and> je_block_hash e = bh \<and> je_previous_block_hash e = pbh \<and>
    je_removed e = map (\<lambda>(p, position). \<lparr>ix_outpoint = p, ix_position = position\<rparr>) deletions \<and>
    je_added e = added_entries leaves additions \<and> je_forest_rows e = Some (of_nat (sf_rows s)) \<and>
    sorted_wrt (<) (map fd_position (je_forest e)) \<and>
    (\<forall>d\<in>set (je_forest e). base_state (sf_forest s, overlay) (fd_position d) = Inr (fd_before d) \<and>
      jn_ready (fd_after d) \<and> unat (fd_position d) < length (ff_nodes (sf_forest s)))"
proof -
  let ?b = "(sf_forest s, overlay)" and ?R = "sf_rows s"
  let ?M = "fold (\<lambda>i L. spend L i) (map (\<lambda>d. unat (snd d)) deletions) L"
  have b: "wf_base ?b ?R" and nL: "length L \<le> 2 ^ ?R" and cn: "canon E ?b [] ?R L"
    using c by (simp_all add: canonical_iff)
  have ok: "staged_ok ?b []" using wf_base_bound [OF b] by (simp add: staged_ok_def)
  obtain n1 where n1: "bind_r (fold_r (stage_deletion ?b) [] deletions) (stage_parents E ?b leaves ?R (?R + 2) (map snd deletions)) = Inr n1"
    "staged_ok ?b n1" "canon E ?b n1 ?R ?M"
    using deletions_canon [OF b ok l nL cn ds, of deletions] by blast
  have "unat leaves = length ?M" "length ?M + length additions \<le> 2 ^ ?R" using l n by simp_all
  then obtain n2 where n2: "fold_r (stage_addition E ?b ?R) (n1, leaves, []) additions =
      Inr (n2, leaves + of_nat (length additions), added_entries leaves additions)" "staged_ok ?b n2"
    "canon E ?b n2 ?R (after_block L deletions additions)"
    using additions_canon [OF b n1(2) _ _ n1(3), of leaves additions "[]"] by auto
  let ?fd = "sort_key fd_position (map planned_delta n2)"
  obtain cap where cap: "checked_shl_one ?R = Some cap" "unat cap = 2 ^ ?R"
    using checked_shl_one_eq b by (auto simp: wf_base_def)
  have small: "length L + length additions < 2 ^ 64"
  proof -
    have "(2 :: nat) ^ ?R \<le> 2 ^ 62" using b by (intro power_increasing) (auto simp: wf_base_def)
    then show ?thesis using n by simp
  qed
  then have un: "unat (of_nat (length additions) :: u64) = length additions" by (simp add: unat_of_nat_small)
  have sum: "unat (leaves + of_nat (length additions)) = length L + length additions"
    using small l un by (simp add: unat_word_ariths)
  have add: "checked_add leaves (of_nat (length additions)) = Some (leaves + of_nat (length additions))"
    using small l un by (simp add: checked_add_def)
  have "\<not> leaves + of_nat (length additions) > cap" using sum cap n by (simp add: word_less_nat_alt)
  moreover obtain n0 where "fold_r (stage_deletion ?b) [] deletions = Inr n0"
    "stage_parents E ?b leaves ?R (?R + 2) (map snd deletions) n0 = Inr n1" using n1(1) by auto
  ultimately have "plan_update_with_overlay E s height bh pbh leaves overlay deletions additions =
    Inr \<lparr>je_height = height, je_block_hash = bh, je_num_leaves = leaves + of_nat (length additions),
         je_previous_block_hash = pbh, je_forest = ?fd,
         je_removed = map (\<lambda>(p, position). \<lparr>ix_outpoint = p, ix_position = position\<rparr>) deletions,
         je_added = added_entries leaves additions, je_forest_rows = Some (of_nat ?R)\<rparr>"
    using cap(1) add n2(1) by (simp add: plan_update_with_overlay_def Let_def del: stage_parents.simps)
  moreover have "canonical E s (delta_writes ?fd overlay) (after_block L deletions additions)"
    using n2(3) b n planned_deltas(3) [OF n2(2) refl] by (auto simp: canonical_iff canon_def wf_base_def new_leaves_def)
  ultimately show ?thesis using sum planned_deltas(1,2) [OF n2(2) refl] by simp
qed

section \<open>Roots\<close>

lemma roots_from_canonical:
  assumes "unat leaves = length L" and "length L \<le> 2 ^ R" and "R \<le> 62" and "set rs \<subseteq> {..R}"
    and "\<And>r k. pop (length L) r k \<Longrightarrow> rd (posw R r k) = Inr (tree E L r k)"
  shows "roots_from E rd leaves R rs =
    Inr [accumulator_hash E (tree E L r (length L div 2 ^ r - 1)). r \<leftarrow> rs, odd (length L div 2 ^ r)]"
  using assms(4)
proof (induction rs)
  case Nil
  then show ?case by simp
next
  case (Cons r rs)
  show ?case
  proof (cases "odd (length L div 2 ^ r)")
    case False
    then show ?thesis using Cons leaves_bit [of leaves r] assms(1) by simp
  next
    case True
    have "unat leaves < 2 ^ (R + 1)" using assms(1,2) le_less_trans [of "length L" "2 ^ R" "2 ^ (R + 1)"] by simp
    then have "root_position leaves r R = posw R r (length L div 2 ^ r - 1)"
      using root_position_posw [of leaves R r] Cons.prems assms(1,3) True root_at_offset [of "length L" r "length L div 2 ^ r - 1"]
      by (simp add: root_at_def)
    moreover have "pop (length L) r (length L div 2 ^ r - 1)" using True by (auto simp: pop_def elim: oddE)
    ultimately have "rd (root_position leaves r R) = Inr (tree E L r (length L div 2 ^ r - 1))" using assms(5) by simp
    then show ?thesis using Cons True leaves_bit [of leaves r] assms(1) by simp
  qed
qed

text \<open>Rows above the forest have no root.\<close>

lemma roots_of_rows:
  assumes "length L \<le> 2 ^ R" and "R \<le> 62"
  shows "roots_of E L = [accumulator_hash E (tree E L r (length L div 2 ^ r - 1)). r \<leftarrow> rev [0..<R + 1], odd (length L div 2 ^ r)]"
proof -
  let ?g = "\<lambda>r. if odd (length L div 2 ^ r) then [accumulator_hash E (tree E L r (length L div 2 ^ r - 1))] else []"
  have "R + 1 + (63 - R) = 64" using assms(2) by simp
  then have "[0..<64] = [0..<R + 1] @ [R + 1..<64]" using upt_add_eq_append [of 0 "R + 1" "63 - R"] by (metis zero_le)
  then have "rev [0..<64] = rev [R + 1..<64] @ rev [0..<R + 1]" by (metis rev_append)
  moreover have "concat (map ?g (rev [R + 1..<64])) = []"
  proof -
    have "length L div 2 ^ r = 0" if "R < r" for r
      using le_less_trans [OF assms(1) power_strict_increasing [OF that, of "2 :: nat"]] by simp
    then show ?thesis by simp
  qed
  ultimately show ?thesis unfolding roots_of_def by (simp only: map_append concat_append append_Nil)
qed

lemma roots_canonical:
  assumes "unat leaves = length L" and "length L \<le> 2 ^ R" and "R \<le> 62"
    and "\<And>r k. pop (length L) r k \<Longrightarrow> rd (posw R r k) = Inr (tree E L r k)"
  shows "roots_from E rd leaves R (rev [0..<R + 1]) = Inr (roots_of E L)"
proof -
  have "set (rev [0..<R + 1]) \<subseteq> {..R}" by auto
  from roots_from_canonical [OF assms(1-3) this assms(4)] show ?thesis
    unfolding roots_of_rows [OF assms(2,3)] .
qed

lemma previous_num_leaves_eq:
  assumes "unat (je_num_leaves e) = unat leaves + length (je_added e)"
  shows "previous_num_leaves e = Inr leaves"
proof -
  have "length (je_added e) < 2 ^ 64" using assms unsigned_less [of "je_num_leaves e", where 'a = nat] by simp
  then have u: "unat (of_nat (length (je_added e)) :: u64) = length (je_added e)" by (simp add: unat_of_nat_small)
  then have "of_nat (length (je_added e)) \<le> je_num_leaves e" using assms by (simp add: word_le_nat_alt)
  moreover from this have "je_num_leaves e - of_nat (length (je_added e)) = leaves"
    using assms u by (simp add: word_unat_eq_iff unat_sub)
  ultimately show ?thesis by (simp add: previous_num_leaves_def checked_sub_def)
qed

text \<open>Reading a changed node, the overlay or the forest for a root agrees with reading through the pushed overlay.\<close>

lemma changed_read:
  assumes "read_with_overlay s (delta_writes ds overlay) p = Inr v"
  shows "bind_r (case delta_writes ds Map.empty p of
      Some st \<Rightarrow> Inr st | None \<Rightarrow> base_state (sf_forest s, overlay) p) (\<lambda>st.
        if \<not> jn_ready st then bail m else Inr \<lparr>nd_hash = jn_hash st, nd_spent = jn_spent st\<rparr>) = Inr v"
proof -
  have w: "delta_writes ds overlay p = (case delta_writes ds Map.empty p of Some st \<Rightarrow> Some st | None \<Rightarrow> overlay p)"
    by (induction ds rule: rev_induct) auto
  show ?thesis
    using assms unfolding read_with_overlay_def w
    by (cases "delta_writes ds Map.empty p"; cases "overlay p")
      (auto simp: base_state_def journal_state_def bind_r_def ok_or_def split: option.splits if_splits sum.splits)
qed

section \<open>Properties\<close>

text \<open>C20. Planning a block is correct: on a forest whose positions, seen through the overlay, hold
  the trees over the leaves \<open>L\<close>, \<open>plan_update\<close> succeeds for every list of deleted leaf positions
  below the leaf count and every list of additions that fits the capacity; the entry, pushed on
  the overlay, makes the forest hold the trees over the leaves with the deleted ones spent and the
  new ones appended (all rows, all roots, whatever is shared between the deleted paths); it
  records each touched position once, in ascending order, with the state it really had before.\<close>

theorem plan_update_canonical:
  assumes "canonical E s (ov_nodes ov) L" and "unat leaves = length L"
    and "length L + length additions \<le> 2 ^ sf_rows s"
    and "\<forall>p\<in>snd ` set deletions. unat p < length L"
  shows "\<exists>e. plan_update_with_overlay E s height bh pbh leaves (ov_nodes ov) deletions additions = Inr e \<and>
    canonical E s (ov_nodes (push ov e)) (after_block L deletions additions) \<and>
    unat (je_num_leaves e) = length L + length additions \<and>
    previous_num_leaves e = Inr leaves \<and>
    sorted_wrt (<) (map fd_position (je_forest e)) \<and>
    (\<forall>d\<in>set (je_forest e). base_state (sf_forest s, ov_nodes ov) (fd_position d) = Inr (fd_before d))"
proof -
  obtain e where e: "plan_update_with_overlay E s height bh pbh leaves (ov_nodes ov) deletions additions = Inr e"
    "canonical E s (delta_writes (je_forest e) (ov_nodes ov)) (after_block L deletions additions)"
    "unat (je_num_leaves e) = length L + length additions" "je_added e = added_entries leaves additions"
    "sorted_wrt (<) (map fd_position (je_forest e))"
    "\<forall>d\<in>set (je_forest e). base_state (sf_forest s, ov_nodes ov) (fd_position d) = Inr (fd_before d)"
    using plan_update_spec [OF assms(1-3), of deletions height bh pbh] assms(4) by blast
  then have "previous_num_leaves e = Inr leaves" using previous_num_leaves_eq assms(2) by simp
  then show ?thesis using e by (intro exI [of _ e]) (auto simp: push_def)
qed

text \<open>C21. The roots announced for a planned block are the roots of the accumulator after it: for a
  canonical forest \<open>roots_after\<close> of the planned entry returns, from the highest row down, the hash
  of the tree of each set bit of the new leaf count (the empty hash for a spent tree), computed
  from the new leaves alone.\<close>

theorem roots_after_plan:
  assumes "canonical E s (ov_nodes ov) L" and "unat leaves = length L"
    and "length L + length additions \<le> 2 ^ sf_rows s"
    and "\<forall>p\<in>snd ` set deletions. unat p < length L"
    and "plan_update_with_overlay E s height bh pbh leaves (ov_nodes ov) deletions additions = Inr e"
  shows "roots_after_with_overlay E s e leaves (ov_nodes ov) = Inr (roots_of E (after_block L deletions additions))"
proof -
  let ?L = "after_block L deletions additions" and ?R = "sf_rows s"
  have e: "canonical E s (delta_writes (je_forest e) (ov_nodes ov)) ?L" "unat (je_num_leaves e) = length ?L"
    "je_added e = added_entries leaves additions" "unat (je_num_leaves e) = length L + length additions"
    using plan_update_spec [OF assms(1-3), of deletions height bh pbh] assms(4,5) by (auto simp: new_leaves_def)
  have prev: "previous_num_leaves e = Inr leaves" using previous_num_leaves_eq e(3,4) assms(2) by simp
  let ?rd = "\<lambda>position. bind_r (case delta_writes (je_forest e) Map.empty position of
      Some st \<Rightarrow> Inr st | None \<Rightarrow> base_state (sf_forest s, ov_nodes ov) position) (\<lambda>st.
        if \<not> jn_ready st then bail ''planned root position is uninitialized''
        else Inr \<lparr>nd_hash = jn_hash st, nd_spent = jn_spent st\<rparr>)"
  have "?rd (posw ?R r k) = Inr (tree E ?L r k)" if "pop (length ?L) r k" for r k
    by (rule changed_read) (use e(1) that in \<open>simp add: canonical_def\<close>)
  then have "roots_from E ?rd (je_num_leaves e) ?R (rev [0..<?R + 1]) = Inr (roots_of E ?L)"
    using roots_canonical [OF e(2), of ?R ?rd E] e(1) unfolding canonical_def by blast
  then show ?thesis unfolding roots_after_with_overlay_def Let_def prev bind_r_simps by simp
qed

section \<open>Concrete instances\<close>

text \<open>A leaf map that is a finite map, and a hash that adds.\<close>

definition example_fenv :: "(bytes \<Rightarrow> bytes option) forest_env" where
  "example_fenv =
     \<lparr>fe_parent_hash = (\<lambda>a b. map2 (+) a b), fe_empty_hash = replicate 32 0, fe_sha = (\<lambda>b. take 32 (b @ replicate 32 0)),
      db_open_runtime = Inr, db_fetch = (\<lambda>d ks. Inr (map d ks)), db_put = (\<lambda>d k v. Inr (d(k \<mapsto> v))),
      db_delete = (\<lambda>d ks. Inr (\<lambda>k. if k \<in> set ks then None else d k)),
      db_put_batch = (\<lambda>d kvs. Inr (d ++ map_of kvs)), db_compact = (\<lambda>d n. Inr d), db_sync = Inr, db_view = (\<lambda>d. d)\<rparr>"

lemma example_db_ok: "db_ok example_fenv" "db_opens example_fenv" "db_puts example_fenv"
  by (auto simp: db_ok_def db_opens_def db_puts_def example_fenv_def map_add_def split: option.split)

definition example_steady :: "(bytes \<Rightarrow> bytes option) SteadyStateForest" where
  "example_steady =
     \<lparr>sf_forest = \<lparr>ff_nodes = replicate 7 zero_node, ff_marker = None\<rparr>, sf_map = Map.empty, sf_leaves = 0, sf_rows = 2\<rparr>"

definition example_outpoint :: "u8 \<Rightarrow> OutPoint" where
  "example_outpoint i = \<lparr>op_txid = replicate 32 i, op_vout = 0\<rparr>"

definition example_additions :: "(OutPoint \<times> bytes) list" where
  "example_additions = map (\<lambda>i. (example_outpoint i, replicate 32 i)) [1, 2, 3]"

lemma canonical_empty:
  "sf_rows s \<le> 62 \<Longrightarrow> length (ff_nodes (sf_forest s)) = 2 ^ (sf_rows s + 1) - 1 \<Longrightarrow> canonical E s overlay []"
  by (simp add: canonical_def pop_def)

lemma example_first_block:
  "\<exists>e. plan_update_with_overlay example_fenv example_steady 1 [] [] 0 (ov_nodes empty_overlay) [] example_additions = Inr e \<and>
     canonical example_fenv example_steady (ov_nodes (push empty_overlay e)) (new_leaves example_additions)"
proof -
  have c: "canonical example_fenv example_steady (ov_nodes empty_overlay) []"
    by (rule canonical_empty) (simp_all add: example_steady_def)
  have "length ([] :: ForestNodeData list) + length example_additions \<le> 2 ^ sf_rows example_steady"
    by (simp add: example_additions_def example_steady_def)
  from plan_update_spec [OF c _ this, of 0 "[]" 1 "[]" "[]"] show ?thesis by (auto simp: push_def)
qed

text \<open>After three leaves, the second is deleted and one is added.\<close>

theorem plan_update_canonical_witness:
  "\<exists>ov e. canonical example_fenv example_steady (ov_nodes ov) (new_leaves example_additions) \<and>
     plan_update_with_overlay example_fenv example_steady 2 [] [] 3 (ov_nodes ov) [(example_outpoint 2, 1)] [(example_outpoint 9, replicate 32 9)] = Inr e \<and>
     canonical example_fenv example_steady (ov_nodes (push ov e))
       (after_block (new_leaves example_additions) [(example_outpoint 2, 1)] [(example_outpoint 9, replicate 32 9)])"
proof -
  obtain ov :: ForestOverlay where ov: "canonical example_fenv example_steady (ov_nodes ov) (new_leaves example_additions)"
    using example_first_block by metis
  have "\<forall>p\<in>snd ` set [(example_outpoint 2, 1 :: u64)]. unat p < length (new_leaves example_additions)"
    by (simp add: new_leaves_def example_additions_def)
  from plan_update_canonical [OF ov, of 3 "[(example_outpoint 9, replicate 32 9)]", OF _ _ this, of 2 "[]" "[]"] ov show ?thesis
    by (auto simp: new_leaves_def example_additions_def example_steady_def)
qed

theorem roots_after_plan_witness:
  "\<exists>e. plan_update_with_overlay example_fenv example_steady 1 [] [] 0 (ov_nodes empty_overlay) [] example_additions = Inr e \<and>
     roots_after_with_overlay example_fenv example_steady e 0 (ov_nodes empty_overlay) = Inr [replicate 32 3, replicate 32 3]"
proof -
  obtain e where e: "plan_update_with_overlay example_fenv example_steady 1 [] [] 0 (ov_nodes empty_overlay) [] example_additions = Inr e"
    using example_first_block by blast
  have c: "canonical example_fenv example_steady (ov_nodes empty_overlay) []"
    by (rule canonical_empty) (simp_all add: example_steady_def)
  have "length ([] :: ForestNodeData list) + length example_additions \<le> 2 ^ sf_rows example_steady"
    by (simp add: example_additions_def example_steady_def)
  note r = roots_after_plan [OF c _ this _ e]
  have l: "length (new_leaves example_additions) \<le> 2 ^ 2" by (simp add: new_leaves_def example_additions_def)
  have "roots_of example_fenv (new_leaves example_additions) = [replicate 32 3, replicate 32 3]"
  proof -
    have "rev [0..<2 + 1] = [2, 1, 0 :: nat]" by code_simp
    moreover have "map2 (+) (replicate 32 1) (replicate 32 2) = replicate 32 (3 :: u8)" by (simp add: zip_replicate)
    ultimately show ?thesis
      using roots_of_rows [OF l, of example_fenv]
      by (simp add: new_leaves_def example_additions_def accumulator_hash_def combine_children_def example_fenv_def)
  qed
  then show ?thesis using r e by simp
qed

end
