(* ===== verification/Proof_Positions.thy ===== *)
theory Proof_Positions
  imports Forest_Canon
begin

text \<open>
  Proofs over the promoted forest (\<open>src/src/parallel_forest.rs\<close>): a leaf whose siblings are spent
  moves up, so proof positions differ from storage positions. Here are the translation of leaf
  positions, singly and for a whole block at once, and the hash of a proof position, found by
  walking down the stored forest. They are shown to agree: the hashes of the siblings on the way
  from a translated position to its root combine with the leaf's hash to the root.
\<close>

section \<open>From leaf positions to proof positions\<close>

text \<open>The walk to the root; a live sibling contributes one direction. A position below a root
  reaches it within \<open>rows\<close> steps.\<close>

fun proof_climb :: "u64 \<Rightarrow> nat \<Rightarrow> (u64 \<Rightarrow> bool res) \<Rightarrow> nat \<Rightarrow> u64 \<Rightarrow> u64 \<Rightarrow> nat \<Rightarrow> (u64 \<times> u64 \<times> nat) res" where
  "proof_climb leaves rows sibling_spent 0 position directions depth =
     (if is_root_position position leaves rows then Inr (position, directions, depth)
      else Inl (Panic ''the walk to the root does not end''))"
| "proof_climb leaves rows sibling_spent (Suc fuel) position directions depth =
     (if is_root_position position leaves rows then Inr (position, directions, depth)
      else bind_r (sibling_spent (position XOR 1)) (\<lambda>spent.
        if \<not> spent
        then proof_climb leaves rows sibling_spent fuel (parent position rows)
               (directions OR push_bit depth (position AND 1)) (depth + 1)
        else proof_climb leaves rows sibling_spent fuel (parent position rows) directions depth))"

definition proof_position_from_spent :: "u64 \<Rightarrow> u64 \<Rightarrow> nat \<Rightarrow> (u64 \<Rightarrow> bool res) \<Rightarrow> u64 res" where
  "proof_position_from_spent bottom_position leaves rows sibling_spent =
     bind_r (proof_climb leaves rows sibling_spent rows bottom_position 0 0) (\<lambda>(position, directions, depth).
       let logical_rows = tree_rows leaves
       in Inr (fold (\<lambda>shift promoted. left_child promoted logical_rows + (drop_bit shift directions AND 1))
                 (rev [0..<depth]) (root_position leaves (detect_row position rows) logical_rows)))"

text \<open>
  The frontier of the batch translation, as a queue: every sibling that the walks will ask for is
  either known to be live, because both it and its sibling lead to a target, or is to be loaded.
\<close>

fun detwin :: "u64 \<Rightarrow> nat \<Rightarrow> nat \<Rightarrow> u64 list \<Rightarrow> (u64 \<Rightarrow> bool option) \<Rightarrow> u64 list \<Rightarrow> ((u64 \<Rightarrow> bool option) \<times> u64 list) res" where
  "detwin leaves rows fuel [] spent to_load = Inr (spent, to_load)"
| "detwin leaves rows 0 (position # frontier) spent to_load = Inl (Panic ''the frontier does not end'')"
| "detwin leaves rows (Suc fuel) (position # frontier) spent to_load =
     (if is_root_position position leaves rows then detwin leaves rows fuel frontier spent to_load
      else
        let sibling = position XOR 1 in
        case frontier of
          next # rest \<Rightarrow>
            if next = sibling
            then detwin leaves rows fuel (rest @ [parent position rows])
                   (spent(position \<mapsto> False, sibling \<mapsto> False)) to_load
            else detwin leaves rows fuel (frontier @ [parent position rows]) spent (to_load @ [sibling])
        | [] \<Rightarrow> detwin leaves rows fuel [parent position rows] spent (to_load @ [sibling]))"

definition translate_proof_positions :: "u64 list \<Rightarrow> u64 \<Rightarrow> nat \<Rightarrow> (u64 \<Rightarrow> bool res) \<Rightarrow> u64 list res" where
  "translate_proof_positions positions leaves rows read_spent =
     bind_r (detwin leaves rows (length positions * (rows + 2)) (remdups_adj (sort positions)) Map.empty []) (\<lambda>(spent, to_load).
     bind_r (fold_r (\<lambda>spent position. bind_r (read_spent position) (\<lambda>b. Inr (spent(position \<mapsto> b)))) spent (sort to_load)) (\<lambda>spent.
       map_r (\<lambda>position. proof_position_from_spent position leaves rows
                (\<lambda>sibling. ok_or (spent sibling) ''detwinned traversal omitted sibling'')) positions))"

definition view_translate_proof_positions ::
  "'d SteadyStateForest \<Rightarrow> (u64 \<Rightarrow> JournalNodeState option) \<Rightarrow> u64 \<Rightarrow> u64 list \<Rightarrow> u64 list res" where
  "view_translate_proof_positions s overlay leaves positions =
     translate_proof_positions positions leaves (sf_rows s)
       (\<lambda>position. bind_r (read_with_overlay s overlay position) (\<lambda>n. Inr (nd_spent n)))"

section \<open>The hash of a proof position\<close>

fun find_root :: "nat \<Rightarrow> u64 \<Rightarrow> u64 \<Rightarrow> nat \<Rightarrow> nat list \<Rightarrow> (u64 \<times> nat) res" where
  "find_root rows leaves position position_row [] = bail ''position is not below a populated root''"
| "find_root rows leaves position position_row (root_row # rest) =
     (if leaves AND push_bit root_row 1 = 0 then find_root rows leaves position position_row rest
      else if ((\<lambda>p. parent p rows) ^^ (root_row - position_row)) position = root_position leaves root_row rows
      then Inr (root_position leaves root_row rows, root_row)
      else find_root rows leaves position position_row rest)"

definition containing_root :: "'d SteadyStateForest \<Rightarrow> u64 \<Rightarrow> u64 \<Rightarrow> (u64 \<times> nat) res" where
  "containing_root s position leaves =
     (let position_row = detect_row position (sf_rows s)
      in find_root (sf_rows s) leaves position position_row [position_row..<sf_rows s + 1])"

text \<open>The directions from a position up to its root, the lowest first.\<close>

fun directions_to :: "nat \<Rightarrow> nat \<Rightarrow> u64 \<Rightarrow> u64 \<Rightarrow> bool list res" where
  "directions_to rows 0 position root =
     (if position = root then Inr [] else Inl (Panic ''the walk to the root does not end''))"
| "directions_to rows (Suc fuel) position root =
     (if position = root then Inr []
      else bind_r (directions_to rows fuel (parent position rows) root) (\<lambda>ds. Inr ((position AND 1 \<noteq> 0) # ds)))"

text \<open>One direction taken: rows with a spent child are skipped.\<close>

fun descend :: "(u64 \<Rightarrow> ForestNodeData res) \<Rightarrow> nat \<Rightarrow> nat \<Rightarrow> u64 \<Rightarrow> bool \<Rightarrow> (u64 \<times> nat) res" where
  "descend rd rows 0 position is_right = bail ''compressed position descends below the bottom row''"
| "descend rd rows (Suc row) position is_right =
     (let left_position = left_child position rows in
      bind_r (rd left_position) (\<lambda>left.
      bind_r (rd (left_position + 1)) (\<lambda>right.
        if nd_spent left \<and> nd_spent right then bail ''compressed position enters a fully spent subtree''
        else if nd_spent left then descend rd rows row (left_position + 1) is_right
        else if nd_spent right then descend rd rows row left_position is_right
        else Inr (left_position + of_bool is_right, row))))"

definition compressed_hash ::
  "'d SteadyStateForest \<Rightarrow> u64 \<Rightarrow> nat \<Rightarrow> u64 \<Rightarrow> (u64 \<Rightarrow> JournalNodeState option) \<Rightarrow> bytes res" where
  "compressed_hash s position logical_rows leaves overlay =
     bind_r (translate_position position logical_rows (sf_rows s)) (\<lambda>position.
     bind_r (containing_root s position leaves) (\<lambda>(root, root_row).
     bind_r (directions_to (sf_rows s) (sf_rows s) position root) (\<lambda>directions.
     bind_r (fold_r (\<lambda>(p, row) is_right. descend (read_with_overlay s overlay) (sf_rows s) row p is_right) (root, root_row) (rev directions)) (\<lambda>(p, _).
     bind_r (read_with_overlay s overlay p) (\<lambda>n.
       if nd_spent n then bail ''compressed position resolves to an empty subtree'' else Inr (nd_hash n))))))"

definition position_hash_with_overlay ::
  "'d SteadyStateForest \<Rightarrow> u64 \<Rightarrow> u64 \<Rightarrow> (u64 \<Rightarrow> JournalNodeState option) \<Rightarrow> bytes res" where
  "position_hash_with_overlay s position leaves overlay = compressed_hash s position (tree_rows leaves) leaves overlay"


section \<open>A live leaf and its way to the root\<close>

text \<open>The rows on which the sibling of the leaf's ancestor is live give the directions of its proof
  position, the lowest first.\<close>

definition live_row :: "'d forest_env \<Rightarrow> ForestNodeData list \<Rightarrow> nat \<Rightarrow> nat \<Rightarrow> bool" where
  "live_row E L k r \<longleftrightarrow> \<not> nd_spent (tree E L r (sib (k div 2 ^ r)))"

fun dirs :: "'d forest_env \<Rightarrow> ForestNodeData list \<Rightarrow> nat \<Rightarrow> nat \<Rightarrow> bool list" where
  "dirs E L k 0 = []"
| "dirs E L k (Suc r) = dirs E L k r @ (if live_row E L k r then [odd (k div 2 ^ r)] else [])"

fun promote :: "nat \<Rightarrow> bool list \<Rightarrow> nat" where
  "promote i [] = i"
| "promote i (d # ds) = 2 * promote i ds + of_bool d"

definition live_leaf :: "'d forest_env \<Rightarrow> (u64 \<Rightarrow> ForestNodeData res) \<Rightarrow> nat \<Rightarrow> u64 \<Rightarrow> ForestNodeData list \<Rightarrow> nat \<Rightarrow> nat \<Rightarrow> bool" where
  "live_leaf E rd R leaves L k t \<longleftrightarrow>
     R \<le> 62 \<and> unat leaves = length L \<and> length L \<le> 2 ^ R \<and>
     (\<forall>r i. pop (length L) r i \<longrightarrow> rd (posw R r i) = Inr (tree E L r i)) \<and>
     k < length L \<and> \<not> nd_spent (L ! k) \<and> root_at (length L) t (k div 2 ^ t)"

lemma length_dirs: "length (dirs E L k r) \<le> r"
  by (induction r) (auto intro: le_SucI)

lemma root_above:
  assumes "k < n"
  obtains t where "root_at n t (k div 2 ^ t)"
proof -
  have "\<exists>t. root_at n t (k div 2 ^ t)"
  proof (rule ccontr)
    assume none: "\<nexists>t. root_at n t (k div 2 ^ t)"
    have "pop n r (k div 2 ^ r)" for r
    proof (induction r)
      case 0
      then show ?case using assms by (simp add: pop_def)
    next
      case (Suc r)
      then show ?case using root_or_parent none unfolding div_power_Suc by blast
    qed
    moreover have "n < 2 ^ n" by (rule less_exp)
    ultimately show False unfolding pop_def by (metis div_less not_less_zero)
  qed
  then show ?thesis using that by blast
qed

lemma path_pop:
  assumes "root_at n t (k div 2 ^ t)" and "r \<le> t"
  shows "pop n r (k div 2 ^ r)"
  using assms(2)
proof (induction rule: inc_induct)
  case base
  then show ?case using root_at_pop assms(1) by blast
next
  case (step r)
  then show ?case using pop_sib unfolding div_power_Suc by blast
qed

lemma path_sib_pop: "root_at n t (k div 2 ^ t) \<Longrightarrow> r < t \<Longrightarrow> pop n r (sib (k div 2 ^ r))"
  using path_pop [of n t k "Suc r"] pop_sib [of n r "k div 2 ^ r"] by (simp add: div_power_Suc del: power_Suc)

lemma path_live: "\<not> nd_spent (L ! k) \<Longrightarrow> \<not> nd_spent (tree E L r (k div 2 ^ r))"
  unfolding spent_tree by blast

text \<open>Below a row whose siblings are all spent there is nothing but the leaf.\<close>

lemma combine_path:
  "tree E L (Suc r) (k div 2 ^ Suc r) =
     (if odd (k div 2 ^ r) then combine_children E (tree E L r (sib (k div 2 ^ r))) (tree E L r (k div 2 ^ r))
      else combine_children E (tree E L r (k div 2 ^ r)) (tree E L r (sib (k div 2 ^ r))))"
proof -
  have e: "k div 2 ^ Suc r = k div 2 ^ r div 2" by (rule div_power_Suc)
  show ?thesis
  proof (cases "even (k div 2 ^ r)")
    case True
    then have "2 * (k div 2 ^ r div 2) = k div 2 ^ r" by simp
    with True show ?thesis unfolding e by (simp add: sib_def)
  next
    case False
    then have "2 * (k div 2 ^ r div 2) + 1 = k div 2 ^ r" by simp
    with False show ?thesis unfolding e tree.simps by (simp add: sib_def)
  qed
qed

lemma no_dirs_leaf:
  assumes "\<not> nd_spent (L ! k)" and "dirs E L k r = []"
  shows "tree E L r (k div 2 ^ r) = L ! k"
  using assms(2)
proof (induction r)
  case 0
  then show ?case by simp
next
  case (Suc r)
  then have "tree E L r (k div 2 ^ r) = L ! k" "nd_spent (tree E L r (sib (k div 2 ^ r)))"
    by (auto simp: live_row_def split: if_splits)
  then show ?case unfolding combine_path using assms(1) by (simp add: combine_children_def)
qed

section \<open>The translation of one position\<close>

lemma posw_odd:
  assumes "coord R r i" and "r < R" and "R \<le> 63"
  shows "odd (posw R r i) \<longleftrightarrow> odd i"
proof -
  have "even (row_start R r)" using assms(2) by (simp add: row_start_even)
  then have "odd (pos R r i) \<longleftrightarrow> odd i" by (simp add: pos_def)
  moreover have "odd (posw R r i) \<longleftrightarrow> odd (unat (posw R r i))" 
    using bit_unat [of "posw R r i" 0] by (simp add: bit_0)
  ultimately show ?thesis using unat_posw [OF assms(1,3)] by simp
qed

lemma horner_snoc:
  assumes "length pre < 64"
  shows "horner_sum of_bool 2 pre OR push_bit (length pre) ((p :: u64) AND 1) = horner_sum of_bool 2 (pre @ [odd p])"
proof (rule bit_word_eqI)
  fix i assume "i < LENGTH(64)"
  then show "bit (horner_sum of_bool 2 pre OR push_bit (length pre) (p AND 1) :: u64) i =
      bit (horner_sum of_bool 2 (pre @ [odd p]) :: u64) i"
    using assms by (auto simp: bit_horner_sum_bit_word_iff bit_simps and_one_eq odd_iff_mod_2_eq_one nth_append less_Suc_eq)
qed

lemma proof_climb_spec:
  assumes "live_leaf E rd R leaves L k t"
    and sp: "\<And>r. r < t \<Longrightarrow> sp (posw R r (sib (k div 2 ^ r))) = Inr (\<not> live_row E L k r)"
    and "r \<le> t" and "t - r \<le> fuel"
  shows "proof_climb leaves R sp fuel (posw R r (k div 2 ^ r)) (horner_sum of_bool 2 (dirs E L k r)) (length (dirs E L k r)) =
    Inr (posw R t (k div 2 ^ t), horner_sum of_bool 2 (dirs E L k t), length (dirs E L k t))"
  using assms(3,4)
proof (induction fuel arbitrary: r)
  case 0
  have n: "unat leaves \<le> 2 ^ R" "R \<le> 63" using assms(1) by (simp_all add: live_leaf_def)
  have "r = t" using 0 by simp
  moreover have "is_root_position (posw R t (k div 2 ^ t)) leaves R"
    using assms(1) is_root_position_posw [OF n] pop_coord root_at_pop by (metis live_leaf_def)
  ultimately show ?case by simp
next
  case (Suc fuel)
  have ll: "unat leaves = length L" "R \<le> 63" "length L \<le> 2 ^ R" "root_at (length L) t (k div 2 ^ t)"
    using assms(1) by (simp_all add: live_leaf_def)
  have co: "coord R r (k div 2 ^ r)" using path_pop [OF ll(4) Suc.prems(1)] pop_coord [OF ll(3)] by blast
  have root: "is_root_position (posw R r (k div 2 ^ r)) leaves R \<longleftrightarrow> root_at (length L) r (k div 2 ^ r)"
    using is_root_position_posw [of leaves R r "k div 2 ^ r"] ll co by simp
  show ?case
  proof (cases "r = t")
    case True
    then show ?thesis using root ll(4) by simp
  next
    case False
    then have r: "r < t" using Suc.prems by simp
    then have "pop (length L) (Suc r) (k div 2 ^ r div 2)" 
      using path_pop [OF ll(4), of "Suc r"] by (simp add: div_power_Suc del: power_Suc)
    then have nr: "\<not> root_at (length L) r (k div 2 ^ r)" using root_no_parent by blast
    have "t \<le> R" using root_at_pop [OF ll(4)] pop_coord [OF ll(3)] by (auto simp: coord_def)
    then have rR: "r < R" using r by simp
    have par: "parent (posw R r (k div 2 ^ r)) R = posw R (Suc r) (k div 2 ^ Suc r)"
      unfolding div_power_Suc using parent_posw [OF co rR ll(2)] .
    have sib: "sp (posw R r (k div 2 ^ r) XOR 1) = Inr (\<not> live_row E L k r)"
      using sibling_posw [OF co rR ll(2)] sp [OF r] by simp
    have len: "length (dirs E L k r) < 64" using length_dirs [of E L k r] rR ll(2) by linarith
    have odd: "odd (posw R r (k div 2 ^ r)) = odd (k div 2 ^ r)" by (rule posw_odd [OF co rR ll(2)])
    have "proof_climb leaves R sp (Suc fuel) (posw R r (k div 2 ^ r)) (horner_sum of_bool 2 (dirs E L k r)) (length (dirs E L k r)) =
      proof_climb leaves R sp fuel (posw R (Suc r) (k div 2 ^ Suc r)) (horner_sum of_bool 2 (dirs E L k (Suc r))) (length (dirs E L k (Suc r)))"
      using nr root sib par horner_snoc [OF len, of "posw R r (k div 2 ^ r)"] odd by (simp del: power_Suc)
    then show ?thesis using Suc.IH [of "Suc r"] r Suc.prems by simp
  qed
qed

lemma promote_coord:
  assumes "coord S t i" and "length ds \<le> t"
  shows "coord S (t - length ds) (promote i ds)"
  using assms(2)
proof (induction ds)
  case Nil
  then show ?case using assms(1) by simp
next
  case (Cons d ds)
  then have "coord S (Suc (t - length (d # ds))) (promote i ds)" by (simp add: Suc_diff_Suc)
  then show ?case using coord_child by (cases d) auto
qed

lemma promote_left_children:
  assumes "coord S t i" and "length ds \<le> t" and "S \<le> 63"
  shows "foldr (\<lambda>d p. left_child p S + of_bool d) ds (posw S t i) = posw S (t - length ds) (promote i ds)"
  using assms(2)
proof (induction ds)
  case Nil
  then show ?case by simp
next
  case (Cons d ds)
  then have e: "t - length ds = Suc (t - length (d # ds))" by (simp add: Suc_diff_Suc)
  have "coord S (Suc (t - length (d # ds))) (promote i ds)" using promote_coord [OF assms(1), of ds] Cons.prems e by simp
  from left_child_posw [OF this assms(3)] Cons show ?case unfolding e
    by (cases d) (simp_all add: e pos_def)
qed

lemma proof_position_spec:
  assumes "live_leaf E rd R leaves L k t"
    and "\<And>r. r < t \<Longrightarrow> sp (posw R r (sib (k div 2 ^ r))) = Inr (\<not> live_row E L k r)"
  shows "proof_position_from_spent (of_nat k) leaves R sp =
    Inr (posw (tree_rows leaves) (t - length (dirs E L k t)) (promote (k div 2 ^ t) (dirs E L k t)))"
proof -
  let ?ds = "dirs E L k t" and ?S = "tree_rows leaves"
  have ll: "unat leaves = length L" "R \<le> 63" "length L \<le> 2 ^ R" "root_at (length L) t (k div 2 ^ t)"
    using assms(1) by (simp_all add: live_leaf_def)
  have S: "length L \<le> 2 ^ ?S" "?S \<le> R" using tree_rows_capacity [of leaves] tree_rows_least [of leaves R] ll by simp_all
  note pr = root_at_pop [OF ll(4)]
  have tR: "t \<le> R" and coR: "coord R t (k div 2 ^ t)" using pop_coord [OF ll(3) pr] by (simp_all add: coord_def)
  have coS: "coord ?S t (k div 2 ^ t)" using pop_coord [OF S(1) pr] .
  have len: "length ?ds \<le> t" "length ?ds < 64" using length_dirs [of E L k t] tR ll(2) by simp_all
  have climb: "proof_climb leaves R sp R (of_nat k) 0 0 = Inr (posw R t (k div 2 ^ t), horner_sum of_bool 2 ?ds, length ?ds)"
    using proof_climb_spec [OF assms(1,2), where r = 0 and fuel = R] tR by simp
  have lt: "unat leaves < 2 ^ (?S + 1)"
    using S(1) ll(1) zero_less_power [of "2 :: nat" ?S] unfolding Suc_eq_plus1 [symmetric] power_Suc by linarith
  have root: "root_position leaves t ?S = posw ?S t (k div 2 ^ t)"
    using root_position_posw [OF lt, of t] coS S(2) ll by (simp add: coord_def root_at_offset)
  have bits: "drop_bit i (horner_sum of_bool 2 ?ds :: u64) AND 1 = of_bool (?ds ! i)" if "i < length ?ds" for i
  proof -
    have "drop_bit i w AND 1 = of_bool (bit w i)" for w :: u64
      by (simp add: and_one_eq mod_2_eq_odd bit_iff_odd_drop_bit)
    then show ?thesis using that len(2) by (simp add: bit_horner_sum_bit_word_iff)
  qed
  have "fold (\<lambda>shift promoted. left_child promoted ?S + (drop_bit shift (horner_sum of_bool 2 ?ds) AND 1)) (rev [0..<length ?ds]) (posw ?S t (k div 2 ^ t)) =
      foldr (\<lambda>d p. left_child p ?S + of_bool d) (map ((!) ?ds) [0..<length ?ds]) (posw ?S t (k div 2 ^ t))"
    unfolding foldr_conv_fold [symmetric] foldr_map by (rule foldr_cong) (auto simp: bits)
  also have "\<dots> = posw ?S (t - length ?ds) (promote (k div 2 ^ t) ?ds)"
    unfolding map_nth by (rule promote_left_children) (use coS len S ll in auto)
  finally show ?thesis
    by (simp add: proof_position_from_spent_def climb root detect_row_posw [OF coR ll(2)] Let_def)
qed


section \<open>Walking down to a proof position\<close>

text \<open>One direction leads to the next live row, to the leaf's side or to its sibling.\<close>

lemma descend_spec:
  assumes "live_leaf E rd R leaves L k t" and "r \<le> t" and "dirs E L k r \<noteq> []"
  shows "\<exists>j<r. live_row E L k j \<and> dirs E L k r = dirs E L k j @ [odd (k div 2 ^ j)] \<and>
    (\<forall>b. descend rd R r (posw R r (k div 2 ^ r)) b =
       Inr (posw R j (if b = odd (k div 2 ^ j) then k div 2 ^ j else sib (k div 2 ^ j)), j))"
  using assms(2,3)
proof (induction r)
  case 0
  then show ?case by simp
next
  case (Suc r)
  let ?i = "k div 2 ^ r"
  have ll: "R \<le> 63" "length L \<le> 2 ^ R" "root_at (length L) t (k div 2 ^ t)" "\<not> nd_spent (L ! k)"
    and rd: "\<And>r i. pop (length L) r i \<Longrightarrow> rd (posw R r i) = Inr (tree E L r i)"
    using assms(1) by (simp_all add: live_leaf_def)
  have pp: "pop (length L) r ?i" "pop (length L) r (sib ?i)" "pop (length L) (Suc r) (k div 2 ^ Suc r)"
    using path_pop [OF ll(3)] path_sib_pop [OF ll(3)] Suc.prems(1) by (simp_all del: power_Suc)
  have left: "left_child (posw R (Suc r) (k div 2 ^ Suc r)) R = posw R r (2 * (?i div 2))"
    unfolding div_power_Suc [symmetric] by (rule left_child_posw [OF pop_coord [OF ll(2) pp(3)] ll(1)])
  have right: "posw R r (2 * (?i div 2)) + 1 = posw R r (2 * (?i div 2) + 1)" by (simp add: pos_def)
  have live: "\<not> nd_spent (tree E L r ?i)" by (rule path_live [OF ll(4)])
  have kids: "2 * (?i div 2) = (if odd ?i then sib ?i else ?i)" "2 * (?i div 2) + 1 = (if odd ?i then ?i else sib ?i)"
    by (auto simp: sib_def)
  have p1: "posw R r (2 * (?i div 2)) = posw R r (if odd ?i then sib ?i else ?i)" by (simp only: kids(1))
  have p2: "posw R r (2 * (?i div 2)) + 1 = posw R r (if odd ?i then ?i else sib ?i)" by (simp only: right kids(2))
  have r1: "rd (posw R r (2 * (?i div 2))) = Inr (tree E L r (if odd ?i then sib ?i else ?i))"
    unfolding p1 using rd pp by auto
  have r2: "rd (posw R r (2 * (?i div 2)) + 1) = Inr (tree E L r (if odd ?i then ?i else sib ?i))"
    unfolding p2 using rd pp by auto
  note rds = r1 r2
  have mv: "odd ?i \<Longrightarrow> posw R r (2 * (?i div 2)) + 1 = posw R r ?i" "even ?i \<Longrightarrow> posw R r (2 * (?i div 2)) = posw R r ?i"
    using p1 p2 by auto
  show ?case
  proof (cases "live_row E L k r")
    case True
    then have "descend rd R (Suc r) (posw R (Suc r) (k div 2 ^ Suc r)) b = Inr (posw R r (2 * (?i div 2)) + of_bool b, r)" for b
      using live rds(1,2) by (cases "odd ?i") (simp_all add: left Let_def live_row_def del: power_Suc)
    moreover have "posw R r (2 * (?i div 2)) + of_bool b = posw R r (if b = odd ?i then ?i else sib ?i)" for b
      using p1 p2 by (cases b) auto
    ultimately show ?thesis using True by (intro exI [of _ r]) simp
  next
    case False
    then have "descend rd R (Suc r) (posw R (Suc r) (k div 2 ^ Suc r)) b = descend rd R r (posw R r ?i) b" for b
      using live rds mv by (cases "odd ?i") (simp_all add: left Let_def live_row_def del: power_Suc)
    moreover have "dirs E L k (Suc r) = dirs E L k r" using False by simp
    ultimately show ?thesis using Suc.IH Suc.prems by (metis Suc_leD less_SucI)
  qed
qed

lemma descend_path:
  assumes "live_leaf E rd R leaves L k t" and "r \<le> t" and "dirs E L k r = pre @ ds"
  shows "\<exists>q\<le>r. dirs E L k q = pre \<and>
    fold_r (\<lambda>(p, row) b. descend rd R row p b) (posw R r (k div 2 ^ r), r) (rev ds) = Inr (posw R q (k div 2 ^ q), q)"
  using assms(2,3)
proof (induction ds arbitrary: r rule: rev_induct)
  case Nil
  then show ?case by auto
next
  case (snoc d ds)
  then have "dirs E L k r \<noteq> []" by simp
  from descend_spec [OF assms(1) snoc.prems(1) this] obtain j where j: "j < r"
    "dirs E L k r = dirs E L k j @ [odd (k div 2 ^ j)]"
    "\<And>b. descend rd R r (posw R r (k div 2 ^ r)) b =
       Inr (posw R j (if b = odd (k div 2 ^ j) then k div 2 ^ j else sib (k div 2 ^ j)), j)" by blast
  then have "dirs E L k j = pre @ ds" "d = odd (k div 2 ^ j)" using snoc.prems(2) by simp_all
  moreover from this obtain q where "q \<le> j" "dirs E L k q = pre"
    "fold_r (\<lambda>(p, row) b. descend rd R row p b) (posw R j (k div 2 ^ j), j) (rev ds) = Inr (posw R q (k div 2 ^ q), q)"
    using snoc.IH [of j] j(1) snoc.prems(1) by auto
  ultimately show ?case using j by (intro exI [of _ q]) simp
qed

section \<open>The hash of a proof position\<close>

lemma parents_posw:
  assumes "coord R r i" and "r + m \<le> R" and "R \<le> 63"
  shows "((\<lambda>p. parent p R) ^^ m) (posw R r i) = posw R (r + m) (i div 2 ^ m) \<and> coord R (r + m) (i div 2 ^ m)"
  using assms(2)
proof (induction m)
  case 0
  then show ?case using assms(1) by simp
next
  case (Suc m)
  then show ?case using parent_posw [of R "r + m" "i div 2 ^ m"] coord_parent [of R "r + m" "i div 2 ^ m"] assms(3)
    by (simp add: div_power_Suc del: power_Suc)
qed

lemma promote_div: "promote i ds div 2 ^ length ds = i"
  by (induction ds) (simp_all add: div_mult2_eq)

lemma promote_drop: "m \<le> length ds \<Longrightarrow> promote i ds div 2 ^ m = promote i (drop m ds)"
proof (induction ds arbitrary: m)
  case Nil
  then show ?case by simp
next
  case (Cons d ds)
  then show ?case by (cases m) (simp_all add: div_mult2_eq)
qed

lemma promote_pop:
  assumes "pop n t i" and "length ds \<le> t"
  shows "pop n (t - length ds) (promote i ds)"
  using assms(2)
proof (induction ds)
  case Nil
  then show ?case using assms(1) by simp
next
  case (Cons d ds)
  then have "pop n (Suc (t - length (d # ds))) (promote i ds)" by (simp add: Suc_diff_Suc)
  then show ?case using pop_child by (cases d) auto
qed

lemma containing_root_spec:
  assumes "unat leaves = n" and "n \<le> 2 ^ sf_rows s" and "sf_rows s \<le> 62" and "root_at n t i" and "length ds \<le> t"
  shows "containing_root s (posw (sf_rows s) (t - length ds) (promote i ds)) leaves = Inr (posw (sf_rows s) t i, t)"
proof -
  let ?R = "sf_rows s" and ?r = "t - length ds" and ?k = "promote i ds"
  have R: "?R \<le> 63" using assms(3) by simp
  have co: "coord ?R ?r ?k" using promote_pop [OF root_at_pop [OF assms(4)] assms(5)] pop_coord [OF assms(2)] by blast
  have tR: "t \<le> ?R" using pop_coord [OF assms(2) root_at_pop [OF assms(4)]] by (simp add: coord_def)
  have lt: "unat leaves < 2 ^ (?R + 1)" using assms(1,2) zero_less_power [of "2 :: nat" ?R]
    unfolding Suc_eq_plus1 [symmetric] power_Suc by linarith
  have test: "leaves AND push_bit x 1 \<noteq> 0 \<and> ((\<lambda>p. parent p ?R) ^^ (x - ?r)) (posw ?R ?r ?k) = root_position leaves x ?R \<longleftrightarrow>
      root_at n x (?k div 2 ^ (x - ?r))" if x: "?r \<le> x" "x \<le> ?R" for x
  proof -
    have p: "((\<lambda>p. parent p ?R) ^^ (x - ?r)) (posw ?R ?r ?k) = posw ?R x (?k div 2 ^ (x - ?r))" "coord ?R x (?k div 2 ^ (x - ?r))"
      using parents_posw [OF co, of "x - ?r"] x R by simp_all
    have q: "root_position leaves x ?R = posw ?R x (2 * (n div 2 ^ (x + 1)))"
      using root_position_posw [OF lt x(2) R] assms(1) by simp
    have "leaves AND push_bit x 1 \<noteq> 0 \<longleftrightarrow> odd (n div 2 ^ x)" using leaves_bit [of leaves x] assms(1) by simp
    moreover have "posw ?R x (?k div 2 ^ (x - ?r)) = posw ?R x (2 * (n div 2 ^ (x + 1))) \<longleftrightarrow> ?k div 2 ^ (x - ?r) = 2 * (n div 2 ^ (x + 1))"
      if "odd (n div 2 ^ x)"
    proof -
      have "root_at n x (2 * (n div 2 ^ (x + 1)))" using that root_at_offset by blast
      then have "coord ?R x (2 * (n div 2 ^ (x + 1)))" using pop_coord [OF assms(2) root_at_pop] by blast
      then show ?thesis using posw_inj [OF R p(2)] by auto
    qed
    ultimately show ?thesis unfolding p(1) q root_at_offset by blast
  qed
  have no: "\<not> root_at n x (?k div 2 ^ (x - ?r))" if x: "?r \<le> x" "x < t" for x
  proof -
    have m: "Suc x - ?r \<le> length ds" "Suc x - ?r = Suc (x - ?r)" using x by simp_all
    have "t - length (drop (Suc x - ?r) ds) = Suc x" using m x assms(5) by simp
    then have "pop n (Suc x) (promote i (drop (Suc x - ?r) ds))"
      using promote_pop [OF root_at_pop [OF assms(4)], of "drop (Suc x - ?r) ds"] assms(5) by simp
    then have "pop n (Suc x) (?k div 2 ^ (x - ?r) div 2)"
      using promote_drop [OF m(1), of i] unfolding m(2) div_power_Suc by simp
    then show ?thesis using root_no_parent by blast
  qed
  have yes: "root_at n t (?k div 2 ^ (t - ?r))" using promote_div [of i ds] assms(4,5) by simp
  have "find_root ?R leaves (posw ?R ?r ?k) ?r [a..<?R + 1] = Inr (root_position leaves t ?R, t)" if "?r \<le> a" "a \<le> t" for a
    using that(2,1)
  proof (induction rule: inc_induct)
    case base
    have "[t..<?R + 1] = t # [Suc t..<?R + 1]" using tR by (simp add: upt_conv_Cons)
    then show ?case using test [of t] yes tR by simp
  next
    case (step a)
    have "[a..<?R + 1] = a # [Suc a..<?R + 1]" using step tR by (simp add: upt_conv_Cons)
    then show ?case using test [of a] no [of a] step tR by auto
  qed
  from this [of ?r] have "find_root ?R leaves (posw ?R ?r ?k) ?r [?r..<?R + 1] = Inr (root_position leaves t ?R, t)" by simp
  moreover have "root_position leaves t ?R = posw ?R t i"
    using root_position_posw [OF lt tR R] assms(1,4) by (simp add: root_at_offset)
  ultimately show ?thesis by (simp add: containing_root_def Let_def detect_row_posw [OF co R])
qed

lemma directions_to_spec:
  assumes "coord R t i" and "R \<le> 63" and "length ds \<le> t" and "length ds \<le> fuel"
  shows "directions_to R fuel (posw R (t - length ds) (promote i ds)) (posw R t i) = Inr ds"
  using assms(3,4)
proof (induction ds arbitrary: fuel)
  case Nil
  then show ?case by (cases fuel) simp_all
next
  case (Cons d ds)
  obtain f where f: "fuel = Suc f" using Cons.prems(2) by (cases fuel) auto
  let ?r = "t - length (d # ds)"
  have co: "coord R ?r (promote i (d # ds))" using promote_coord [OF assms(1), of "d # ds"] Cons.prems(1) by simp
  have r: "Suc ?r = t - length ds" "?r < t" using Cons.prems by (simp_all add: Suc_diff_Suc)
  then have rR: "?r < R" using assms(1) unfolding coord_def by linarith
  have "posw R ?r (promote i (d # ds)) \<noteq> posw R t i" using posw_inj [OF assms(2) co assms(1)] r(2) by auto
  moreover have "parent (posw R ?r (promote i (d # ds))) R = posw R (t - length ds) (promote i ds)"
    using parent_posw [OF co rR assms(2)] r(1) by simp
  moreover have "posw R ?r (promote i (d # ds)) AND 1 \<noteq> 0 \<longleftrightarrow> d"
    using posw_odd [OF co rR assms(2)] by (simp add: and_one_eq odd_iff_mod_2_eq_one [symmetric] mod_2_eq_odd)
  ultimately show ?case using Cons.IH [of f] Cons.prems f by simp
qed

lemma compressed_hash_spec:
  assumes "unat leaves = n" and "n \<le> 2 ^ sf_rows s" and "sf_rows s \<le> 62" and "root_at n t i" and "length ds \<le> t"
  shows "position_hash_with_overlay s (posw (tree_rows leaves) (t - length ds) (promote i ds)) leaves overlay =
    bind_r (fold_r (\<lambda>(p, row) b. descend (read_with_overlay s overlay) (sf_rows s) row p b) (posw (sf_rows s) t i, t) (rev ds)) (\<lambda>(p, _).
    bind_r (read_with_overlay s overlay p) (\<lambda>n.
      if nd_spent n then bail ''compressed position resolves to an empty subtree'' else Inr (nd_hash n)))"
proof -
  have S: "n \<le> 2 ^ tree_rows leaves" "tree_rows leaves \<le> sf_rows s"
    using tree_rows_capacity [of leaves] tree_rows_least [of leaves "sf_rows s"] assms by simp_all
  note pr = root_at_pop [OF assms(4)]
  have "coord (tree_rows leaves) (t - length ds) (promote i ds)" using pop_coord [OF S(1) promote_pop [OF pr assms(5)]] .
  from translate_position_posw [OF this S(2)]
  have tr: "translate_position (posw (tree_rows leaves) (t - length ds) (promote i ds)) (tree_rows leaves) (sf_rows s) =
      Inr (posw (sf_rows s) (t - length ds) (promote i ds))" using assms(3) by simp
  have co: "coord (sf_rows s) t i" using pop_coord [OF assms(2) pr] .
  then have "length ds \<le> sf_rows s" using assms(5) by (simp add: coord_def)
  with directions_to_spec [OF co _ assms(5)] assms(3)
  show ?thesis
    by (simp add: position_hash_with_overlay_def compressed_hash_def tr containing_root_spec [OF assms])
qed


section \<open>A proof leads to a root\<close>

text \<open>What a verifier computes from a target: the hashes of the siblings of its proof position and of
  the ancestors of it, combined up to a root.\<close>

fun root_from_proof :: "'d forest_env \<Rightarrow> u64 \<Rightarrow> (u64 \<Rightarrow> bytes res) \<Rightarrow> nat \<Rightarrow> u64 \<Rightarrow> bytes \<Rightarrow> bytes res" where
  "root_from_proof E leaves hash_at 0 position h =
     (if is_root_position position leaves (tree_rows leaves) then Inr h else bail ''no root'')"
| "root_from_proof E leaves hash_at (Suc fuel) position h =
     (if is_root_position position leaves (tree_rows leaves) then Inr h
      else bind_r (hash_at (position XOR 1)) (\<lambda>sibling.
        root_from_proof E leaves hash_at fuel (parent position (tree_rows leaves))
          (if odd position then fe_parent_hash E sibling h else fe_parent_hash E h sibling)))"

lemma same_dirs_same_tree:
  assumes "\<not> nd_spent (L ! k)" and "q \<le> r" and "dirs E L k q = dirs E L k r"
  shows "tree E L r (k div 2 ^ r) = tree E L q (k div 2 ^ q)"
  using assms(2,3)
proof (induction r rule: dec_induct)
  case base
  then show ?case by simp
next
  case (step r)
  have "\<exists>ds. dirs E L k r = dirs E L k q @ ds"
    using step.hyps(1) by (induction r rule: dec_induct) auto
  then have "\<not> live_row E L k r" "dirs E L k q = dirs E L k r" using step.prems by (auto split: if_splits)
  then show ?case using step.IH path_live [OF assms(1), of E r] unfolding combine_path
    by (simp add: live_row_def combine_children_def)
qed

lemma dirs_same_tree:
  assumes "\<not> nd_spent (L ! k)" and "dirs E L k q = dirs E L k r"
  shows "tree E L r (k div 2 ^ r) = tree E L q (k div 2 ^ q)"
  using same_dirs_same_tree [OF assms(1), of q r] same_dirs_same_tree [OF assms(1), of r q] assms(2)
  by (metis nat_le_linear)

lemma leaf_position_hash:
  assumes "live_leaf E (read_with_overlay s overlay) (sf_rows s) leaves L k t"
  shows "position_hash_with_overlay s
     (posw (tree_rows leaves) (t - length (dirs E L k t)) (promote (k div 2 ^ t) (dirs E L k t))) leaves overlay = Inr (nd_hash (L ! k))"
proof -
  have ll: "unat leaves = length L" "length L \<le> 2 ^ sf_rows s" "sf_rows s \<le> 62" "root_at (length L) t (k div 2 ^ t)" "\<not> nd_spent (L ! k)"
    using assms by (simp_all add: live_leaf_def)
  obtain q where q: "q \<le> t" "dirs E L k q = []"
    "fold_r (\<lambda>(p, row) b. descend (read_with_overlay s overlay) (sf_rows s) row p b) (posw (sf_rows s) t (k div 2 ^ t), t) (rev (dirs E L k t)) =
       Inr (posw (sf_rows s) q (k div 2 ^ q), q)"
    using descend_path [OF assms order_refl, of "[]" "dirs E L k t"] by auto
  have "read_with_overlay s overlay (posw (sf_rows s) q (k div 2 ^ q)) = Inr (L ! k)"
    using assms path_pop [OF ll(4) q(1)] no_dirs_leaf [OF ll(5) q(2)] by (metis live_leaf_def)
  with q(3) ll(5) show ?thesis by (simp add: compressed_hash_spec [OF ll(1-4) length_dirs])
qed

lemma sibling_hash:
  assumes "live_leaf E (read_with_overlay s overlay) (sf_rows s) leaves L k t" and "dirs E L k t = pre @ d # ds"
  shows "\<exists>j<t. dirs E L k j = pre \<and> d = odd (k div 2 ^ j) \<and> live_row E L k j \<and>
    position_hash_with_overlay s (posw (tree_rows leaves) (t - Suc (length ds)) (promote (k div 2 ^ t) ((\<not> d) # ds))) leaves overlay =
      Inr (nd_hash (tree E L j (sib (k div 2 ^ j))))"
proof -
  have ll: "unat leaves = length L" "length L \<le> 2 ^ sf_rows s" "sf_rows s \<le> 62" "root_at (length L) t (k div 2 ^ t)" "\<not> nd_spent (L ! k)"
    using assms(1) by (simp_all add: live_leaf_def)
  let ?rd = "read_with_overlay s overlay" and ?R = "sf_rows s"
  obtain r where r: "r \<le> t" "dirs E L k r = pre @ [d]"
    "fold_r (\<lambda>(p, row) b. descend ?rd ?R row p b) (posw ?R t (k div 2 ^ t), t) (rev ds) = Inr (posw ?R r (k div 2 ^ r), r)"
    using descend_path [OF assms(1) order_refl, of "pre @ [d]" ds] assms(2) by auto
  then obtain j where j: "j < r" "live_row E L k j" "dirs E L k r = dirs E L k j @ [odd (k div 2 ^ j)]"
    "\<And>b. descend ?rd ?R r (posw ?R r (k div 2 ^ r)) b =
       Inr (posw ?R j (if b = odd (k div 2 ^ j) then k div 2 ^ j else sib (k div 2 ^ j)), j)"
    using descend_spec [OF assms(1) r(1)] by auto
  then have d: "dirs E L k j = pre" "d = odd (k div 2 ^ j)" using r(2) by simp_all
  have "length (dirs E L k t) \<le> t" by (rule length_dirs)
  then have len: "length ((\<not> d) # ds) \<le> t" using assms(2) by simp
  have "?rd (posw ?R j (sib (k div 2 ^ j))) = Inr (tree E L j (sib (k div 2 ^ j)))"
    using assms(1) path_sib_pop [OF ll(4)] j(1) r(1) by (metis live_leaf_def order_less_le_trans)
  then show ?thesis
    using compressed_hash_spec [OF ll(1-4) len, of overlay] r(1,3) j d
    by (intro exI [of _ j]) (simp add: fold_r_append live_row_def)
qed

lemma root_from_proof_spec:
  assumes "live_leaf E (read_with_overlay s overlay) (sf_rows s) leaves L k t" and "dirs E L k t = pre @ ds"
    and "dirs E L k q = pre" and "length ds \<le> fuel"
  shows "root_from_proof E leaves (\<lambda>p. position_hash_with_overlay s p leaves overlay) fuel
      (posw (tree_rows leaves) (t - length ds) (promote (k div 2 ^ t) ds)) (nd_hash (tree E L q (k div 2 ^ q))) =
    Inr (nd_hash (tree E L t (k div 2 ^ t)))"
  using assms(2-4)
proof (induction ds arbitrary: pre q fuel)
  case Nil
  let ?S = "tree_rows leaves"
  have ll: "unat leaves = length L" "length L \<le> 2 ^ sf_rows s" "sf_rows s \<le> 62" "root_at (length L) t (k div 2 ^ t)" "\<not> nd_spent (L ! k)"
    using assms(1) by (simp_all add: live_leaf_def)
  have S: "unat leaves \<le> 2 ^ ?S" "?S \<le> 63" using tree_rows_capacity [of leaves] tree_rows_least [of leaves "sf_rows s"] ll by simp_all
  have "coord ?S t (k div 2 ^ t)" using pop_coord [of "length L" ?S] root_at_pop [OF ll(4)] S(1) ll(1) by simp
  then have "is_root_position (posw ?S t (k div 2 ^ t)) leaves ?S" using is_root_position_posw [OF S] ll by simp
  moreover have "tree E L q (k div 2 ^ q) = tree E L t (k div 2 ^ t)" 
    using dirs_same_tree [OF ll(5), where E = E and q = t and r = q] Nil.prems by simp
  ultimately show ?case by (cases fuel) simp_all
next
  case (Cons d ds)
  let ?S = "tree_rows leaves" and ?i = "k div 2 ^ t" and ?r = "t - length (d # ds)"
  have ll: "unat leaves = length L" "length L \<le> 2 ^ sf_rows s" "sf_rows s \<le> 62" "root_at (length L) t ?i" "\<not> nd_spent (L ! k)"
    using assms(1) by (simp_all add: live_leaf_def)
  have S: "unat leaves \<le> 2 ^ ?S" "?S \<le> 63" using tree_rows_capacity [of leaves] tree_rows_least [of leaves "sf_rows s"] ll by simp_all
  obtain f where f: "fuel = Suc f" "length ds \<le> f" using Cons.prems(3) by (cases fuel) auto
  have len: "length (d # ds) \<le> t" using length_dirs [of E L k t] Cons.prems(1) by simp
  have pp: "pop (length L) ?r (promote ?i (d # ds))" "pop (length L) (t - length ds) (promote ?i ds)"
    using promote_pop [OF root_at_pop [OF ll(4)]] len by (blast, simp)
  have r: "Suc ?r = t - length ds" "?r < t" using len by (simp_all add: Suc_diff_Suc)
  have "coord ?S t ?i" using pop_coord [of "length L" ?S] root_at_pop [OF ll(4)] S(1) ll(1) by simp
  then have rS: "?r < ?S" using r(2) unfolding coord_def by linarith
  have co: "coord ?S ?r (promote ?i (d # ds))" using pop_coord [of "length L" ?S, OF _ pp(1)] S(1) ll(1) by simp
  have "promote ?i (d # ds) div 2 = promote ?i ds" by simp
  then have nroot: "\<not> is_root_position (posw ?S ?r (promote ?i (d # ds))) leaves ?S"
    using is_root_position_posw [OF S co] root_no_parent pp(2) r(1) ll(1) by metis
  have sib: "posw ?S ?r (promote ?i (d # ds)) XOR 1 = posw ?S ?r (promote ?i ((\<not> d) # ds))"
    using sibling_posw [OF co rS S(2)] by (cases d) (simp_all add: sib_def)
  have par: "parent (posw ?S ?r (promote ?i (d # ds))) ?S = posw ?S (t - length ds) (promote ?i ds)"
    using parent_posw [OF co rS S(2)] r(1) by simp
  have odd: "odd (posw ?S ?r (promote ?i (d # ds))) = d" using posw_odd [OF co rS S(2)] by simp
  obtain j where j: "j < t" "dirs E L k j = pre" "d = odd (k div 2 ^ j)" "live_row E L k j"
    "position_hash_with_overlay s (posw ?S ?r (promote ?i ((\<not> d) # ds))) leaves overlay = Inr (nd_hash (tree E L j (sib (k div 2 ^ j))))"
    using sibling_hash [OF assms(1) Cons.prems(1)] unfolding length_Cons by blast
  have h: "tree E L q (k div 2 ^ q) = tree E L j (k div 2 ^ j)" 
    using dirs_same_tree [OF ll(5), where E = E and q = j and r = q] Cons.prems(2) j(2) by simp
  have up: "(if d then fe_parent_hash E (nd_hash (tree E L j (sib (k div 2 ^ j)))) (nd_hash (tree E L j (k div 2 ^ j)))
      else fe_parent_hash E (nd_hash (tree E L j (k div 2 ^ j))) (nd_hash (tree E L j (sib (k div 2 ^ j))))) =
      nd_hash (tree E L (Suc j) (k div 2 ^ Suc j))"
    unfolding combine_path using j(3,4) path_live [OF ll(5), of E j] by (simp add: combine_children_def live_row_def)
  have "dirs E L k (Suc j) = pre @ [d]" using j by simp
  then have "root_from_proof E leaves (\<lambda>p. position_hash_with_overlay s p leaves overlay) f
      (posw ?S (t - length ds) (promote ?i ds)) (nd_hash (tree E L (Suc j) (k div 2 ^ Suc j))) = Inr (nd_hash (tree E L t ?i))"
    using Cons.IH [OF _ _ f(2), of "pre @ [d]" "Suc j"] Cons.prems(1) by simp
  then show ?case
    unfolding f(1) root_from_proof.simps sib j(5) bind_r_simps par odd h up using nroot by (simp only: if_False)
qed

lemma live_leafI:
  assumes "canonical E s overlay L" and "unat leaves = length L" and "k < length L" and "\<not> nd_spent (L ! k)"
  obtains t where "live_leaf E (read_with_overlay s overlay) (sf_rows s) leaves L k t"
proof -
  obtain t where "root_at (length L) t (k div 2 ^ t)" using root_above [OF assms(3)] .
  then show ?thesis using that assms by (simp add: live_leaf_def canonical_def)
qed

definition read_spent :: "'d SteadyStateForest \<Rightarrow> (u64 \<Rightarrow> JournalNodeState option) \<Rightarrow> u64 \<Rightarrow> bool res" where
  "read_spent s overlay position = bind_r (read_with_overlay s overlay position) (\<lambda>n. Inr (nd_spent n))"

lemma read_spent_live:
  assumes "live_leaf E (read_with_overlay s overlay) (sf_rows s) leaves L k t" and "r < t"
  shows "read_spent s overlay (posw (sf_rows s) r (sib (k div 2 ^ r))) = Inr (\<not> live_row E L k r)"
proof -
  have "pop (length L) r (sib (k div 2 ^ r))" using assms path_sib_pop by (auto simp: live_leaf_def)
  then show ?thesis using assms(1) by (simp add: read_spent_def live_row_def live_leaf_def)
qed

lemma root_in_roots_of:
  assumes "root_at (length L) t i" and "length L \<le> 2 ^ 62" and "\<not> nd_spent (tree E L t i)"
  shows "nd_hash (tree E L t i) \<in> set (roots_of E L)"
proof -
  have "t \<le> 62" using pop_coord [OF assms(2) root_at_pop [OF assms(1)]] by (simp add: coord_def)
  then show ?thesis using assms by (force simp: roots_of_def root_at_def accumulator_hash_def)
qed

text \<open>C39. Proofs served by the bridge verify. In a forest and overlay that hold the trees over the leaves,
  the proof position of any live leaf exists, the hash found by walking down the promoted forest to
  that position is the leaf's own, the sibling of that position and of each of its ancestors below
  the root resolves to a hash too, and combining these hashes up the accumulator's positions, the way
  a verifier does, gives a root of the accumulator over the leaves.\<close>

theorem served_proof_verifies:
  assumes "canonical E s overlay L" and "unat leaves = length L" and "k < length L" and "\<not> nd_spent (L ! k)"
  shows "\<exists>p root. proof_position_from_spent (of_nat k) leaves (sf_rows s) (read_spent s overlay) = Inr p \<and>
     position_hash_with_overlay s p leaves overlay = Inr (nd_hash (L ! k)) \<and>
     root_from_proof E leaves (\<lambda>q. position_hash_with_overlay s q leaves overlay) (sf_rows s) p (nd_hash (L ! k)) = Inr root \<and>
     root \<in> set (roots_of E L)"
proof -
  obtain t where t: "live_leaf E (read_with_overlay s overlay) (sf_rows s) leaves L k t" using live_leafI [OF assms] .
  then have root: "root_at (length L) t (k div 2 ^ t)" "sf_rows s \<le> 62" "length L \<le> 2 ^ sf_rows s" by (simp_all add: live_leaf_def)
  let ?p = "posw (tree_rows leaves) (t - length (dirs E L k t)) (promote (k div 2 ^ t) (dirs E L k t))"
  have "t \<le> sf_rows s" using pop_coord [OF root(3) root_at_pop [OF root(1)]] by (simp add: coord_def)
  then have "length (dirs E L k t) \<le> sf_rows s" using length_dirs [of E L k t] by simp
  then have "root_from_proof E leaves (\<lambda>q. position_hash_with_overlay s q leaves overlay) (sf_rows s) ?p (nd_hash (L ! k)) =
      Inr (nd_hash (tree E L t (k div 2 ^ t)))"
    using root_from_proof_spec [OF t, of "[]" "dirs E L k t" 0] by simp
  moreover have "length L \<le> 2 ^ 62" using root(2,3) power_increasing [of "sf_rows s" 62 "2 :: nat"] by linarith
  then have "nd_hash (tree E L t (k div 2 ^ t)) \<in> set (roots_of E L)"
    using root_in_roots_of [OF root(1)] path_live [OF assms(4)] by blast
  ultimately show ?thesis
    using proof_position_spec [OF t read_spent_live [OF t]] leaf_position_hash [OF t] by blast
qed


theorem served_proof_verifies_witness:
  "\<exists>ov p root. canonical example_fenv example_steady ov (new_leaves example_additions) \<and>
     proof_position_from_spent 1 3 2 (read_spent example_steady ov) = Inr p \<and>
     position_hash_with_overlay example_steady p 3 ov = Inr (replicate 32 2) \<and>
     root_from_proof example_fenv 3 (\<lambda>q. position_hash_with_overlay example_steady q 3 ov) 2 p (replicate 32 2) = Inr root \<and>
     root \<in> set (roots_of example_fenv (new_leaves example_additions))"
proof -
  obtain ov :: "u64 \<Rightarrow> JournalNodeState option" where ov: "canonical example_fenv example_steady ov (new_leaves example_additions)"
    using example_first_block by metis
  have "unat (3 :: u64) = length (new_leaves example_additions)" "1 < length (new_leaves example_additions)"
    "\<not> nd_spent (new_leaves example_additions ! 1)" "nd_hash (new_leaves example_additions ! 1) = replicate 32 2"
    by (simp_all add: new_leaves_def example_additions_def)
  from served_proof_verifies [OF ov this(1-3)] this(4) ov show ?thesis by (fastforce simp: example_steady_def)
qed

section \<open>The batch translation\<close>

text \<open>
  Every position on the frontier leads to a target, and every sibling a walk will ask for is
  recorded, to be loaded, or above a position that is still on the frontier.
\<close>

definition on_path :: "nat \<Rightarrow> nat set \<Rightarrow> (nat \<Rightarrow> nat) \<Rightarrow> u64 \<Rightarrow> bool" where
  "on_path R K t p \<longleftrightarrow> (\<exists>k\<in>K. \<exists>r\<le>t k. p = posw R r (k div 2 ^ r))"

definition detwin_inv :: "nat \<Rightarrow> nat set \<Rightarrow> (nat \<Rightarrow> nat) \<Rightarrow> u64 list \<Rightarrow> (u64 \<Rightarrow> bool option) \<Rightarrow> u64 list \<Rightarrow> bool" where
  "detwin_inv R K t frontier spent to_load \<longleftrightarrow>
     (\<forall>p\<in>set frontier. on_path R K t p) \<and>
     (\<forall>p b. spent p = Some b \<longrightarrow> \<not> b \<and> on_path R K t p) \<and>
     (\<forall>p\<in>set to_load. \<exists>k\<in>K. \<exists>r<t k. p = posw R r (sib (k div 2 ^ r))) \<and>
     (\<forall>k\<in>K. \<forall>r<t k. posw R r (sib (k div 2 ^ r)) \<in> dom spent \<union> set to_load \<or>
        (\<exists>r'\<le>r. posw R r' (k div 2 ^ r') \<in> set frontier))"

definition live_targets :: "'d forest_env \<Rightarrow> (u64 \<Rightarrow> ForestNodeData res) \<Rightarrow> nat \<Rightarrow> u64 \<Rightarrow> ForestNodeData list \<Rightarrow> nat set \<Rightarrow> (nat \<Rightarrow> nat) \<Rightarrow> bool" where
  "live_targets E rd R leaves L K t \<longleftrightarrow> (\<forall>k\<in>K. live_leaf E rd R leaves L k (t k))"

lemma live_path:
  assumes "live_leaf E rd R leaves L k t" and "r \<le> t"
  shows "coord R r (k div 2 ^ r)" and "R \<le> 63" and "t \<le> R"
    and "is_root_position (posw R r (k div 2 ^ r)) leaves R \<longleftrightarrow> r = t"
    and "r < t \<Longrightarrow> parent (posw R r (k div 2 ^ r)) R = posw R (Suc r) (k div 2 ^ Suc r)"
    and "r < t \<Longrightarrow> posw R r (k div 2 ^ r) XOR 1 = posw R r (sib (k div 2 ^ r))"
proof -
  have ll: "unat leaves = length L" "R \<le> 63" "length L \<le> 2 ^ R" "root_at (length L) t (k div 2 ^ t)"
    using assms(1) by (simp_all add: live_leaf_def)
  then show "R \<le> 63" by simp
  show co: "coord R r (k div 2 ^ r)" using pop_coord [OF ll(3) path_pop [OF ll(4) assms(2)]] .
  show tR: "t \<le> R" using pop_coord [OF ll(3) path_pop [OF ll(4) order_refl]] by (simp add: coord_def)
  have "root_at (length L) r (k div 2 ^ r) \<longleftrightarrow> r = t"
  proof
    assume root: "root_at (length L) r (k div 2 ^ r)"
    show "r = t"
    proof (rule ccontr)
      assume "r \<noteq> t"
      then have "pop (length L) (Suc r) (k div 2 ^ r div 2)"
        using path_pop [OF ll(4), of "Suc r"] assms(2) by (simp add: div_power_Suc del: power_Suc)
      with root root_no_parent show False by blast
    qed
  qed (use ll in simp)
  then show "is_root_position (posw R r (k div 2 ^ r)) leaves R \<longleftrightarrow> r = t"
    using is_root_position_posw [of leaves R r "k div 2 ^ r"] ll co by simp
  show "r < t \<Longrightarrow> parent (posw R r (k div 2 ^ r)) R = posw R (Suc r) (k div 2 ^ Suc r)"
    unfolding div_power_Suc using parent_posw [OF co _ ll(2)] tR by simp
  show "r < t \<Longrightarrow> posw R r (k div 2 ^ r) XOR 1 = posw R r (sib (k div 2 ^ r))"
    using sibling_posw [OF co _ ll(2)] tR by simp
qed

lemma same_position:
  assumes "live_targets E rd R leaves L K t" and "k \<in> K" "r \<le> t k" "j \<in> K" "q \<le> t j"
    and "posw R r (k div 2 ^ r) = posw R q (j div 2 ^ q)"
  shows "r = q \<and> k div 2 ^ r = j div 2 ^ q"
proof -
  have "live_leaf E rd R leaves L k (t k)" "live_leaf E rd R leaves L j (t j)" using assms by (simp_all add: live_targets_def)
  from live_path(1,2) [OF this(1) assms(3)] live_path(1) [OF this(2) assms(5)] show ?thesis
    using posw_inj [of R r "k div 2 ^ r" q "j div 2 ^ q"] assms(6) by blast
qed

lemma detwin_inv_set: "set f = set g \<Longrightarrow> detwin_inv R K t f spent to_load = detwin_inv R K t g spent to_load"
  by (simp add: detwin_inv_def)

lemma detwin_cover:
  assumes "detwin_inv R K t frontier spent to_load" and "j \<in> K" and "q < t j"
  shows "posw R q (sib (j div 2 ^ q)) \<in> dom spent \<union> set to_load \<or> (\<exists>r'\<le>q. posw R r' (j div 2 ^ r') \<in> set frontier)"
  using assms unfolding detwin_inv_def by blast

lemma detwin_inv_frontier:
  assumes "detwin_inv R K t frontier spent to_load" and "\<forall>p\<in>set rest. on_path R K t p"
    and "\<And>j q r'. j \<in> K \<Longrightarrow> q < t j \<Longrightarrow> r' \<le> q \<Longrightarrow> posw R r' (j div 2 ^ r') \<in> set frontier \<Longrightarrow>
      \<exists>r'\<le>q. posw R r' (j div 2 ^ r') \<in> set rest"
  shows "detwin_inv R K t rest spent to_load"
proof -
  have "posw R q (sib (j div 2 ^ q)) \<in> dom spent \<union> set to_load \<or> (\<exists>r'\<le>q. posw R r' (j div 2 ^ r') \<in> set rest)"
    if "j \<in> K" "q < t j" for j q
    using detwin_cover [OF assms(1) that] assms(3) [OF that] by blast
  with assms(1,2) show ?thesis unfolding detwin_inv_def by blast
qed

text \<open>Replacing a position of the frontier by its parent, once its sibling is covered.\<close>

lemma detwin_advance:
  assumes lt: "live_targets E rd R leaves L K t" and "detwin_inv R K t frontier spent to_load"
    and k: "k \<in> K" "r < t k" and p: "p = posw R r (k div 2 ^ r)"
    and rest: "set frontier \<subseteq> insert p (set rest)" "set rest \<subseteq> set frontier"
    and spent: "\<And>q b. spent' q = Some b \<Longrightarrow> \<not> b \<and> on_path R K t q" "dom spent \<subseteq> dom spent'"
    and load: "set to_load \<subseteq> set to_load'" "set to_load' \<subseteq> insert (p XOR 1) (set to_load)"
    and covered: "p XOR 1 \<in> dom spent' \<union> set to_load'"
  shows "detwin_inv R K t (rest @ [parent p R]) spent' to_load'"
proof -
  have llk: "live_leaf E rd R leaves L k (t k)" using lt k by (simp add: live_targets_def)
  note path = live_path(5,6) [OF llk less_imp_le [OF k(2)] k(2)]
  have par: "on_path R K t (parent p R)" unfolding on_path_def p using path(1) k Suc_leI by blast
  have cover: "posw R q (sib (j div 2 ^ q)) \<in> dom spent' \<union> set to_load' \<or>
      (\<exists>r'\<le>q. posw R r' (j div 2 ^ r') \<in> set (rest @ [parent p R]))" if j: "j \<in> K" "q < t j" for j q
  proof -
    consider "posw R q (sib (j div 2 ^ q)) \<in> dom spent \<union> set to_load"
      | r' where "r' \<le> q" "posw R r' (j div 2 ^ r') \<in> set frontier"
      using detwin_cover [OF assms(2) j] by blast
    then show ?thesis
    proof cases
      case 1
      then show ?thesis using spent(2) load(1) by auto
    next
      case (2 r')
      show ?thesis
      proof (cases "posw R r' (j div 2 ^ r') = p")
        case False
        then show ?thesis using 2 rest(1) by auto
      next
        case True
        then have e: "r' = r" "j div 2 ^ r = k div 2 ^ r"
          using same_position [OF lt j(1) _ k(1) less_imp_le [OF k(2)], of r'] 2(1) j(2) p by auto
        show ?thesis
        proof (cases "q = r")
          case True
          then show ?thesis using covered path(2) e p by simp
        next
          case False
          then have "Suc r \<le> q" using 2(1) e(1) by simp
          moreover have "posw R (Suc r) (j div 2 ^ Suc r) = parent p R"
            using path(1) e(2) p by (simp add: div_power_Suc del: power_Suc)
          ultimately show ?thesis by auto
        qed
      qed
    qed
  qed
  have "\<exists>k\<in>K. \<exists>r<t k. q = posw R r (sib (k div 2 ^ r))" if "q \<in> set to_load'" for q
    using load(2) that assms(2) path(2) k p unfolding detwin_inv_def by (metis insertE subsetD)
  then show ?thesis using assms(2) par rest(2) spent(1) cover unfolding detwin_inv_def by auto
qed

text \<open>A sibling that leads to a target as well is on the same row, below the same parent.\<close>

lemma twin_path:
  assumes lt: "live_targets E rd R leaves L K t" and k: "k \<in> K" "r < t k" and p: "p = posw R r (k div 2 ^ r)"
    and "on_path R K t (p XOR 1)"
  obtains j where "j \<in> K" and "r < t j" and "p XOR 1 = posw R r (j div 2 ^ r)" and "parent (p XOR 1) R = parent p R"
proof -
  have llk: "live_leaf E rd R leaves L k (t k)" using lt k by (simp add: live_targets_def)
  note path = live_path [OF llk less_imp_le [OF k(2)]]
  obtain j q where j: "j \<in> K" "q \<le> t j" "p XOR 1 = posw R q (j div 2 ^ q)" using assms(5) by (auto simp: on_path_def)
  have llj: "live_leaf E rd R leaves L j (t j)" using lt j by (simp add: live_targets_def)
  note pj = live_path [OF llj j(2)]
  have rR: "r < R" using k(2) path(3) by simp
  have sib: "p XOR 1 = posw R r (sib (k div 2 ^ r))" using path(6) k p by simp
  have q: "q = r" "j div 2 ^ q = sib (k div 2 ^ r)"
    using posw_inj [OF path(2) pj(1) coord_sib [OF path(1) rR]] j(3) sib by auto
  have half: "sib (k div 2 ^ r) div 2 = k div 2 ^ r div 2" by (auto simp: sib_def elim!: oddE)
  have "pop (length L) (Suc r) (sib (k div 2 ^ r) div 2)"
    unfolding half using llk path_pop [of "length L" "t k" k "Suc r"] k(2)
    by (simp add: live_leaf_def div_power_Suc del: power_Suc)
  then have "\<not> root_at (length L) q (j div 2 ^ q)" using root_no_parent q by metis
  then have "q \<noteq> t j" using llj by (auto simp: live_leaf_def)
  then have "r < t j" using j(2) q(1) by simp
  moreover have "parent (p XOR 1) R = parent p R"
    using parent_posw [OF coord_sib [OF path(1) rR] rR path(2)] parent_posw [OF path(1) rR path(2)] half sib p by simp
  ultimately show ?thesis using that j q(1) by blast
qed

lemma detwin_spec:
  assumes lt: "live_targets E rd R leaves L K t" and "detwin_inv R K t frontier spent to_load"
    and "sum_list (map (\<lambda>p. R + 1 - detect_row p R) frontier) \<le> fuel"
  shows "\<exists>spent' to_load'. detwin leaves R fuel frontier spent to_load = Inr (spent', to_load') \<and> detwin_inv R K t [] spent' to_load'"
  using assms(2,3)
proof (induction fuel arbitrary: frontier spent to_load)
  case 0
  show ?case
  proof (cases frontier)
    case Nil
    then show ?thesis using 0 by simp
  next
    case (Cons p ps)
    then obtain k r where kr: "k \<in> K" "r \<le> t k" "p = posw R r (k div 2 ^ r)" using 0(1) by (auto simp: detwin_inv_def on_path_def)
    then have "live_leaf E rd R leaves L k (t k)" using lt by (simp add: live_targets_def)
    from live_path(1-3) [OF this kr(2)] have "detect_row p R \<le> R" using detect_row_posw kr by simp
    then show ?thesis using 0(2) Cons by simp
  qed
next
  case (Suc fuel)
  show ?case
  proof (cases frontier)
    case Nil
    then show ?thesis using Suc.prems by simp
  next
    case (Cons p ps)
    then obtain k r where kr: "k \<in> K" "r \<le> t k" "p = posw R r (k div 2 ^ r)" using Suc.prems(1) by (auto simp: detwin_inv_def on_path_def)
    then have ll: "live_leaf E rd R leaves L k (t k)" using lt by (simp add: live_targets_def)
    note path = live_path [OF ll kr(2)]
    have row: "detect_row p R = r" using detect_row_posw path kr(3) by simp
    show ?thesis
    proof (cases "r = t k")
      case True
      have "detwin_inv R K t ps spent to_load"
      proof (rule detwin_inv_frontier [OF Suc.prems(1)])
        show "\<forall>p\<in>set ps. on_path R K t p" using Suc.prems(1) Cons by (simp add: detwin_inv_def)
        show "\<exists>r'\<le>q. posw R r' (j div 2 ^ r') \<in> set ps" if "j \<in> K" "q < t j" "r' \<le> q" "posw R r' (j div 2 ^ r') \<in> set frontier" for j q r'
        proof -
          have "posw R r' (j div 2 ^ r') \<noteq> p"
          proof
            assume e: "posw R r' (j div 2 ^ r') = p"
            then have "r' = r" using same_position [OF lt that(1) _ kr(1,2), of r'] that kr(3) by auto
            have "live_leaf E rd R leaves L j (t j)" using lt that by (simp add: live_targets_def)
            from live_path(4) [OF this, of r'] that(2,3) path(4) True e kr(3) show False by simp
          qed
          then show ?thesis using that Cons by auto
        qed
      qed
      then show ?thesis using Suc.IH [of ps] Suc.prems(2) Cons row path(3,4) kr True by simp
    next
      case False
      then have rt: "r < t k" using kr by simp
      have nroot: "\<not> is_root_position p leaves R" using path(4) False kr by simp
      have par: "detect_row (parent p R) R = Suc r"
        using live_path(1) [OF ll Suc_leI [OF rt]] path(2) path(5) [OF rt] detect_row_posw kr(3) by simp
      have sum: "sum_list (map (\<lambda>p. R + 1 - detect_row p R) (xs @ [parent p R])) \<le> fuel"
        if "sum_list (map (\<lambda>p. R + 1 - detect_row p R) xs) \<le> sum_list (map (\<lambda>p. R + 1 - detect_row p R) ps)" for xs
        using that Suc.prems(2) Cons row par rt path(3) by simp
      have old: "spent q = Some b \<Longrightarrow> \<not> b \<and> on_path R K t q" for q b using Suc.prems(1) unfolding detwin_inv_def by blast
      have onp: "on_path R K t p" using kr by (auto simp: on_path_def)
      show ?thesis
      proof (cases "ps \<noteq> [] \<and> hd ps = p XOR 1")
        case True
        then obtain rest where rest: "ps = (p XOR 1) # rest" by (cases ps) auto
        then have ons: "on_path R K t (p XOR 1)" using Suc.prems(1) Cons by (simp add: detwin_inv_def)
        have twice: "(p XOR 1) XOR 1 = p" by (simp add: xor.assoc)
        obtain j where j: "j \<in> K" "r < t j" "p XOR 1 = posw R r (j div 2 ^ r)" "parent (p XOR 1) R = parent p R"
          using twin_path [OF lt kr(1) rt kr(3) ons] .
        let ?spent = "spent(p \<mapsto> False, p XOR 1 \<mapsto> False)"
        have inv1: "detwin_inv R K t (((p XOR 1) # rest) @ [parent p R]) ?spent to_load"
          by (rule detwin_advance [OF lt Suc.prems(1) kr(1) rt kr(3)])
            (use old onp ons rest Cons in \<open>auto split: if_splits\<close>)
        have "detwin_inv R K t ((rest @ [parent p R]) @ [parent (p XOR 1) R]) ?spent to_load"
          by (rule detwin_advance [OF lt inv1 j(1-3)])
            (use old onp ons twice in \<open>auto split: if_splits\<close>)
        then have "detwin_inv R K t (rest @ [parent p R]) ?spent to_load"
          using j(4) by (subst detwin_inv_set [of _ "(rest @ [parent p R]) @ [parent (p XOR 1) R]"]) simp_all
        moreover have "sum_list (map (\<lambda>p. R + 1 - detect_row p R) (rest @ [parent p R])) \<le> fuel"
          by (rule sum) (simp add: rest)
        ultimately obtain spent' to_load' where "detwin leaves R fuel (rest @ [parent p R]) ?spent to_load = Inr (spent', to_load')"
          "detwin_inv R K t [] spent' to_load'" using Suc.IH by blast
        then show ?thesis using nroot Cons rest by simp
      next
        case False
        have "detwin_inv R K t (ps @ [parent p R]) spent (to_load @ [p XOR 1])"
          by (rule detwin_advance [OF lt Suc.prems(1) kr(1) rt kr(3)]) (use old Cons in auto)
        from Suc.IH [OF this sum] show ?thesis using nroot Cons False by (cases ps) auto
      qed
    qed
  qed
qed


lemma load_spent:
  assumes "\<forall>p\<in>set ps. rs p = Inr (g p)"
  shows "fold_r (\<lambda>spent position. bind_r (rs position) (\<lambda>b. Inr (spent(position \<mapsto> b)))) spent ps =
    Inr (\<lambda>p. if p \<in> set ps then Some (g p) else spent p)"
  using assms by (induction ps arbitrary: spent) (auto simp: fun_eq_iff)

lemma translate_positions_spec:
  assumes "\<forall>k\<in>set ks. live_leaf E (read_with_overlay s overlay) (sf_rows s) leaves L k (t k)"
  shows "view_translate_proof_positions s overlay leaves (map of_nat ks) =
    map_r (\<lambda>p. proof_position_from_spent p leaves (sf_rows s) (read_spent s overlay)) (map of_nat ks)"
proof -
  let ?R = "sf_rows s" and ?K = "set ks" and ?ps = "map of_nat ks :: u64 list" and ?rs = "read_spent s overlay"
  have lt: "live_targets E (read_with_overlay s overlay) ?R leaves L ?K t" using assms by (simp add: live_targets_def)
  let ?frontier = "remdups_adj (sort ?ps)"
  have front: "set ?frontier = (\<lambda>k. posw ?R 0 (k div 2 ^ 0)) ` ?K" by simp
  have inv: "detwin_inv ?R ?K t ?frontier Map.empty []"
  proof -
    have "on_path ?R ?K t (posw ?R 0 (k div 2 ^ 0))" if "k \<in> ?K" for k using that unfolding on_path_def by blast
    moreover have "\<exists>r'\<le>r. posw ?R r' (k div 2 ^ r') \<in> set ?frontier" if "k \<in> ?K" for k r
      using that unfolding front by blast
    ultimately show ?thesis unfolding detwin_inv_def front by (intro conjI) (blast, simp, simp, blast)
  qed
  have "sum_list (map (\<lambda>p. ?R + 1 - detect_row p ?R) ?frontier) \<le> length ?frontier * (?R + 1)"
    by (rule order_trans [OF sum_list_mono [where g = "\<lambda>_. ?R + 1"]]) (simp_all add: sum_list_triv)
  also have "\<dots> \<le> length ?ps * (?R + 2)" using remdups_adj_length [of "sort ?ps"] by (intro mult_mono) simp_all
  finally obtain spent to_load where dt: "detwin leaves ?R (length ?ps * (?R + 2)) ?frontier Map.empty [] = Inr (spent, to_load)"
    and fin: "detwin_inv ?R ?K t [] spent to_load"
    using detwin_spec [OF lt inv] by blast
  define g where "g p = projr (?rs p)" for p
  have g: "?rs (posw ?R r (sib (k div 2 ^ r))) = Inr (g (posw ?R r (sib (k div 2 ^ r))))"
      "g (posw ?R r (sib (k div 2 ^ r))) = (\<not> live_row E L k r)" if "k \<in> ?K" "r < t k" for k r
    using read_spent_live [OF bspec [OF assms that(1)] that(2)] by (simp_all add: g_def)
  have "\<forall>p\<in>set (sort to_load). ?rs p = Inr (g p)" using fin g(1) unfolding detwin_inv_def by (metis set_sort)
  note loaded = load_spent [OF this, of spent]
  define known where "known = (\<lambda>p. if p \<in> set (sort to_load) then Some (g p) else spent p)"
  have look: "ok_or (known (posw ?R r (sib (k div 2 ^ r)))) m = Inr (\<not> live_row E L k r)" if kr: "k \<in> ?K" "r < t k" for k r m
  proof (cases "posw ?R r (sib (k div 2 ^ r)) \<in> set to_load")
    case True
    then show ?thesis using g(2) [OF kr] by (simp add: known_def)
  next
    case False
    then obtain b where b: "spent (posw ?R r (sib (k div 2 ^ r))) = Some b" using detwin_cover [OF fin kr] by auto
    then have "\<not> b" "on_path ?R ?K t (posw ?R r (sib (k div 2 ^ r)))" using fin unfolding detwin_inv_def by blast+
    then obtain j q where j: "j \<in> ?K" "q \<le> t j" "posw ?R r (sib (k div 2 ^ r)) = posw ?R q (j div 2 ^ q)"
      by (auto simp: on_path_def)
    have ll: "live_leaf E (read_with_overlay s overlay) ?R leaves L j (t j)" using assms j by blast
    then have "?rs (posw ?R q (j div 2 ^ q)) = Inr False"
      using path_pop [of "length L" "t j" j q] path_live [of L j E q] j(2) by (simp add: live_leaf_def read_spent_def)
    then have "live_row E L k r" using g [OF kr] j(3) by simp
    with \<open>\<not> b\<close> b False show ?thesis by (simp add: known_def)
  qed
  have one: "proof_position_from_spent (of_nat k) leaves ?R (\<lambda>sibling. ok_or (known sibling) m) =
      proof_position_from_spent (of_nat k) leaves ?R ?rs" if k: "k \<in> ?K" for k m
  proof -
    have ll: "live_leaf E (read_with_overlay s overlay) ?R leaves L k (t k)" using assms k by blast
    show ?thesis using proof_position_spec [OF ll, of "\<lambda>sibling. ok_or (known sibling) m"] look [OF k]
        proof_position_spec [OF ll read_spent_live [OF ll]] by simp
  qed
  have same: "map_r f xs = map_r h xs" if "\<forall>x\<in>set xs. f x = h x" for f h :: "u64 \<Rightarrow> u64 res" and xs
    using that by (induction xs) simp_all
  have "view_translate_proof_positions s overlay leaves ?ps =
      map_r (\<lambda>p. proof_position_from_spent p leaves ?R (\<lambda>sibling. ok_or (known sibling) ''detwinned traversal omitted sibling'')) ?ps"
    unfolding view_translate_proof_positions_def translate_proof_positions_def dt bind_r_simps prod.case
      read_spent_def [symmetric, of s overlay, abs_def, unfolded fun_eq_iff] loaded
    by (simp add: loaded [unfolded read_spent_def] known_def)
  also have "\<dots> = map_r (\<lambda>p. proof_position_from_spent p leaves ?R ?rs) ?ps"
    by (rule same) (use one in auto)
  finally show ?thesis .
qed

text \<open>C40. The batch translation of a block's targets, which visits every ancestor once and reads no node
  both of whose sides lead to a target, ends within its bound and gives for live leaves exactly what
  the walk of each target alone gives; in particular it never misses a sibling it needs, and each
  translated position resolves to the hash of its leaf.\<close>

theorem batch_translation_exact:
  assumes "canonical E s overlay L" and "unat leaves = length L"
    and "\<forall>k\<in>set ks. k < length L \<and> \<not> nd_spent (L ! k)"
  shows "\<exists>ps. view_translate_proof_positions s overlay leaves (map of_nat ks) = Inr ps \<and>
     list_all2 (\<lambda>k p. proof_position_from_spent (of_nat k) leaves (sf_rows s) (read_spent s overlay) = Inr p \<and>
       position_hash_with_overlay s p leaves overlay = Inr (nd_hash (L ! k))) ks ps"
proof -
  have "\<forall>k\<in>set ks. \<exists>t. live_leaf E (read_with_overlay s overlay) (sf_rows s) leaves L k t"
    using live_leafI [OF assms(1,2)] assms(3) by metis
  then obtain t where t: "\<forall>k\<in>set ks. live_leaf E (read_with_overlay s overlay) (sf_rows s) leaves L k (t k)" by metis
  let ?p = "\<lambda>k. posw (tree_rows leaves) (t k - length (dirs E L k (t k))) (promote (k div 2 ^ t k) (dirs E L k (t k)))"
  have p: "proof_position_from_spent (of_nat k) leaves (sf_rows s) (read_spent s overlay) = Inr (?p k)"
    "position_hash_with_overlay s (?p k) leaves overlay = Inr (nd_hash (L ! k))" if "k \<in> set ks" for k
    using proof_position_spec [OF bspec [OF t that] read_spent_live [OF bspec [OF t that]]] leaf_position_hash [OF bspec [OF t that]] by simp_all
  have "map_r (\<lambda>p. proof_position_from_spent p leaves (sf_rows s) (read_spent s overlay)) (map of_nat ks) = Inr (map ?p ks)"
    using p(1) by (induction ks) simp_all
  then have "view_translate_proof_positions s overlay leaves (map of_nat ks) = Inr (map ?p ks)"
    using translate_positions_spec [OF t] by simp
  moreover have "list_all2 (\<lambda>k p. proof_position_from_spent (of_nat k) leaves (sf_rows s) (read_spent s overlay) = Inr p \<and>
       position_hash_with_overlay s p leaves overlay = Inr (nd_hash (L ! k))) ks (map ?p ks)"
    using p by (auto simp: list_all2_map2 intro!: list.rel_refl_strong)
  ultimately show ?thesis by blast
qed

theorem batch_translation_exact_witness:
  "\<exists>ov ps. canonical example_fenv example_steady ov (new_leaves example_additions) \<and>
     view_translate_proof_positions example_steady ov 3 [2, 0, 1] = Inr ps \<and> length ps = 3"
proof -
  obtain ov :: "u64 \<Rightarrow> JournalNodeState option" where ov: "canonical example_fenv example_steady ov (new_leaves example_additions)"
    using example_first_block by metis
  have "unat (3 :: u64) = length (new_leaves example_additions)"
    "\<forall>k\<in>set [2, 0, 1]. k < length (new_leaves example_additions) \<and> \<not> nd_spent (new_leaves example_additions ! k)"
    by (simp_all add: new_leaves_def example_additions_def)
  from batch_translation_exact [OF ov this] obtain ps where
    "view_translate_proof_positions example_steady ov 3 (map of_nat [2, 0, 1]) = Inr ps" "length [2, 0, 1 :: nat] = length ps"
    by (blast dest: list_all2_lengthD)
  with ov show ?thesis by (intro exI [of _ ov] exI [of _ ps]) simp
qed

end
