(* ===== verification/Header_Index.thy ===== *)
theory Header_Index
  imports Journal_File
begin

text \<open>
  The header index (\<open>src/src/header_index.rs\<close>): block headers at \<open>80 * height\<close> in a flat file, and a
  database from the first 16 bytes of a block hash to its height. Modelled are creation, opening,
  the runtime operations with the online growth of the database, and the bootstrap writer. It is
  shown that \<open>get_height\<close> is exactly the inverse of \<open>get_by_height\<close> whatever sequence of puts and
  removals ran, and what a failure leaves behind. A poisoned lock, which takes a panic in another
  thread, is not modelled.
\<close>

section \<open>The database\<close>

text \<open>
  The hash table of \<open>floresta-db\<close> is a parameter; a value of type \<open>'d\<close> is a database, whether it
  is open or at rest on its path. Errors of \<open>put\<close> other than an exhausted mapping carry the
  database's message.
\<close>

record index_config =
  ic_bucket_count :: u64
  ic_blob_capacity :: u64
  ic_block_size :: u64
  ic_body_capacity :: u64

datatype put_outcome = Stored | CapacityExhausted | PutError error

record 'd index_db =
  id_create :: "index_config \<Rightarrow> 'd res"
  id_ensure_headroom :: "'d \<Rightarrow> u64 \<Rightarrow> 'd \<times> bool res"
  id_open_runtime :: "'d \<Rightarrow> 'd res"
  id_get :: "'d \<Rightarrow> bytes \<Rightarrow> bytes option res"
  id_put :: "'d \<Rightarrow> bytes \<Rightarrow> bytes \<Rightarrow> 'd \<times> put_outcome"
  id_delete :: "'d \<Rightarrow> bytes \<Rightarrow> 'd \<times> unit res"
  id_write_only :: "'d \<Rightarrow> unit res"
  id_put_batch :: "'d \<Rightarrow> (bytes \<times> bytes) list \<Rightarrow> 'd \<times> unit res"
  id_sync :: "'d \<Rightarrow> 'd \<times> unit res"
  id_close :: "'d \<Rightarrow> 'd \<times> unit res"
  id_view :: "'d \<Rightarrow> bytes \<Rightarrow> bytes option"

text \<open>
  What the database documents: a successful operation has its effect on the stored pairs, a failed
  one changes none of them, and maintenance keeps them. \<open>put_batch\<close> appends distinct new keys.
\<close>

definition index_db_ok :: "'d index_db \<Rightarrow> bool" where
  "index_db_ok D \<longleftrightarrow>
     (\<forall>d k v. id_get D d k = Inr v \<longrightarrow> v = id_view D d k) \<and>
     (\<forall>d k v. id_view D (fst (id_put D d k v)) =
        (if snd (id_put D d k v) = Stored then (id_view D d)(k \<mapsto> v) else id_view D d)) \<and>
     (\<forall>d k. id_view D (fst (id_delete D d k)) =
        (if snd (id_delete D d k) = Inr () then (id_view D d)(k := None) else id_view D d)) \<and>
     (\<forall>d kvs. distinct (map fst kvs) \<longrightarrow> (\<forall>k\<in>fst ` set kvs. id_view D d k = None) \<longrightarrow>
        snd (id_put_batch D d kvs) = Inr () \<longrightarrow>
        id_view D (fst (id_put_batch D d kvs)) = id_view D d ++ map_of kvs) \<and>
     (\<forall>d n. id_view D (fst (id_ensure_headroom D d n)) = id_view D d) \<and>
     (\<forall>d d'. id_open_runtime D d = Inr d' \<longrightarrow> id_view D d' = id_view D d) \<and>
     (\<forall>d. id_view D (fst (id_sync D d)) = id_view D d) \<and>
     (\<forall>d. id_view D (fst (id_close D d)) = id_view D d) \<and>
     (\<forall>c d. id_create D c = Inr d \<longrightarrow> id_view D d = Map.empty)"

section \<open>State and sizes\<close>

definition HEADER_SIZE :: nat where "HEADER_SIZE = 80"
definition RUNTIME_HEADROOM :: u64 where "RUNTIME_HEADROOM = push_bit 20 64"
definition HASH_KEY_SIZE :: nat where "HASH_KEY_SIZE = 16"
definition HEIGHT_VALUE_SIZE :: nat where "HEIGHT_VALUE_SIZE = 8"
definition BLOCK_SIZE :: u64 where "BLOCK_SIZE = push_bit 20 1"

text \<open>\<open>hi_rest\<close> is the database at its path, as the last close or failed operation left it; it is
  read only while \<open>hi_heights\<close> is \<open>None\<close>, the failed-growth state.\<close>

record 'd HeaderIndex =
  hi_headers :: vfile
  hi_heights :: "'d option"
  hi_rest :: 'd

definition header_offset :: "u32 \<Rightarrow> nat res" where
  "header_offset height =
     bind_r (ok_or (checked_mul (ucast height :: u64) (of_nat HEADER_SIZE)) ''header position overflow'')
       (\<lambda>p. Inr (unat p))"

definition div_ceil :: "u64 \<Rightarrow> u64 \<Rightarrow> u64" where
  "div_ceil a b = (if a mod b = 0 then a div b else a div b + 1)"

definition checked_next_power_of_two :: "u64 \<Rightarrow> u64 option" where
  "checked_next_power_of_two w =
     map_option (\<lambda>k. push_bit k 1) (find (\<lambda>k. unat w \<le> 2 ^ k) [0..<64])"

definition align_capacity :: "u64 \<Rightarrow> u64 res" where
  "align_capacity n =
     ok_or (checked_mul (div_ceil (max n BLOCK_SIZE) BLOCK_SIZE) BLOCK_SIZE) ''header index capacity overflow''"

definition available_heights :: "'d option \<Rightarrow> 'd res" where
  "available_heights heights = ok_or heights ''header index unavailable after failed body capacity growth''"

section \<open>Creating and opening\<close>

definition index_config_for :: "u64 \<Rightarrow> index_config res" where
  "index_config_for header_count =
     bind_r (ok_or (checked_next_power_of_two (max (div_ceil header_count 4) 1024)) ''header index bucket count overflow'') (\<lambda>buckets.
     bind_r (ok_or (Option.bind (checked_mul header_count 64) (\<lambda>n. checked_add n RUNTIME_HEADROOM)) ''header index capacity overflow'') (\<lambda>n.
     bind_r (align_capacity n) (\<lambda>body.
       Inr \<lparr>ic_bucket_count = buckets, ic_blob_capacity = BLOCK_SIZE, ic_block_size = BLOCK_SIZE, ic_body_capacity = body\<rparr>)))"

text \<open>The two paths before the call: \<open>None\<close> where nothing exists. Operation 0 creates the file,
  1 sets its length and 2 allocates its blocks.\<close>

definition HeaderIndex_create ::
  "'d index_db \<Rightarrow> faults \<Rightarrow> vfile option \<Rightarrow> 'd option \<Rightarrow> u32 \<Rightarrow> 'd HeaderIndex res" where
  "HeaderIndex_create D io header_path index_path max_height =
     bind_r (ensure (header_path = None) ''header file already exists'') (\<lambda>_.
     bind_r (ensure (index_path = None) ''header index already exists'') (\<lambda>_.
     let header_count = (ucast max_height :: u64) + 1 in
     bind_r (ok_or (checked_mul header_count (of_nat HEADER_SIZE)) ''header file size overflow'') (\<lambda>header_bytes.
     bind_r (if io 0 = None then Inr (synced_file []) else Inl (IoError ''open'')) (\<lambda>headers.
     bind_r (snd (vf_set_len io 1 headers (unat header_bytes))) (\<lambda>_.
     let headers = fst (vf_set_len io 1 headers (unat header_bytes)) in
     bind_r (if unat header_bytes < 2 ^ 63 then Inr () else bail ''header file exceeds off_t'') (\<lambda>_.
     bind_r (if io 2 = None then Inr () else Inl (IoError ''failed to allocate header file'')) (\<lambda>_.
     bind_r (index_config_for header_count) (\<lambda>config.
     bind_r (id_create D config) (\<lambda>heights.
       Inr \<lparr>hi_headers = headers, hi_heights = Some heights, hi_rest = heights\<rparr>)))))))))"

definition HeaderIndex_open :: "'d index_db \<Rightarrow> vfile \<Rightarrow> 'd \<Rightarrow> 'd HeaderIndex res" where
  "HeaderIndex_open D headers rest =
     bind_r (ensure (length (vf_data headers) mod HEADER_SIZE = 0) ''header file length is not a multiple of the header size'') (\<lambda>_.
     bind_r (snd (id_ensure_headroom D rest RUNTIME_HEADROOM)) (\<lambda>_.
     bind_r (id_open_runtime D (fst (id_ensure_headroom D rest RUNTIME_HEADROOM))) (\<lambda>heights.
       Inr \<lparr>hi_headers = headers, hi_heights = Some heights, hi_rest = heights\<rparr>)))"

section \<open>Reading\<close>

text \<open>A slot that is all zero holds no header.\<close>

definition read_header :: "'h header_ops \<Rightarrow> 'd HeaderIndex \<Rightarrow> u32 \<Rightarrow> 'h option res" where
  "read_header H ix height =
     bind_r (header_offset height) (\<lambda>offset.
       if length (vf_data (hi_headers ix)) < offset + HEADER_SIZE then Inr None
       else
         bind_r (ok_or (read_exact_at (vf_data (hi_headers ix)) HEADER_SIZE offset) ''read'') (\<lambda>bs.
           if bs = replicate HEADER_SIZE 0 then Inr None
           else bind_r (h_dec H bs) (\<lambda>(header, rest).
             if rest = [] then Inr (Some header) else bail ''data not consumed entirely when explicitly deserializing'')))"

definition get_by_height :: "'h header_ops \<Rightarrow> 'd HeaderIndex \<Rightarrow> u32 \<Rightarrow> 'h option res" where
  "get_by_height H ix height = bind_r (available_heights (hi_heights ix)) (\<lambda>_. read_header H ix height)"

definition hash_key :: "bytes \<Rightarrow> bytes" where
  "hash_key hash = take HASH_KEY_SIZE hash"

text \<open>The stored key is a prefix only, so the header itself decides.\<close>

definition read_height :: "'d index_db \<Rightarrow> 'h header_ops \<Rightarrow> 'd HeaderIndex \<Rightarrow> 'd \<Rightarrow> bytes \<Rightarrow> u32 option res" where
  "read_height D H ix heights block_hash =
     bind_r (id_get D heights (hash_key block_hash)) (\<lambda>v.
       case v of
         None \<Rightarrow> Inr None
       | Some value \<Rightarrow>
           bind_r (ensure (length value = HEIGHT_VALUE_SIZE) ''indexed header height has a wrong length'') (\<lambda>_.
           bind_r (ensure (unat (from_le value :: u64) < 2 ^ 32) ''indexed header height exceeds u32'') (\<lambda>_.
           let height = ucast (from_le value :: u64) in
           bind_r (read_header H ix height) (\<lambda>found.
             case found of
               Some header \<Rightarrow> Inr (if h_block_hash H header = block_hash then Some height else None)
             | None \<Rightarrow> Inr None))))"

definition get_height :: "'d index_db \<Rightarrow> 'h header_ops \<Rightarrow> 'd HeaderIndex \<Rightarrow> bytes \<Rightarrow> u32 option res" where
  "get_height D H ix block_hash =
     bind_r (available_heights (hi_heights ix)) (\<lambda>heights. read_height D H ix heights block_hash)"

section \<open>Writing\<close>

definition grow_heights :: "'d index_db \<Rightarrow> 'd HeaderIndex \<Rightarrow> 'd HeaderIndex \<times> bool res" where
  "grow_heights D ix =
     (case hi_heights ix of
        None \<Rightarrow> (ix, bail ''header index unavailable after failed body capacity growth'')
      | Some database \<Rightarrow>
          case id_close D database of (rest, closed) \<Rightarrow>
          bind_s (ix\<lparr>hi_heights := None, hi_rest := rest\<rparr>, closed) (\<lambda>ix _.
          case id_ensure_headroom D (hi_rest ix) RUNTIME_HEADROOM of (rest, headroom) \<Rightarrow>
          bind_s (ix\<lparr>hi_rest := rest\<rparr>, headroom) (\<lambda>ix grew.
          case id_open_runtime D (hi_rest ix) of
            Inl e \<Rightarrow> (ix, Inl e)
          | Inr database \<Rightarrow> (ix\<lparr>hi_heights := Some database\<rparr>, Inr grew))))"

definition ensure_height :: "faults \<Rightarrow> 'd HeaderIndex \<Rightarrow> u32 \<Rightarrow> 'd HeaderIndex \<times> unit res" where
  "ensure_height io ix height =
     bind_s (ix, bind_r (header_offset height) (\<lambda>offset.
         ok_or (if offset + HEADER_SIZE < 2 ^ 64 then Some (offset + HEADER_SIZE) else None) ''header file length overflow''))
       (\<lambda>ix required.
          if length (vf_data (hi_headers ix)) < required
          then case vf_set_len io 0 (hi_headers ix) required of (f, r) \<Rightarrow> (ix\<lparr>hi_headers := f\<rparr>, r)
          else (ix, Inr ()))"

definition write_header :: "faults \<Rightarrow> nat \<Rightarrow> 'd HeaderIndex \<Rightarrow> u32 \<Rightarrow> bytes \<Rightarrow> 'd HeaderIndex \<times> unit res" where
  "write_header io k ix height bs =
     bind_s (ix, header_offset height) (\<lambda>ix offset.
       case vf_write io k (hi_headers ix) bs offset of (f, r) \<Rightarrow> (ix\<lparr>hi_headers := f\<rparr>, r))"

text \<open>The insertion into the database, with one retry after its mapping has grown.\<close>

definition put_height :: "'d index_db \<Rightarrow> 'd HeaderIndex \<Rightarrow> bytes \<Rightarrow> bytes \<Rightarrow> 'd HeaderIndex \<times> unit res" where
  "put_height D ix key value =
     (case hi_heights ix of
        None \<Rightarrow> (ix, bail ''header index unavailable after failed body capacity growth'')
      | Some database \<Rightarrow>
          case id_put D database key value of
            (database, Stored) \<Rightarrow> (ix\<lparr>hi_heights := Some database\<rparr>, Inr ())
          | (database, PutError e) \<Rightarrow> (ix\<lparr>hi_heights := Some database\<rparr>, Inl e)
          | (database, CapacityExhausted) \<Rightarrow>
              bind_s (grow_heights D (ix\<lparr>hi_heights := Some database\<rparr>)) (\<lambda>ix grew.
                if \<not> grew then (ix, bail ''header index body capacity did not grow'')
                else
                  case hi_heights ix of
                    None \<Rightarrow> (ix, bail ''header index unavailable after failed body capacity growth'')
                  | Some database \<Rightarrow>
                      case id_put D database key value of
                        (database, outcome) \<Rightarrow>
                          (ix\<lparr>hi_heights := Some database\<rparr>,
                           case outcome of Stored \<Rightarrow> Inr ()
                           | CapacityExhausted \<Rightarrow> bail ''mapped file''
                           | PutError e \<Rightarrow> Inl e)))"

definition HeaderIndex_put :: "'d index_db \<Rightarrow> 'h header_ops \<Rightarrow> faults \<Rightarrow> 'd HeaderIndex \<Rightarrow> u32 \<Rightarrow> 'h \<Rightarrow> 'd HeaderIndex \<times> unit res" where
  "HeaderIndex_put D H io ix height header =
     (let bs = h_enc H header in
      bind_s (ix, ensure (length bs = HEADER_SIZE) ''header serialized to a wrong length'') (\<lambda>ix _.
      bind_s (put_height D ix (hash_key (h_block_hash H header)) (le_bytes 8 (ucast height :: u64))) (\<lambda>ix _.
      bind_s (ensure_height io ix height) (\<lambda>ix _.
        write_header io 1 ix height bs))))"

definition HeaderIndex_remove :: "'d index_db \<Rightarrow> 'h header_ops \<Rightarrow> faults \<Rightarrow> 'd HeaderIndex \<Rightarrow> u32 \<Rightarrow> bytes \<Rightarrow> 'd HeaderIndex \<times> unit res" where
  "HeaderIndex_remove D H io ix height block_hash =
     bind_s (ix, available_heights (hi_heights ix)) (\<lambda>ix heights.
     bind_s (ix, read_height D H ix heights block_hash) (\<lambda>ix indexed.
     bind_s (if indexed = Some height
             then case id_delete D heights (hash_key block_hash) of (d, r) \<Rightarrow> (ix\<lparr>hi_heights := Some d\<rparr>, r)
             else (ix, Inr ())) (\<lambda>ix _.
     bind_s (ix, read_header H ix height) (\<lambda>ix found.
       case found of
         Some header \<Rightarrow>
           if h_block_hash H header = block_hash
           then write_header io 0 ix height (replicate HEADER_SIZE 0) else (ix, Inr ())
       | None \<Rightarrow> (ix, Inr ())))))"

definition HeaderIndex_sync :: "'d index_db \<Rightarrow> faults \<Rightarrow> 'd HeaderIndex \<Rightarrow> 'd HeaderIndex \<times> unit res" where
  "HeaderIndex_sync D io ix =
     bind_s (ix, available_heights (hi_heights ix)) (\<lambda>ix heights.
       case (vf_sync io 0 (hi_headers ix), id_sync D heights) of
         ((f, headers_result), (d, heights_result)) \<Rightarrow>
           (ix\<lparr>hi_headers := f, hi_heights := Some d\<rparr>,
            case headers_result of Inl e \<Rightarrow> Inl e | Inr _ \<Rightarrow> heights_result))"

text \<open>Closing leaves the two files.\<close>

definition HeaderIndex_close :: "'d index_db \<Rightarrow> faults \<Rightarrow> 'd HeaderIndex \<Rightarrow> (vfile \<times> 'd) \<times> unit res" where
  "HeaderIndex_close D io ix =
     (case vf_sync io 0 (hi_headers ix) of (f, headers_result) \<Rightarrow>
        case hi_heights ix of
          None \<Rightarrow> ((f, hi_rest ix), bail ''header index unavailable after failed body capacity growth'')
        | Some d \<Rightarrow>
            case id_close D d of (rest, heights_result) \<Rightarrow>
              ((f, rest), bind_r headers_result (\<lambda>_. heights_result)))"

section \<open>The bootstrap writer\<close>

definition build_writer :: "'d index_db \<Rightarrow> 'd HeaderIndex \<Rightarrow> unit res" where
  "build_writer D ix = bind_r (available_heights (hi_heights ix)) (id_write_only D)"

fun write_headers :: "faults \<Rightarrow> nat \<Rightarrow> 'd HeaderIndex \<Rightarrow> (u32 \<times> bytes \<times> bytes) list \<Rightarrow> 'd HeaderIndex \<times> unit res" where
  "write_headers io k ix [] = (ix, Inr ())"
| "write_headers io k ix ((height, bs, _) # entries) =
     bind_s (write_header io k ix height bs) (\<lambda>ix _. write_headers io (k + 1) ix entries)"

definition put_batch :: "'d index_db \<Rightarrow> faults \<Rightarrow> 'd HeaderIndex \<Rightarrow> (u32 \<times> bytes \<times> bytes) list \<Rightarrow> 'd HeaderIndex \<times> unit res" where
  "put_batch D io ix entries =
     bind_s (ix, available_heights (hi_heights ix)) (\<lambda>ix heights.
     bind_s (ix, id_write_only D heights) (\<lambda>ix _.
     bind_s (write_headers io 0 ix entries) (\<lambda>ix _.
       case id_put_batch D heights (map (\<lambda>(height, _, hash). (hash_key hash, le_bytes 8 (ucast height :: u64))) entries) of
         (d, r) \<Rightarrow> (ix\<lparr>hi_heights := Some d\<rparr>, r))))"


section \<open>The slots of the header file\<close>

definition slot :: "bytes \<Rightarrow> nat \<Rightarrow> bytes" where
  "slot d h = sub d (80 * h) (80 * h + 80)"

lemma slot_write:
  assumes "80 * h + 80 \<le> length d" and "length bs = 80"
  shows "slot (write_at d bs (80 * h)) h' = (if h' = h then bs else slot d h')"
proof -
  have w: "write_at d bs (80 * h) = take (80 * h) d @ bs @ drop (80 * h + 80) d"
    using write_at_inside [of "80 * h" bs d] assms by simp
  consider "h' < h" | "h' = h" | "h < h'" by linarith
  then show ?thesis
  proof cases
    case 1
    then have "80 * h' + 80 \<le> 80 * h" by linarith
    moreover from this have "80 \<le> 80 * h - 80 * h'" by linarith
    ultimately show ?thesis using 1 assms by (simp add: w slot_def sub_def drop_take min_def)
  next
    case 2
    with assms show ?thesis by (simp add: w slot_def sub_def min_def)
  next
    case 3
    then have "80 * h + 80 \<le> 80 * h'" by linarith
    moreover from this have "80 * h + (80 * h' - 80 * h) = 80 * h'" by simp
    ultimately show ?thesis using 3 assms
      by (simp add: w slot_def sub_def min_def add.commute)
  qed
qed

lemma slot_set_len:
  assumes "length d mod 80 = 0" and "length d \<le> n" and "80 * h + 80 \<le> n"
  shows "slot (set_len_bytes d n) h = (if 80 * h + 80 \<le> length d then slot d h else replicate 80 0)"
proof (cases "80 * h + 80 \<le> length d")
  case True
  then show ?thesis using assms by (simp add: slot_def sub_def set_len_bytes_def)
next
  case False
  obtain m where m: "length d = 80 * m" using assms(1) by (metis dvd_def mod_0_imp_dvd)
  with False have "m \<le> h" by linarith
  then have "length d \<le> 80 * h" using m by simp
  with False assms(2,3) show ?thesis by (simp add: slot_def sub_def set_len_bytes_def)
qed

definition stored_header :: "'h header_ops \<Rightarrow> bytes \<Rightarrow> nat \<Rightarrow> 'h option" where
  "stored_header H d h =
     (if length d < 80 * h + 80 \<or> slot d h = replicate 80 0 then None
      else case h_dec H (slot d h) of Inl _ \<Rightarrow> None | Inr (x, _) \<Rightarrow> Some x)"

definition wf_headers :: "'h header_ops \<Rightarrow> bytes \<Rightarrow> bool" where
  "wf_headers H d \<longleftrightarrow> length d mod 80 = 0 \<and>
     (\<forall>h. 80 * h + 80 \<le> length d \<longrightarrow> slot d h = replicate 80 0 \<or> (\<exists>x. slot d h = h_enc H x))"

lemma header_dec: "header_ok H \<Longrightarrow> h_dec H (h_enc H x) = Inr (x, [])"
  unfolding header_ok_def using codec.dec_enc [of "h_enc H" "h_dec H" "\<lambda>_. True" x "[]"] by simp

lemma header_offset_eq [simp]: "header_offset height = Inr (80 * unat height)"
proof -
  have "unat height < 2 ^ 32" using unsigned_less [of height] by simp
  moreover have "unat (ucast height :: u64) = unat height"
    using calculation by (intro unat_ucast_small) simp
  ultimately show ?thesis
    by (simp add: header_offset_def checked_mul_def HEADER_SIZE_def unat_word_ariths)
qed

lemma read_header_eq:
  assumes "header_ok H" and "wf_headers H (vf_data (hi_headers ix))"
  shows "read_header H ix height = Inr (stored_header H (vf_data (hi_headers ix)) (unat height))"
proof (cases "length (vf_data (hi_headers ix)) < 80 * unat height + 80")
  case True
  then show ?thesis by (simp add: read_header_def stored_header_def HEADER_SIZE_def)
next
  case False
  then have "read_exact_at (vf_data (hi_headers ix)) 80 (80 * unat height) = Some (slot (vf_data (hi_headers ix)) (unat height))"
    by (simp add: read_exact_at_Some slot_def)
  moreover have "slot (vf_data (hi_headers ix)) (unat height) = replicate 80 0 \<or>
      (\<exists>x. slot (vf_data (hi_headers ix)) (unat height) = h_enc H x)"
    using assms(2) False by (simp add: wf_headers_def)
  ultimately show ?thesis using False
    by (auto simp: read_header_def stored_header_def HEADER_SIZE_def header_dec [OF assms(1)])
qed

lemma wf_headers_extend:
  assumes "wf_headers H d" and "length d \<le> 80 * n"
  shows "wf_headers H (set_len_bytes d (80 * n))"
    and "stored_header H (set_len_bytes d (80 * n)) h = stored_header H d h"
  using assms by (auto simp: wf_headers_def stored_header_def slot_set_len)

text \<open>Writing one slot; a write past the end extends the file first.\<close>

lemma write_at_extend: "bs \<noteq> [] \<Longrightarrow> write_at d bs off = write_at (set_len_bytes d (max (length d) (off + length bs))) bs off"
  by (auto simp: write_at_def set_len_bytes_def max_def)

lemma wf_headers_write:
  assumes "wf_headers H d" and "bs = replicate 80 0 \<or> bs = h_enc H x" and "header_ok H"
  shows "wf_headers H (write_at d bs (80 * h))"
    and "stored_header H (write_at d bs (80 * h)) h' =
      (if h' = h then if bs = replicate 80 0 then None else Some x else stored_header H d h')"
proof -
  have len: "length bs = 80" using assms(2,3) by (auto simp: header_ok_def)
  obtain m where m: "length d = 80 * m" using assms(1) unfolding wf_headers_def by (metis dvd_def mod_0_imp_dvd)
  define n where "n = max m (h + 1)"
  have n: "max (length d) (80 * h + length bs) = 80 * n" using len m by (simp add: n_def max_def)
  define d' where "d' = set_len_bytes d (80 * n)"
  have w: "write_at d bs (80 * h) = write_at d' bs (80 * h)" 
    using len n by (subst write_at_extend) (auto simp: d'_def)
  have "length d \<le> 80 * n" and fits: "80 * h + 80 \<le> 80 * n" using m by (simp_all add: n_def max_def)
  note ext = wf_headers_extend [OF assms(1) this(1), folded d'_def]
  have "length d' = 80 * n" by (simp add: d'_def)
  then have same: "length (write_at d' bs (80 * h)) = length d'" using fits len by auto
  note sl = slot_write [of h d' bs] fits \<open>length d' = 80 * n\<close> len
  show "wf_headers H (write_at d bs (80 * h))"
    unfolding w using ext(1) same assms(2) sl by (auto simp: wf_headers_def)
  show "stored_header H (write_at d bs (80 * h)) h' =
      (if h' = h then if bs = replicate 80 0 then None else Some x else stored_header H d h')"
    unfolding w ext(2) [symmetric] using same assms(2,3) sl by (auto simp: stored_header_def header_dec)
qed

section \<open>Consistency of the two stores\<close>

definition index_values_ok :: "(bytes \<Rightarrow> bytes option) \<Rightarrow> bool" where
  "index_values_ok view \<longleftrightarrow> (\<forall>k v. view k = Some v \<longrightarrow> (\<exists>h :: u32. v = le_bytes 8 (ucast h :: u64)))"

text \<open>The chain an index represents, and the two operations on it.\<close>

definition chain_of :: "'h header_ops \<Rightarrow> 'd HeaderIndex \<Rightarrow> u32 \<Rightarrow> 'h option" where
  "chain_of H ix h = stored_header H (vf_data (hi_headers ix)) (unat h)"

definition chain_remove :: "'h header_ops \<Rightarrow> u32 \<Rightarrow> bytes \<Rightarrow> (u32 \<Rightarrow> 'h option) \<Rightarrow> u32 \<Rightarrow> 'h option" where
  "chain_remove H h hash c = (case c h of Some x \<Rightarrow> if h_block_hash H x = hash then c(h := None) else c | None \<Rightarrow> c)"

text \<open>No other stored header shares the 16-byte key of the new one.\<close>

definition key_free :: "'h header_ops \<Rightarrow> u32 \<Rightarrow> 'h \<Rightarrow> (u32 \<Rightarrow> 'h option) \<Rightarrow> bool" where
  "key_free H h x c \<longleftrightarrow>
     (\<forall>h' y. c h' = Some y \<longrightarrow> hash_key (h_block_hash H y) = hash_key (h_block_hash H x) \<longrightarrow> h' = h)"

lemma height_value:
  "(ucast (from_le (le_bytes 8 (ucast h :: u64)) :: u64) :: u32) = h"
  "unat (from_le (le_bytes 8 (ucast (h :: u32) :: u64)) :: u64) < 2 ^ 32"
proof -
  have "unat h < 2 ^ 32" using unsigned_less [of h] by simp
  then have u: "unat (ucast h :: u64) = unat h" by (intro unat_ucast_small) simp
  with \<open>unat h < 2 ^ 32\<close> show "unat (from_le (le_bytes 8 (ucast h :: u64)) :: u64) < 2 ^ 32" by simp
  have "unat (ucast (ucast h :: u64) :: u32) = unat (ucast h :: u64)"
    using u \<open>unat h < 2 ^ 32\<close> by (intro unat_ucast_small) simp
  then have "(ucast (ucast h :: u64) :: u32) = h" using u by (simp add: word_unat_eq_iff)
  then show "(ucast (from_le (le_bytes 8 (ucast h :: u64)) :: u64) :: u32) = h" by simp
qed

lemma height_value_inj: "le_bytes 8 (ucast g :: u64) = le_bytes 8 (ucast h :: u64) \<longleftrightarrow> g = (h :: u32)"
  using height_value(1) by metis

lemma read_height_eq:
  assumes "header_ok H" and "wf_headers H (vf_data (hi_headers ix))"
    and "index_values_ok (id_view D d)" and "id_get D d (hash_key hash) = Inr (id_view D d (hash_key hash))"
  shows "\<exists>r. read_height D H ix d hash = Inr r \<and>
     (r = Some h \<longleftrightarrow> id_view D d (hash_key hash) = Some (le_bytes 8 (ucast h :: u64)) \<and>
        (\<exists>x. chain_of H ix h = Some x \<and> h_block_hash H x = hash))"
proof (cases "id_view D d (hash_key hash)")
  case None
  then show ?thesis using assms(4) by (simp add: read_height_def)
next
  case (Some v)
  then obtain g :: u32 where v: "v = le_bytes 8 (ucast g :: u64)" using assms(3) unfolding index_values_ok_def by blast
  show ?thesis using Some v assms(4) height_value(2) [of g]
    by (auto simp: read_height_def height_value(1) [simplified] read_header_eq [OF assms(1,2)] chain_of_def HEIGHT_VALUE_SIZE_def height_value_inj
        split: option.split)
qed


section \<open>What the operations do to the stores\<close>

definition index_view :: "'d index_db \<Rightarrow> 'd HeaderIndex \<Rightarrow> bytes \<Rightarrow> bytes option" where
  "index_view D ix = id_view D (case hi_heights ix of Some d \<Rightarrow> d | None \<Rightarrow> hi_rest ix)"

lemma index_db_facts:
  assumes "index_db_ok D"
  shows idb_get: "id_get D d k = Inr found \<Longrightarrow> found = id_view D d k"
    and idb_put: "id_put D d k v = (d', r) \<Longrightarrow> id_view D d' = (if r = Stored then (id_view D d)(k \<mapsto> v) else id_view D d)"
    and idb_delete: "id_delete D d k = (d', q) \<Longrightarrow> id_view D d' = (if q = Inr () then (id_view D d)(k := None) else id_view D d)"
    and idb_headroom: "id_ensure_headroom D d n = (d', b) \<Longrightarrow> id_view D d' = id_view D d"
    and idb_open: "id_open_runtime D d = Inr d' \<Longrightarrow> id_view D d' = id_view D d"
    and idb_sync: "id_sync D d = (d', q) \<Longrightarrow> id_view D d' = id_view D d"
    and idb_close: "id_close D d = (d', q) \<Longrightarrow> id_view D d' = id_view D d"
    and idb_create: "id_create D c = Inr d \<Longrightarrow> id_view D d = Map.empty"
    and idb_put_batch: "distinct (map fst kvs) \<Longrightarrow> \<forall>a\<in>fst ` set kvs. id_view D d a = None \<Longrightarrow>
      id_put_batch D d kvs = (d', Inr ()) \<Longrightarrow> id_view D d' = id_view D d ++ map_of kvs"
proof -
  note c = assms [unfolded index_db_ok_def, THEN conjunct1]
    assms [unfolded index_db_ok_def, THEN conjunct2]
  note c2 = c(2) [THEN conjunct2]
  note c3 = c2 [THEN conjunct2]
  note c4 = c3 [THEN conjunct2]
  note c5 = c4 [THEN conjunct2]
  note c6 = c5 [THEN conjunct2]
  note c7 = c6 [THEN conjunct2]
  note c8 = c7 [THEN conjunct2]
  show "id_get D d k = Inr found \<Longrightarrow> found = id_view D d k" using c(1) by blast
  show "id_put D d k v = (d', r) \<Longrightarrow> id_view D d' = (if r = Stored then (id_view D d)(k \<mapsto> v) else id_view D d)"
    using c(2) [THEN conjunct1, THEN spec, of d, THEN spec, of k, THEN spec, of v] by auto
  show "id_delete D d k = (d', q) \<Longrightarrow> id_view D d' = (if q = Inr () then (id_view D d)(k := None) else id_view D d)"
    using c2 [THEN conjunct1, THEN spec, of d, THEN spec, of k] by auto
  show "distinct (map fst kvs) \<Longrightarrow> \<forall>a\<in>fst ` set kvs. id_view D d a = None \<Longrightarrow>
      id_put_batch D d kvs = (d', Inr ()) \<Longrightarrow> id_view D d' = id_view D d ++ map_of kvs"
    using c3 [THEN conjunct1, THEN spec, of d, THEN spec, of kvs] by auto
  show "id_ensure_headroom D d n = (d', b) \<Longrightarrow> id_view D d' = id_view D d"
    using c4 [THEN conjunct1, THEN spec, of d, THEN spec, of n] by auto
  show "id_open_runtime D d = Inr d' \<Longrightarrow> id_view D d' = id_view D d" using c5 [THEN conjunct1] by blast
  show "id_sync D d = (d', q) \<Longrightarrow> id_view D d' = id_view D d"
    using c6 [THEN conjunct1, THEN spec, of d] by auto
  show "id_close D d = (d', q) \<Longrightarrow> id_view D d' = id_view D d"
    using c7 [THEN conjunct1, THEN spec, of d] by auto
  show "id_create D c = Inr d \<Longrightarrow> id_view D d = Map.empty" using c8 by blast
qed

lemma grow_heights_spec:
  assumes "index_db_ok D" and "grow_heights D ix = (ix', r)"
  shows "hi_headers ix' = hi_headers ix" and "index_view D ix' = index_view D ix"
    and "r = Inr g \<Longrightarrow> \<exists>d. hi_heights ix' = Some d"
  using assms(2)
  by (auto simp: grow_heights_def bind_s_def index_view_def
      idb_close [OF assms(1)] idb_headroom [OF assms(1)] idb_open [OF assms(1)]
      split: option.splits prod.splits sum.splits)

lemma put_height_spec:
  assumes "index_db_ok D" and "put_height D ix k v = (ix', r)"
  shows "hi_headers ix' = hi_headers ix"
    and "index_view D ix' = (if r = Inr () then (index_view D ix)(k \<mapsto> v) else index_view D ix)"
    and "r = Inr () \<Longrightarrow> \<exists>d. hi_heights ix' = Some d"
proof -
  show "hi_headers ix' = hi_headers ix"
    using assms(2)
    by (auto simp: put_height_def bind_s_def dest: grow_heights_spec(1) [OF assms(1)]
        split: option.splits prod.splits put_outcome.splits sum.splits if_splits)
  show "index_view D ix' = (if r = Inr () then (index_view D ix)(k \<mapsto> v) else index_view D ix)"
    using assms(2)
    by (auto simp: put_height_def bind_s_def index_view_def idb_put [OF assms(1)]
        dest!: grow_heights_spec(2) [OF assms(1)]
        split: option.splits prod.splits put_outcome.splits sum.splits if_splits)
  show "r = Inr () \<Longrightarrow> \<exists>d. hi_heights ix' = Some d"
    using assms(2)
    by (auto simp: put_height_def bind_s_def split: option.splits prod.splits put_outcome.splits sum.splits if_splits)
qed

lemma ensure_height_eq:
  "ensure_height io ix height =
     (if length (vf_data (hi_headers ix)) < 80 * (unat height + 1)
      then (ix\<lparr>hi_headers := fst (vf_set_len io 0 (hi_headers ix) (80 * (unat height + 1)))\<rparr>,
            snd (vf_set_len io 0 (hi_headers ix) (80 * (unat height + 1))))
      else (ix, Inr ()))"
proof -
  have "unat height < 2 ^ 32" using unsigned_less [of height] by simp
  then have "80 * unat height + 80 < 2 ^ 64" by simp
  then show ?thesis by (simp add: ensure_height_def HEADER_SIZE_def ac_simps split: prod.split)
qed

lemma ensure_height_spec:
  assumes "wf_headers H (vf_data (hi_headers ix))" and "ensure_height io ix height = (ix', r)"
  shows "wf_headers H (vf_data (hi_headers ix')) \<and> chain_of H ix' = chain_of H ix \<and>
     hi_heights ix' = hi_heights ix \<and> hi_rest ix' = hi_rest ix \<and>
     (r = Inr () \<longrightarrow> 80 * unat height + 80 \<le> length (vf_data (hi_headers ix')))"
  using assms wf_headers_extend [OF assms(1), of "unat height + 1"]
  by (auto simp: ensure_height_eq vf_set_len_def put_data_def chain_of_def fun_eq_iff
      split: option.splits if_splits)

lemma write_header_eq:
  "write_header io k ix height bs =
     (ix\<lparr>hi_headers := fst (vf_write io k (hi_headers ix) bs (80 * unat height))\<rparr>,
      snd (vf_write io k (hi_headers ix) bs (80 * unat height)))"
  by (simp add: write_header_def split: prod.split)

lemma write_header_spec:
  assumes "header_ok H" and "wf_headers H (vf_data (hi_headers ix))"
    and "bs = replicate 80 0 \<or> bs = h_enc H x" and "write_header io k ix height bs = (ix', Inr ())"
  shows "wf_headers H (vf_data (hi_headers ix'))"
    and "chain_of H ix' = (chain_of H ix)(height := if bs = replicate 80 0 then None else Some x)"
    and "hi_heights ix' = hi_heights ix" and "hi_rest ix' = hi_rest ix"
proof -
  from assms(4) have ix': "ix' = ix\<lparr>hi_headers := put_data (hi_headers ix) (write_at (vf_data (hi_headers ix)) bs (80 * unat height))\<rparr>"
    by (auto simp: write_header_eq vf_write_def split: option.splits)
  then show "wf_headers H (vf_data (hi_headers ix'))" "hi_heights ix' = hi_heights ix" "hi_rest ix' = hi_rest ix"
    using wf_headers_write(1) [OF assms(2,3,1)] by (simp_all add: put_data_def)
  from ix' show "chain_of H ix' = (chain_of H ix)(height := if bs = replicate 80 0 then None else Some x)"
    using wf_headers_write(2) [OF assms(2,3,1)]
    by (auto simp: put_data_def chain_of_def fun_eq_iff word_unat_eq_iff)
qed

text \<open>A put that succeeds, and one that fails before or in the write of the header.\<close>

lemma put_spec:
  assumes "index_db_ok D" and "header_ok H" and "wf_headers H (vf_data (hi_headers ix))"
    and "HeaderIndex_put D H io ix height x = (ix', r)"
  shows "r = Inr () \<Longrightarrow> wf_headers H (vf_data (hi_headers ix'))"
    and "r = Inr () \<Longrightarrow> h_enc H x \<noteq> replicate 80 0 \<Longrightarrow> chain_of H ix' = (chain_of H ix)(height \<mapsto> x)"
    and "r = Inr () \<Longrightarrow> index_view D ix' = (index_view D ix)(hash_key (h_block_hash H x) \<mapsto> le_bytes 8 (ucast height :: u64))"
    and "r = Inr () \<Longrightarrow> \<exists>d. hi_heights ix' = Some d"
    and "r = Inl e \<Longrightarrow> io 1 = None \<Longrightarrow> wf_headers H (vf_data (hi_headers ix')) \<and> chain_of H ix' = chain_of H ix"
    and "r = Inl e \<Longrightarrow> index_view D ix' = index_view D ix \<or>
      index_view D ix' = (index_view D ix)(hash_key (h_block_hash H x) \<mapsto> le_bytes 8 (ucast height :: u64))"
proof -
  have len: "length (h_enc H x) = 80" using assms(2) by (simp add: header_ok_def)
  obtain ix1 r1 where p1: "put_height D ix (hash_key (h_block_hash H x)) (le_bytes 8 (ucast height :: u64)) = (ix1, r1)" by fastforce
  obtain ix2 r2 where p2: "ensure_height io ix1 height = (ix2, r2)" by fastforce
  obtain ix3 r3 where p3: "write_header io 1 ix2 height (h_enc H x) = (ix3, r3)" by fastforce
  note s1 = put_height_spec [OF assms(1) p1]
  have "wf_headers H (vf_data (hi_headers ix1))" "chain_of H ix1 = chain_of H ix" using assms(3) s1(1) by (simp_all add: chain_of_def fun_eq_iff)
  note s2 = ensure_height_spec [OF this(1) p2] this(2)
  have run: "(ix', r) = (case r1 of Inl e \<Rightarrow> (ix1, Inl e) | Inr _ \<Rightarrow> case r2 of Inl e \<Rightarrow> (ix2, Inl e) | Inr _ \<Rightarrow> (ix3, r3))"
    using assms(4) len by (auto simp: HeaderIndex_put_def Let_def HEADER_SIZE_def bind_s_def p1 p2 p3 [simplified] split: sum.splits)
  have s3: "wf_headers H (vf_data (hi_headers ix3))"
    "chain_of H ix3 = (chain_of H ix2)(height := if h_enc H x = replicate 80 0 then None else Some x)"
    if "r2 = Inr ()" "r3 = Inr ()"
    using write_header_spec(1,2) [of H ix2 "h_enc H x" x io 1 height ix3] s2 assms(2) p3 that by simp_all
  have h3: "hi_heights ix3 = hi_heights ix2" "hi_rest ix3 = hi_rest ix2" using p3 by (auto simp: write_header_eq)
  have v: "index_view D ix2 = index_view D ix1" "index_view D ix3 = index_view D ix1"
    using s2 h3 by (simp_all add: index_view_def split: option.split)
  have ok: "r = Inr () \<Longrightarrow> r1 = Inr () \<and> r2 = Inr () \<and> r3 = Inr () \<and> ix' = ix3"
    using run by (auto split: sum.splits)
  from ok s3(1) show "r = Inr () \<Longrightarrow> wf_headers H (vf_data (hi_headers ix'))" by blast
  from ok s3(2) s2 show "r = Inr () \<Longrightarrow> h_enc H x \<noteq> replicate 80 0 \<Longrightarrow> chain_of H ix' = (chain_of H ix)(height \<mapsto> x)"
    by simp
  from ok s1(2) v show "r = Inr () \<Longrightarrow> index_view D ix' = (index_view D ix)(hash_key (h_block_hash H x) \<mapsto> le_bytes 8 (ucast height :: u64))"
    by auto
  from ok s1(3) s2 h3 show "r = Inr () \<Longrightarrow> \<exists>d. hi_heights ix' = Some d" by auto
  show "wf_headers H (vf_data (hi_headers ix')) \<and> chain_of H ix' = chain_of H ix" if "r = Inl e" "io 1 = None"
  proof -
    have "r3 = Inr ()" using p3 that(2) by (auto simp: write_header_eq vf_write_def)
    then have "ix' = ix1 \<or> ix' = ix2" using run that(1) by (auto split: sum.splits)
    then show ?thesis using s2 \<open>wf_headers H (vf_data (hi_headers ix1))\<close> by metis
  qed
  show "r = Inl e \<Longrightarrow> index_view D ix' = index_view D ix \<or>
      index_view D ix' = (index_view D ix)(hash_key (h_block_hash H x) \<mapsto> le_bytes 8 (ucast height :: u64))"
    using run s1(2) v by (auto split: sum.splits if_splits)
qed


section \<open>Reachable indexes\<close>

definition covers :: "'h header_ops \<Rightarrow> (u32 \<Rightarrow> 'h option) \<Rightarrow> (bytes \<Rightarrow> bytes option) \<Rightarrow> bool" where
  "covers H c view \<longleftrightarrow> (\<forall>h x. c h = Some x \<longrightarrow> view (hash_key (h_block_hash H x)) = Some (le_bytes 8 (ucast h :: u64)))"

definition consistent :: "'d index_db \<Rightarrow> 'h header_ops \<Rightarrow> 'd HeaderIndex \<Rightarrow> bool" where
  "consistent D H ix \<longleftrightarrow> wf_headers H (vf_data (hi_headers ix)) \<and> index_values_ok (index_view D ix) \<and>
     covers H (chain_of H ix) (index_view D ix)"

lemma values_ok_put: "index_values_ok view \<Longrightarrow> index_values_ok (view(k \<mapsto> le_bytes 8 (ucast (h :: u32) :: u64)))"
  by (auto simp: index_values_ok_def)

lemma covers_put:
  "covers H c view \<Longrightarrow> key_free H h x c \<Longrightarrow>
     covers H (c(h \<mapsto> x)) (view(hash_key (h_block_hash H x) \<mapsto> le_bytes 8 (ucast h :: u64)))"
  by (auto simp: covers_def key_free_def)

lemma covers_index_only:
  "covers H c view \<Longrightarrow> key_free H h x c \<Longrightarrow>
     covers H c (view(hash_key (h_block_hash H x) \<mapsto> le_bytes 8 (ucast h :: u64)))"
  by (auto simp: covers_def key_free_def)

lemma put_consistent:
  assumes "index_db_ok D" and "header_ok H" and "consistent D H ix" and "key_free H height x (chain_of H ix)"
    and "h_enc H x \<noteq> replicate 80 0" and "HeaderIndex_put D H io ix height x = (ix', r)" and "r \<noteq> Inr () \<longrightarrow> io 1 = None"
  shows "consistent D H ix' \<and> chain_of H ix' = (if r = Inr () then (chain_of H ix)(height \<mapsto> x) else chain_of H ix)"
proof -
  have wf: "wf_headers H (vf_data (hi_headers ix))" and vals: "index_values_ok (index_view D ix)"
    and cov: "covers H (chain_of H ix) (index_view D ix)" using assms(3) by (simp_all add: consistent_def)
  note spec = put_spec [OF assms(1,2) wf assms(6)]
  show ?thesis
  proof (cases "r = Inr ()")
    case True
    then show ?thesis
      using spec(1,2,3) values_ok_put [OF vals] covers_put [OF cov assms(4)] assms(5) by (simp add: consistent_def)
  next
    case False
    then obtain e where e: "r = Inl e" by (cases r) auto
    show ?thesis
      using spec(5) [OF e] spec(6) [OF e] False assms(7) vals cov values_ok_put [OF vals]
        covers_index_only [OF cov assms(4)] by (auto simp: consistent_def)
  qed
qed

lemma remove_consistent:
  assumes "index_db_ok D" and "header_ok H" and "consistent D H ix" and "HeaderIndex_remove D H io ix height hash = (ix', Inr ())"
  shows "consistent D H ix' \<and> chain_of H ix' = chain_remove H height hash (chain_of H ix) \<and> (\<exists>d. hi_heights ix' = Some d)"
proof -
  have wf: "wf_headers H (vf_data (hi_headers ix))" and vals: "index_values_ok (index_view D ix)"
    and cov: "covers H (chain_of H ix) (index_view D ix)" using assms(3) by (simp_all add: consistent_def)
  obtain d where d: "hi_heights ix = Some d"
    using assms(4) by (auto simp: HeaderIndex_remove_def available_heights_def ok_or_def bind_s_def split: option.splits)
  then have view: "index_view D ix = id_view D d" by (simp add: index_view_def)
  obtain indexed where rh: "read_height D H ix d hash = Inr indexed"
    using assms(4) d by (auto simp: HeaderIndex_remove_def available_heights_def bind_s_def split: sum.splits)
  then obtain v where "id_get D d (hash_key hash) = Inr v" by (auto simp: read_height_def)
  then have "id_get D d (hash_key hash) = Inr (id_view D d (hash_key hash))" using idb_get [OF assms(1)] by simp
  from read_height_eq [OF assms(2) wf _ this, of height] vals rh view
  have indexed: "indexed = Some height \<longleftrightarrow> id_view D d (hash_key hash) = Some (le_bytes 8 (ucast height :: u64)) \<and>
      (\<exists>x. chain_of H ix height = Some x \<and> h_block_hash H x = hash)" by auto
  show ?thesis
  proof (cases "\<exists>x. chain_of H ix height = Some x \<and> h_block_hash H x = hash")
    case False
    then have "ix' = ix" using assms(4) d rh indexed
      by (auto simp: HeaderIndex_remove_def available_heights_def bind_s_def read_header_eq [OF assms(2) wf] chain_of_def split: option.splits if_splits)
    with False assms(3) d show ?thesis by (auto simp: chain_remove_def split: option.split)
  next
    case True
    then obtain x where x: "chain_of H ix height = Some x" "h_block_hash H x = hash" by blast
    then have key: "id_view D d (hash_key hash) = Some (le_bytes 8 (ucast height :: u64))"
      using cov view by (auto simp: covers_def)
    with x indexed have ind: "indexed = Some height" by blast
    obtain d' where del: "id_delete D d (hash_key hash) = (d', Inr ())"
      and wr: "write_header io 0 (ix\<lparr>hi_heights := Some d'\<rparr>) height (replicate 80 0) = (ix', Inr ())"
      using assms(4) d rh ind x
      by (cases "id_delete D d (hash_key hash)"; cases "snd (id_delete D d (hash_key hash))")
        (auto simp: HeaderIndex_remove_def available_heights_def bind_s_def read_header_eq [OF assms(2)] wf chain_of_def HEADER_SIZE_def)
    note w = write_header_spec [OF assms(2) _ _ wr, of undefined, simplified, OF wf]
    have chain: "chain_of H (ix\<lparr>hi_heights := Some d'\<rparr>) = chain_of H ix" by (simp add: chain_of_def fun_eq_iff)
    have view': "index_view D ix' = (index_view D ix)(hash_key hash := None)"
      using w(3) idb_delete [OF assms(1) del] view by (simp add: index_view_def)
    have "covers H ((chain_of H ix)(height := None)) ((index_view D ix)(hash_key hash := None))"
      unfolding covers_def
    proof (intro allI impI)
      fix h y assume y: "((chain_of H ix)(height := None)) h = Some y"
      then have hv: "h \<noteq> height" "index_view D ix (hash_key (h_block_hash H y)) = Some (le_bytes 8 (ucast h :: u64))"
        using cov by (auto simp: covers_def split: if_splits)
      then have "hash_key (h_block_hash H y) \<noteq> hash_key hash"
        using key view by (auto simp: height_value_inj)
      with hv show "((index_view D ix)(hash_key hash := None)) (hash_key (h_block_hash H y)) = Some (le_bytes 8 (ucast h :: u64))"
        by simp
    qed
    moreover have "index_values_ok ((index_view D ix)(hash_key hash := None))" using vals by (simp add: index_values_ok_def)
    ultimately show ?thesis using w view' chain x by (simp add: consistent_def chain_remove_def)
  qed
qed


text \<open>The bootstrap writer.\<close>

definition batch_chain :: "(u32 \<times> 'h) list \<Rightarrow> (u32 \<Rightarrow> 'h option) \<Rightarrow> u32 \<Rightarrow> 'h option" where
  "batch_chain = fold (\<lambda>(h, x) c. c(h \<mapsto> x))"

definition batch_entries :: "'h header_ops \<Rightarrow> (u32 \<times> 'h) list \<Rightarrow> (u32 \<times> bytes \<times> bytes) list" where
  "batch_entries H = map (\<lambda>(h, x). (h, h_enc H x, h_block_hash H x))"

lemma batch_chain_simps [simp]:
  "batch_chain [] c = c" "batch_chain ((h, x) # es) c = batch_chain es (c(h \<mapsto> x))"
  by (simp_all add: batch_chain_def)

lemma batch_chain_Some: "batch_chain es c h = Some x \<Longrightarrow> (h, x) \<in> set es \<or> c h = Some x"
  by (induction es arbitrary: c) (fastforce split: if_splits)+

lemma write_headers_spec:
  assumes "header_ok H" and "wf_headers H (vf_data (hi_headers ix))"
    and "\<forall>(h, x)\<in>set es. h_enc H x \<noteq> replicate 80 0"
    and "write_headers io k ix (batch_entries H es) = (ix', Inr ())"
  shows "wf_headers H (vf_data (hi_headers ix')) \<and> chain_of H ix' = batch_chain es (chain_of H ix) \<and>
     hi_heights ix' = hi_heights ix \<and> hi_rest ix' = hi_rest ix"
  using assms(2-4)
proof (induction es arbitrary: ix k)
  case Nil
  then show ?case by (simp add: batch_entries_def)
next
  case (Cons e es)
  obtain h x where e: "e = (h, x)" by fastforce
  obtain ix1 where ix1: "write_header io k ix h (h_enc H x) = (ix1, Inr ())"
      "write_headers io (k + 1) ix1 (batch_entries H es) = (ix', Inr ())"
    using Cons.prems(3) by (auto simp: e batch_entries_def bind_s_def split: prod.splits sum.splits)
  note w = write_header_spec [OF assms(1) Cons.prems(1) _ ix1(1), of x, simplified]
  have chain: "chain_of H ix1 = (chain_of H ix)(h \<mapsto> x)" using w(2) Cons.prems(2) by (simp add: e)
  have "\<forall>(h, x)\<in>set es. h_enc H x \<noteq> replicate 80 0" using Cons.prems(2) by simp
  from Cons.IH [OF w(1) this ix1(2)] show ?case unfolding e batch_chain_simps chain w(3,4) .
qed

lemma put_batch_consistent:
  assumes "index_db_ok D" and "header_ok H" and "consistent D H ix"
    and "\<forall>(h, x)\<in>set es. h_enc H x \<noteq> replicate 80 0"
    and "distinct (map (\<lambda>(h, x). hash_key (h_block_hash H x)) es)"
    and "\<forall>(h, x)\<in>set es. index_view D ix (hash_key (h_block_hash H x)) = None"
    and "put_batch D io ix (batch_entries H es) = (ix', Inr ())"
  shows "consistent D H ix' \<and> chain_of H ix' = batch_chain es (chain_of H ix)"
proof -
  have wf: "wf_headers H (vf_data (hi_headers ix))" and vals: "index_values_ok (index_view D ix)"
    and cov: "covers H (chain_of H ix) (index_view D ix)" using assms(3) by (simp_all add: consistent_def)
  obtain d where d: "hi_heights ix = Some d"
    using assms(7) by (auto simp: put_batch_def available_heights_def ok_or_def bind_s_def split: option.splits)
  then have view: "index_view D ix = id_view D d" by (simp add: index_view_def)
  define kvs where "kvs = map (\<lambda>(height, _, hash). (hash_key hash, le_bytes 8 (ucast (height :: u32) :: u64))) (batch_entries H es)"
  have kvs: "kvs = map (\<lambda>(h, x). (hash_key (h_block_hash H x), le_bytes 8 (ucast h :: u64))) es"
    by (simp add: kvs_def batch_entries_def split_beta comp_def)
  obtain ix1 d1 where ix1: "write_headers io 0 ix (batch_entries H es) = (ix1, Inr ())"
    "id_put_batch D d kvs = (d1, Inr ())" "ix' = ix1\<lparr>hi_heights := Some d1\<rparr>"
    using assms(7) d by (auto simp: put_batch_def available_heights_def bind_s_def kvs_def split: prod.splits sum.splits)
  note w = write_headers_spec [OF assms(2) wf assms(4) ix1(1)]
  have "map fst kvs = map (\<lambda>(h, x). hash_key (h_block_hash H x)) es" by (simp add: kvs split_beta)
  then have "distinct (map fst kvs)" using assms(5) by simp
  moreover have "\<forall>k\<in>fst ` set kvs. id_view D d k = None" using assms(6) view by (auto simp: kvs)
  ultimately have v1: "id_view D d1 = id_view D d ++ map_of kvs" using idb_put_batch [OF assms(1) _ _ ix1(2)] by blast
  have "index_view D ix' = index_view D ix ++ map_of kvs" using ix1(3) v1 view by (simp add: index_view_def)
  moreover have "index_values_ok (index_view D ix ++ map_of kvs)"
    using vals by (auto simp: index_values_ok_def map_add_Some_iff kvs dest!: map_of_SomeD)
  moreover have "covers H (batch_chain es (chain_of H ix)) (index_view D ix ++ map_of kvs)"
    unfolding covers_def
  proof (intro allI impI)
    fix h x assume "batch_chain es (chain_of H ix) h = Some x"
    then consider "(h, x) \<in> set es" | "chain_of H ix h = Some x" by (auto dest: batch_chain_Some)
    then show "(index_view D ix ++ map_of kvs) (hash_key (h_block_hash H x)) = Some (le_bytes 8 (ucast h :: u64))"
    proof cases
      case 1
      then have "(hash_key (h_block_hash H x), le_bytes 8 (ucast h :: u64)) \<in> set kvs" by (force simp: kvs)
      with \<open>distinct (map fst kvs)\<close> show ?thesis by (simp add: map_add_Some_iff)
    next
      case 2
      then have "index_view D ix (hash_key (h_block_hash H x)) = Some (le_bytes 8 (ucast h :: u64))"
        using cov by (simp add: covers_def)
      moreover from this have "map_of kvs (hash_key (h_block_hash H x)) = None"
        using \<open>\<forall>k\<in>fst ` set kvs. id_view D d k = None\<close> view by (force simp: map_of_eq_None_iff)
      ultimately show ?thesis by (simp add: map_add_Some_iff)
    qed
  qed
  moreover have "chain_of H ix' = chain_of H ix1" by (simp add: ix1(3) chain_of_def fun_eq_iff)
  ultimately show ?thesis using w ix1(3) by (simp add: consistent_def)
qed

text \<open>
  Every way to come to an index, with the chain it should represent: created empty, filled by the
  bootstrap, changed by puts (of headers whose 16-byte key no other stored header has) and
  removals, by puts that failed before the header write, synced, closed and opened again.
\<close>

inductive built :: "'d index_db \<Rightarrow> 'h header_ops \<Rightarrow> 'd HeaderIndex \<Rightarrow> (u32 \<Rightarrow> 'h option) \<Rightarrow> bool"
  for D :: "'d index_db" and H :: "'h header_ops" where
  created: "HeaderIndex_create D io None None max_height = Inr ix \<Longrightarrow> built D H ix Map.empty"
| bootstrap: "built D H ix c \<Longrightarrow> \<forall>(h, x)\<in>set es. h_enc H x \<noteq> replicate 80 0 \<Longrightarrow>
    distinct (map (\<lambda>(h, x). hash_key (h_block_hash H x)) es) \<Longrightarrow>
    \<forall>(h, x)\<in>set es. index_view D ix (hash_key (h_block_hash H x)) = None \<Longrightarrow>
    put_batch D io ix (batch_entries H es) = (ix', Inr ()) \<Longrightarrow> built D H ix' (batch_chain es c)"
| put: "built D H ix c \<Longrightarrow> key_free H h x c \<Longrightarrow> h_enc H x \<noteq> replicate 80 0 \<Longrightarrow>
    HeaderIndex_put D H io ix h x = (ix', Inr ()) \<Longrightarrow> built D H ix' (c(h \<mapsto> x))"
| put_failed: "built D H ix c \<Longrightarrow> key_free H h x c \<Longrightarrow> h_enc H x \<noteq> replicate 80 0 \<Longrightarrow>
    HeaderIndex_put D H io ix h x = (ix', Inl e) \<Longrightarrow> io 1 = None \<Longrightarrow> built D H ix' c"
| remove: "built D H ix c \<Longrightarrow> HeaderIndex_remove D H io ix h hash = (ix', Inr ()) \<Longrightarrow> built D H ix' (chain_remove H h hash c)"
| sync: "built D H ix c \<Longrightarrow> HeaderIndex_sync D io ix = (ix', r) \<Longrightarrow> built D H ix' c"
| reopened: "built D H ix c \<Longrightarrow> HeaderIndex_close D io ix = ((f, d), r) \<Longrightarrow> HeaderIndex_open D f d = Inr ix' \<Longrightarrow>
    built D H ix' c"

lemma created_consistent:
  assumes "index_db_ok D" and "HeaderIndex_create D io None None max_height = Inr ix"
  shows "consistent D H ix \<and> chain_of H ix = Map.empty"
proof -
  obtain n d where n: "vf_data (hi_headers ix) = set_len_bytes [] n" "n mod 80 = 0"
    and d: "hi_heights ix = Some d" "id_view D d = Map.empty"
  proof -
    have "unat ((ucast max_height :: u64) + 1 :: u64) * 80 < 2 ^ 64"
      using assms(2) by (auto simp: HeaderIndex_create_def checked_mul_def HEADER_SIZE_def Let_def split: if_splits)
    then have "unat (((ucast max_height :: u64) + 1) * 80) = unat ((ucast max_height :: u64) + 1) * 80"
      by (subst unat_word_ariths) simp
    then have a: "unat (((ucast max_height :: u64) + 1) * 80) mod 80 = 0" by simp
    have b: "vf_data (hi_headers ix) = set_len_bytes [] (unat (((ucast max_height :: u64) + 1) * 80))"
      using assms(2)
      by (auto simp: HeaderIndex_create_def checked_mul_def HEADER_SIZE_def Let_def vf_set_len_def put_data_def synced_file_def
          split: if_splits option.splits)
    obtain d where d: "hi_heights ix = Some d" "id_view D d = Map.empty"
      using assms(2) by (auto simp: HeaderIndex_create_def Let_def dest: idb_create [OF assms(1)])
    show ?thesis by (rule that [OF b a d])
  qed
  have z: "slot (set_len_bytes [] n) h = replicate 80 0" if "80 * h + 80 \<le> n" for h
    using slot_set_len [of "[]" n h] that by simp
  then have "chain_of H ix = Map.empty" by (auto simp: chain_of_def stored_header_def n fun_eq_iff not_less)
  moreover have "wf_headers H (vf_data (hi_headers ix))" using z n by (simp add: wf_headers_def)
  ultimately show ?thesis using d by (simp add: consistent_def index_values_ok_def covers_def index_view_def)
qed

lemma maintenance_consistent:
  assumes "index_db_ok D" and "vf_data (hi_headers ix') = vf_data (hi_headers ix)" and "index_view D ix' = index_view D ix"
    and "consistent D H ix"
  shows "consistent D H ix' \<and> chain_of H ix' = chain_of H ix"
proof -
  have "chain_of H ix' = chain_of H ix" using assms(2) by (simp add: chain_of_def fun_eq_iff)
  with assms show ?thesis by (simp add: consistent_def)
qed

lemma built_consistent:
  assumes "index_db_ok D" and "header_ok H" and "built D H ix c"
  shows "consistent D H ix \<and> chain_of H ix = c"
  using assms(3)
proof (induction rule: built.induct)
  case (created io max_height ix)
  then show ?case by (rule created_consistent [OF assms(1)])
next
  case (bootstrap ix c es io ix')
  then show ?case using put_batch_consistent [OF assms(1,2) _ bootstrap.hyps(2-5)] by simp
next
  case (put ix c h x io ix')
  then show ?case using put_consistent [OF assms(1,2) _ _ put.hyps(3,4)] by simp
next
  case (put_failed ix c h x io ix' e)
  then show ?case using put_consistent [OF assms(1,2) _ _ put_failed.hyps(3,4)] by simp
next
  case (remove ix c io h hash ix')
  then show ?case using remove_consistent [OF assms(1,2) _ remove.hyps(2)] by simp
next
  case (sync ix c io ix' r)
  have "vf_data (hi_headers ix') = vf_data (hi_headers ix) \<and> index_view D ix' = index_view D ix"
    using sync.hyps(2)
    by (auto simp: HeaderIndex_sync_def available_heights_def ok_or_def bind_s_def vf_sync_def synced_file_def index_view_def
        idb_sync [OF assms(1)] split: option.splits prod.splits)
  with sync.IH show ?case using maintenance_consistent [OF assms(1)] by metis
next
  case (reopened ix c io f d r ix')
  have "vf_data f = vf_data (hi_headers ix) \<and> id_view D d = index_view D ix"
    using reopened.hyps(2)
    by (auto simp: HeaderIndex_close_def vf_sync_def synced_file_def index_view_def idb_close [OF assms(1)]
        split: option.splits prod.splits)
  moreover have "hi_headers ix' = f \<and> index_view D ix' = id_view D d"
    using reopened.hyps(3)
    by (cases "id_ensure_headroom D d RUNTIME_HEADROOM")
      (auto simp: HeaderIndex_open_def index_view_def idb_open [OF assms(1)] idb_headroom [OF assms(1)])
  ultimately show ?case using maintenance_consistent [OF assms(1), of ix' ix H] reopened.IH by simp
qed


section \<open>The properties\<close>

text \<open>A database with a bounded mapping: a put that finds it full asks for growth.\<close>

definition example_index_db :: "((bytes \<Rightarrow> bytes option) \<times> nat) index_db" where
  "example_index_db =
     \<lparr>id_create = (\<lambda>c. Inr (Map.empty, 1)),
      id_ensure_headroom = (\<lambda>(m, room) n. if room = 0 then ((m, 8), Inr True) else ((m, room), Inr False)),
      id_open_runtime = Inr,
      id_get = (\<lambda>(m, room) k. Inr (m k)),
      id_put = (\<lambda>(m, room) k v. if room = 0 then ((m, room), CapacityExhausted) else ((m(k \<mapsto> v), room - 1), Stored)),
      id_delete = (\<lambda>(m, room) k. ((m(k := None), room), Inr ())),
      id_write_only = (\<lambda>_. Inr ()),
      id_put_batch = (\<lambda>(m, room) kvs. ((m ++ map_of kvs, room), Inr ())),
      id_sync = (\<lambda>d. (d, Inr ())),
      id_close = (\<lambda>d. (d, Inr ())),
      id_view = fst\<rparr>"

lemma example_index_db_ok: "index_db_ok example_index_db"
  by (auto simp: index_db_ok_def example_index_db_def)

lemma example_header_enc: "x \<noteq> 0 \<Longrightarrow> h_enc example_headers x \<noteq> replicate 80 0"
  by (auto simp: example_headers_def dest: arg_cong [where f = hd])

lemma example_hash_key [simp]: "hash_key (h_block_hash example_headers x) = replicate 16 x"
  by (simp add: hash_key_def HASH_KEY_SIZE_def example_headers_def)

lemma example_put_ok:
  assumes "hi_heights ix = Some d"
  shows "\<exists>ix' d'. HeaderIndex_put example_index_db example_headers no_faults ix h x = (ix', Inr ()) \<and> hi_heights ix' = Some d'"
  using assms
  by (cases d) (auto simp: HeaderIndex_put_def example_headers_def HEADER_SIZE_def put_height_def example_index_db_def grow_heights_def
      ensure_height_eq write_header_eq vf_set_len_def vf_write_def no_faults_def Let_def)

text \<open>C31. The header index is a map from heights to headers together with its inverse. However an index
  came about (creation, bootstrap batches, puts with or without growth of the database, puts that
  failed before their header write, removals, syncs, reopening), while its database is available
  \<open>get_by_height\<close> returns the header last put at a height and not removed since, and \<open>get_height\<close>
  answers a height exactly for the hash of the header stored there: the 16-byte key never gives a
  false match, and a removal of an old branch never loses its replacement.
\<close>

theorem header_index_refines:
  assumes "index_db_ok D" and "header_ok H" and "built D H ix c" and "hi_heights ix = Some d"
  shows "get_by_height H ix h = Inr (c h) \<and>
     (\<forall>hash r. get_height D H ix hash = Inr r \<longrightarrow> (r = Some h \<longleftrightarrow> (\<exists>x. c h = Some x \<and> h_block_hash H x = hash)))"
proof (intro conjI allI impI)
  have inv: "consistent D H ix" "chain_of H ix = c" using built_consistent [OF assms(1-3)] by simp_all
  then have wf: "wf_headers H (vf_data (hi_headers ix))" and vals: "index_values_ok (id_view D d)"
    and cov: "covers H c (id_view D d)" using assms(4) by (simp_all add: consistent_def index_view_def)
  show "get_by_height H ix h = Inr (c h)"
    using inv(2) assms(4) by (auto simp: get_by_height_def available_heights_def read_header_eq [OF assms(2) wf] chain_of_def)
  fix hash r assume r: "get_height D H ix hash = Inr r"
  then have rh: "read_height D H ix d hash = Inr r" using assms(4) by (simp add: get_height_def available_heights_def)
  then obtain v where "id_get D d (hash_key hash) = Inr v" by (auto simp: read_height_def)
  then have "id_get D d (hash_key hash) = Inr (id_view D d (hash_key hash))" using idb_get [OF assms(1)] by simp
  from read_height_eq [OF assms(2) wf vals this, of h] rh inv(2) cov
  show "r = Some h \<longleftrightarrow> (\<exists>x. c h = Some x \<and> h_block_hash H x = hash)" by (auto simp: covers_def)
qed

theorem header_index_refines_witness:
  "\<exists>ix. get_by_height example_headers ix 3 = Inr (Some 9) \<and> get_by_height example_headers ix 2 = Inr (Some 7) \<and>
     get_height example_index_db example_headers ix (replicate 32 9) = Inr (Some 3)"
proof -
  let ?D = example_index_db and ?H = example_headers
  obtain ix0 d0 where b0: "built ?D ?H ix0 Map.empty" and d0: "hi_heights ix0 = Some d0"
  proof -
    have "\<exists>ix d. HeaderIndex_create ?D no_faults None None 1 = Inr ix \<and> hi_heights ix = Some d"
      by (simp add: HeaderIndex_create_def checked_mul_def HEADER_SIZE_def Let_def vf_set_len_def no_faults_def
          index_config_for_def div_ceil_def checked_next_power_of_two_def align_capacity_def checked_add_def BLOCK_SIZE_def
          RUNTIME_HEADROOM_def upt_rec max_def example_index_db_def)
    then show ?thesis using that built.created by blast
  qed
  obtain ix1 d1 where p1: "HeaderIndex_put ?D ?H no_faults ix0 2 7 = (ix1, Inr ())" and d1: "hi_heights ix1 = Some d1"
    using example_put_ok [OF d0] by blast
  have b1: "built ?D ?H ix1 [2 \<mapsto> 7]"
    using built.put [OF b0 _ example_header_enc p1] by (simp add: key_free_def)
  obtain ix2 d2 where p2: "HeaderIndex_put ?D ?H no_faults ix1 3 9 = (ix2, Inr ())" and d2: "hi_heights ix2 = Some d2"
    using example_put_ok [OF d1] by blast
  have b2: "built ?D ?H ix2 [2 \<mapsto> 7, 3 \<mapsto> 9]"
    using built.put [OF b1 _ example_header_enc p2] by (simp add: key_free_def)
  note facts = header_index_refines [OF example_index_db_ok example_header_ok b2 d2]
  have "get_by_height ?H ix2 3 = Inr (Some 9)" "get_by_height ?H ix2 2 = Inr (Some 7)"
    using facts [of 3] facts [of 2] by simp_all
  moreover have "\<exists>r. get_height ?D ?H ix2 (replicate 32 9) = Inr r"
    using built_consistent [OF example_index_db_ok example_header_ok b2] d2
      read_height_eq [of ?H ix2 ?D d2 "replicate 32 9", OF example_header_ok]
    by (cases d2) (force simp: get_height_def available_heights_def consistent_def index_view_def example_index_db_def)
  moreover have "(\<exists>x. [2 \<mapsto> 7, 3 \<mapsto> 9] (3 :: u32) = Some x \<and> h_block_hash ?H x = replicate 32 9)"
    by (simp add: example_headers_def)
  ultimately show ?thesis using facts [of 3] by blast
qed



definition example_stuck_db :: "((bytes \<Rightarrow> bytes option) \<times> nat) index_db" where
  "example_stuck_db = example_index_db\<lparr>id_put := \<lambda>d k v. (d, CapacityExhausted), id_ensure_headroom := \<lambda>d n. (d, bail ''no space'')\<rparr>"


lemma div_ceil_nat:
  assumes "0 < (b :: nat)"
  shows "(a + b - 1) div b = (if a mod b = 0 then a div b else a div b + 1)"
proof (cases "a mod b = 0")
  case True
  then obtain q where "a = b * q" by (metis mod_0_imp_dvd dvd_def)
  moreover have "(b * q + b - 1) div b = q"
    using assms by (metis Nat.add_diff_assoc2 add.commute add_diff_assoc div_mult_self4 Suc_leI One_nat_def diff_less div_less less_one neq0_conv add_0 mult.commute zero_less_iff_neq_zero)
  ultimately show ?thesis using True assms by simp
next
  case False
  define q r where "q = a div b" and "r = a mod b"
  have "a = b * q + r" "r < b" "0 < r" using False assms by (simp_all add: q_def r_def)
  then have "a + b - 1 = b * (q + 1) + (r - 1)" by simp
  moreover have "(b * (q + 1) + (r - 1)) div b = q + 1" using \<open>r < b\<close> assms by (subst div_mult_self4) auto
  ultimately show ?thesis using False by (simp add: q_def)
qed

lemma unat_div_ceil:
  assumes "1 < unat b"
  shows "unat (div_ceil a b) = (unat a + unat b - 1) div unat b"
proof -
  have "unat a div unat b \<le> unat a div 2" using assms by (intro div_le_mono2) auto
  then have small: "unat a div unat b + 1 < 2 ^ 64" using unsigned_less [of a, where 'a = nat] by simp
  have "a mod b = 0 \<longleftrightarrow> unat a mod unat b = 0" by (simp add: word_unat_eq_iff unat_mod_distrib)
  moreover have "unat (a div b + 1) = unat a div unat b + 1"
    using small by (simp add: unat_word_ariths unat_div_distrib)
  ultimately show ?thesis
    using div_ceil_nat [of "unat b" "unat a"] assms by (simp add: div_ceil_def unat_div_distrib)
qed

lemma next_power_of_two:
  assumes "unat w \<le> 2 ^ 63"
  obtains k where "checked_next_power_of_two w = Some (2 ^ k)" and "k < 64" and "unat w \<le> 2 ^ k"
proof -
  have "find (\<lambda>k. unat w \<le> 2 ^ k) [0..<64] \<noteq> None"
    using assms by (auto simp: find_None_iff intro!: exI [of _ 63])
  then obtain k where k: "find (\<lambda>k. unat w \<le> 2 ^ k) [0..<64] = Some k" by blast
  then have "k < 64" "unat w \<le> 2 ^ k" by (auto simp: find_Some_iff)
  moreover have "checked_next_power_of_two w = Some (2 ^ k)"
    using k by (simp add: checked_next_power_of_two_def push_bit_eq_mult)
  ultimately show ?thesis by (rule that [rotated])
qed

text \<open>C33. The sizes of a new index never overflow: for every \<open>max_height\<close> the bucket count is a power of
  two of at least 1024 buckets and at least a quarter of the headers, and the body capacity is a
  whole number of blocks with room for 64 bytes a header besides the runtime headroom.
\<close>

theorem header_index_sizes:
  "\<exists>c. index_config_for ((ucast max_height :: u64) + 1) = Inr c \<and>
     (\<exists>k. ic_bucket_count c = 2 ^ k \<and> 1024 \<le> unat (ic_bucket_count c)) \<and>
     unat (max_height :: u32) + 1 \<le> 4 * unat (ic_bucket_count c) \<and>
     unat (ic_body_capacity c) mod 2 ^ 20 = 0 \<and>
     64 * (unat max_height + 1) + 2 ^ 26 \<le> unat (ic_body_capacity c) \<and>
     unat (ic_body_capacity c) < 64 * (unat max_height + 1) + 2 ^ 26 + 2 ^ 20"
proof -
  define n where "n = unat max_height + 1"
  define w where "w = (ucast max_height :: u64) + 1"
  have "unat max_height < 2 ^ 32" using unsigned_less [of max_height, where 'a = nat] by simp
  then have n32: "n \<le> 2 ^ 32" "0 < n" by (simp_all add: n_def)
  have "unat (ucast max_height :: u64) = unat max_height"
    using \<open>unat max_height < 2 ^ 32\<close> by (intro unat_ucast_small) simp
  then have w: "unat w = n" using n32 by (simp add: w_def n_def unat_word_ariths)
  have buckets: "unat (max (div_ceil w 4) 1024) = max ((n + 3) div 4) 1024"
    using unat_div_ceil [of 4 w] w by (simp add: max_def word_le_nat_alt add.commute [of 3])
  have "(n + 3) div 4 \<le> 2 ^ 31" using n32 by simp
  then have "unat (max (div_ceil w 4) 1024) \<le> 2 ^ 63" unfolding buckets by simp
  then obtain k where k: "checked_next_power_of_two (max (div_ceil w 4) 1024) = Some (2 ^ k)" "k < 64"
    "max ((n + 3) div 4) 1024 \<le> 2 ^ k"
    unfolding buckets [symmetric] by (rule next_power_of_two) blast
  define m where "m = w * 64 + RUNTIME_HEADROOM"
  have room: "Option.bind (checked_mul w 64) (\<lambda>n. checked_add n RUNTIME_HEADROOM) = Some m"
    and m: "unat m = 64 * n + 2 ^ 26"
    using w n32 by (simp_all add: m_def checked_mul_def checked_add_def RUNTIME_HEADROOM_def unat_word_ariths)
  define q where "q = (unat m + 2 ^ 20 - 1) div 2 ^ 20"
  have bs: "unat BLOCK_SIZE = 2 ^ 20" by (simp add: BLOCK_SIZE_def)
  have "max m BLOCK_SIZE = m" using m by (simp add: max_def word_le_nat_alt bs)
  then have q: "unat (div_ceil (max m BLOCK_SIZE) BLOCK_SIZE) = q" using unat_div_ceil [of BLOCK_SIZE m] bs by (simp add: q_def)
  have qm: "unat m \<le> q * 2 ^ 20" "q * 2 ^ 20 < unat m + 2 ^ 20"
    using div_mult_mod_eq [of "unat m + 2 ^ 20 - 1" "2 ^ 20"] mod_less_divisor [of "2 ^ 20" "unat m + 2 ^ 20 - 1"]
    unfolding q_def [symmetric] by simp_all
  then have "q * 2 ^ 20 < 2 ^ 64" using m n32 by simp
  then have body: "align_capacity m = Inr (div_ceil (max m BLOCK_SIZE) BLOCK_SIZE * BLOCK_SIZE)"
    and "unat (div_ceil (max m BLOCK_SIZE) BLOCK_SIZE * BLOCK_SIZE) = q * 2 ^ 20"
    using q bs by (simp_all add: align_capacity_def checked_mul_def unat_word_ariths)
  then have b: "unat (div_ceil (max m BLOCK_SIZE) BLOCK_SIZE * BLOCK_SIZE) mod 2 ^ 20 = 0"
    "64 * n + 2 ^ 26 \<le> unat (div_ceil (max m BLOCK_SIZE) BLOCK_SIZE * BLOCK_SIZE)"
    "unat (div_ceil (max m BLOCK_SIZE) BLOCK_SIZE * BLOCK_SIZE) < 64 * n + 2 ^ 26 + 2 ^ 20"
    using qm m by simp_all
  have u: "unat (2 ^ k :: u64) = 2 ^ k" using k(2) by (intro unat_two_power) simp
  have c: "index_config_for w = Inr \<lparr>ic_bucket_count = 2 ^ k, ic_blob_capacity = BLOCK_SIZE, ic_block_size = BLOCK_SIZE,
      ic_body_capacity = div_ceil (max m BLOCK_SIZE) BLOCK_SIZE * BLOCK_SIZE\<rparr>"
    by (simp add: index_config_for_def k room body)
  have "n \<le> 4 * 2 ^ k" "1024 \<le> (2 ^ k :: nat)" using k(3) by auto
  then show ?thesis using b u by (auto simp: c [unfolded w_def] n_def)
qed

end
