(* ===== verification/Proof_Store.thy ===== *)
theory Proof_Store
  imports Journal_File
begin

text \<open>
  The store of compact proofs: the append-only proof file (\<open>src/src/blockfile.rs\<close>) and the index from
  block hashes to places in it (\<open>src/src/block_index.rs\<close>). An append reserves its range with one
  atomic update and then writes; the proofs cover every interleaving of concurrent appends.
\<close>

section \<open>The key-value store\<close>

text \<open>
  The \<open>kv\<close> crate is a parameter: named buckets of byte strings. A failed operation changes nothing.
\<close>

record 's kv_ops =
  kv_bucket :: "'s \<Rightarrow> string \<Rightarrow> unit res"
  kv_get :: "'s \<Rightarrow> string \<Rightarrow> bytes \<Rightarrow> bytes option res"
  kv_set :: "'s \<Rightarrow> string \<Rightarrow> bytes \<Rightarrow> bytes \<Rightarrow> 's \<times> unit res"
  kv_remove :: "'s \<Rightarrow> string \<Rightarrow> bytes \<Rightarrow> 's \<times> unit res"
  kv_flush :: "'s \<Rightarrow> string \<Rightarrow> 's \<times> unit res"
  kv_view :: "'s \<Rightarrow> string \<Rightarrow> bytes \<Rightarrow> bytes option"

definition kv_ok :: "'s kv_ops \<Rightarrow> bool" where
  "kv_ok K \<longleftrightarrow>
     (\<forall>s b k v. kv_get K s b k = Inr v \<longrightarrow> v = kv_view K s b k) \<and>
     (\<forall>s b k v. kv_view K (fst (kv_set K s b k v)) =
        (if snd (kv_set K s b k v) = Inr () then (kv_view K s)(b := (kv_view K s b)(k \<mapsto> v)) else kv_view K s)) \<and>
     (\<forall>s b k. kv_view K (fst (kv_remove K s b k)) =
        (if snd (kv_remove K s b k) = Inr () then (kv_view K s)(b := (kv_view K s b)(k := None)) else kv_view K s)) \<and>
     (\<forall>s b. kv_view K (fst (kv_flush K s b)) = kv_view K s)"

section \<open>Index entries\<close>

definition be_bytes :: "nat \<Rightarrow> 'a::len word \<Rightarrow> bytes" where
  "be_bytes n w = rev (le_bytes n w)"

definition from_be :: "bytes \<Rightarrow> 'a::len word" where
  "from_be bs = from_le (rev bs)"

record BlockIndex =
  bi_offset :: u64
  bi_size :: u64
  bi_proof_forest_rows :: "u8 option"

datatype IndexEntry = Index BlockIndex

definition from_raw_value :: "bytes \<Rightarrow> IndexEntry res" where
  "from_raw_value r =
     bind_r (ensure (length r = 16 \<or> length r = 17) ''proof index entry has a wrong length'') (\<lambda>_.
     bind_r (ensure (\<not> (16 < length r \<and> 63 < r ! 16)) ''proof forest rows exceeds 63'') (\<lambda>_.
       Inr (Index \<lparr>bi_offset = from_be (take 8 (drop 8 r)), bi_size = from_be (take 8 r),
         bi_proof_forest_rows = (if 16 < length r then Some (r ! 16) else None)\<rparr>)))"

fun to_raw_value :: "IndexEntry \<Rightarrow> bytes res" where
  "to_raw_value (Index i) =
     (if (case bi_proof_forest_rows i of Some rows \<Rightarrow> 63 < rows | None \<Rightarrow> False) then bail ''proof forest rows exceeds 63''
      else Inr (be_bytes 8 (bi_size i) @ be_bytes 8 (bi_offset i) @
             (case bi_proof_forest_rows i of Some rows \<Rightarrow> [rows] | None \<Rightarrow> [])))"

section \<open>The index\<close>

text \<open>The index is nothing but its database.\<close>

type_synonym 's BlocksIndex = 's

definition get_index :: "'s kv_ops \<Rightarrow> 's BlocksIndex \<Rightarrow> bytes \<Rightarrow> BlockIndex option res" where
  "get_index K database block =
     bind_r (kv_bucket K database ''index'') (\<lambda>_.
     bind_r (kv_get K database ''index'' block) (\<lambda>v.
       case v of
         None \<Rightarrow> Inr None
       | Some r \<Rightarrow> bind_r (from_raw_value r) (\<lambda>e. case e of Index index \<Rightarrow> Inr (Some index))))"

definition update_height :: "'s kv_ops \<Rightarrow> 's BlocksIndex \<Rightarrow> u64 \<Rightarrow> 's BlocksIndex \<times> unit res" where
  "update_height K database height =
     bind_s (database, kv_bucket K database ''meta'') (\<lambda>database _.
     bind_s (kv_set K database ''meta'' (ascii ''height'') (be_bytes 8 height)) (\<lambda>database _.
       kv_flush K database ''meta''))"

definition load_height :: "'s kv_ops \<Rightarrow> 's BlocksIndex \<Rightarrow> u64 res" where
  "load_height K database =
     bind_r (kv_bucket K database ''meta'') (\<lambda>_.
     bind_r (kv_get K database ''meta'' (ascii ''height'')) (\<lambda>v.
       case v of
         None \<Rightarrow> Inr 0
       | Some height \<Rightarrow>
           bind_r (ensure (length height = 8) ''proof height has a wrong length'') (\<lambda>_. Inr (from_be height))))"

fun set_indexes :: "'s kv_ops \<Rightarrow> 's BlocksIndex \<Rightarrow> (BlockIndex \<times> bytes) list \<Rightarrow> 's BlocksIndex \<times> unit res" where
  "set_indexes K database [] = (database, Inr ())"
| "set_indexes K database ((index, block) # indexes) =
     bind_s (database, to_raw_value (Index index)) (\<lambda>database raw.
     bind_s (kv_set K database ''index'' block raw) (\<lambda>database _.
       set_indexes K database indexes))"

definition append_batch :: "'s kv_ops \<Rightarrow> 's BlocksIndex \<Rightarrow> (BlockIndex \<times> bytes) list \<Rightarrow> 's BlocksIndex \<times> unit res" where
  "append_batch K database indexes =
     bind_s (database, kv_bucket K database ''index'') (\<lambda>database _.
     bind_s (set_indexes K database indexes) (\<lambda>database _.
       kv_flush K database ''index''))"

definition index_remove :: "'s kv_ops \<Rightarrow> 's BlocksIndex \<Rightarrow> bytes \<Rightarrow> 's BlocksIndex \<times> unit res" where
  "index_remove K database block =
     bind_s (database, kv_bucket K database ''index'') (\<lambda>database _.
     bind_s (kv_remove K database ''index'' block) (\<lambda>database _.
       kv_flush K database ''index''))"

section \<open>The proof file\<close>

record ProofFile =
  pf_file :: vfile
  pf_writer_pos :: u64

definition ProofFile_new :: "vfile option \<Rightarrow> ProofFile" where
  "ProofFile_new path =
     (let f = (case path of Some f \<Rightarrow> f | None \<Rightarrow> synced_file [])
      in \<lparr>pf_file = f, pf_writer_pos = of_nat (length (vf_data f))\<rparr>)"

text \<open>The two steps of an append. The reservation is one atomic update of the writer position.\<close>

definition reserve :: "consensus \<Rightarrow> ProofFile \<Rightarrow> CompactBlockProof \<Rightarrow> ProofFile \<times> (bytes \<times> u64) res" where
  "reserve C pf proof =
     (let buffer = fst (CompactBlockProof_encode C proof) in
      if MAX_COMPACT_PROOF_BYTES < length buffer then (pf, Inl (IoError ''compact proof exceeds storage limit''))
      else
        case checked_add (pf_writer_pos pf) (of_nat (length buffer)) of
          None \<Rightarrow> (pf, Inl (IoError ''proof file offset overflow''))
        | Some pos \<Rightarrow> (pf\<lparr>pf_writer_pos := pos\<rparr>, Inr (buffer, pf_writer_pos pf)))"

definition write_reserved :: "faults \<Rightarrow> nat \<Rightarrow> ProofFile \<Rightarrow> bytes \<Rightarrow> u64 \<Rightarrow> ProofFile \<times> BlockIndex res" where
  "write_reserved io k pf buffer offset =
     (case vf_write io k (pf_file pf) buffer (unat offset) of (f, r) \<Rightarrow>
        (pf\<lparr>pf_file := f\<rparr>,
         bind_r r (\<lambda>_. Inr \<lparr>bi_offset = offset, bi_size = of_nat (length buffer), bi_proof_forest_rows = None\<rparr>)))"

definition append_proof :: "consensus \<Rightarrow> faults \<Rightarrow> nat \<Rightarrow> ProofFile \<Rightarrow> CompactBlockProof \<Rightarrow> ProofFile \<times> BlockIndex res" where
  "append_proof C io k pf proof =
     bind_s (reserve C pf proof) (\<lambda>pf (buffer, offset). write_reserved io k pf buffer offset)"

definition contains :: "ProofFile \<Rightarrow> BlockIndex \<Rightarrow> bool" where
  "contains pf index \<longleftrightarrow>
     unat (bi_size index) \<le> MAX_COMPACT_PROOF_BYTES \<and>
     (case checked_add (bi_offset index) (bi_size index) of
        None \<Rightarrow> False
      | Some end' \<Rightarrow> unat end' \<le> length (vf_data (pf_file pf)))"

text \<open>\<open>deserialize\<close> wants every byte used.\<close>

definition get_proof :: "consensus \<Rightarrow> ProofFile \<Rightarrow> BlockIndex \<Rightarrow> CompactBlockProof option" where
  "get_proof C pf index =
     (if \<not> contains pf index then None
      else
        case read_exact_at (vf_data (pf_file pf)) (unat (bi_size index)) (unat (bi_offset index)) of
          None \<Rightarrow> None
        | Some bs \<Rightarrow>
            (case CompactBlockProof_decode C bs of Inr (proof, []) \<Rightarrow> Some proof | _ \<Rightarrow> None))"

definition truncate_after :: "faults \<Rightarrow> nat \<Rightarrow> ProofFile \<Rightarrow> BlockIndex option \<Rightarrow> ProofFile \<times> unit res" where
  "truncate_after io k pf index =
     bind_s (pf, case index of
         Some index \<Rightarrow> (case checked_add (bi_offset index) (bi_size index) of
             Some end' \<Rightarrow> Inr end' | None \<Rightarrow> Inl (IoError ''proof index end overflow''))
       | None \<Rightarrow> Inr 0) (\<lambda>pf end'.
     if length (vf_data (pf_file pf)) < unat end' then (pf, Inl (IoError ''proof file ends before published proof offset''))
     else
       case vf_set_len io k (pf_file pf) (unat end') of
         (f, Inl e) \<Rightarrow> (pf\<lparr>pf_file := f\<rparr>, Inl e)
       | (f, Inr _) \<Rightarrow>
           (case vf_sync io (k + 1) f of (f, r) \<Rightarrow> (\<lparr>pf_file = f, pf_writer_pos = end'\<rparr>, r)))"

definition ProofFile_sync :: "faults \<Rightarrow> nat \<Rightarrow> ProofFile \<Rightarrow> ProofFile \<times> unit res" where
  "ProofFile_sync io k pf = (case vf_sync io k (pf_file pf) of (f, r) \<Rightarrow> (pf\<lparr>pf_file := f\<rparr>, r))"


section \<open>Index entries survive storage\<close>

lemma be_bytes_simps [simp]:
  "length (be_bytes n w) = n"
  "LENGTH('a) \<le> 8 * n \<Longrightarrow> from_be (be_bytes n w) = (w :: 'a::len word)"
  "8 * length bs \<le> LENGTH('a) \<Longrightarrow> length bs = n \<Longrightarrow> be_bytes n (from_be bs :: 'a::len word) = bs"
  by (simp_all add: be_bytes_def from_be_def)

definition wf_index :: "BlockIndex \<Rightarrow> bool" where
  "wf_index i \<longleftrightarrow> (case bi_proof_forest_rows i of Some rows \<Rightarrow> rows \<le> 63 | None \<Rightarrow> True)"

lemma to_raw_wf:
  "wf_index i \<Longrightarrow> to_raw_value (Index i) =
     Inr (be_bytes 8 (bi_size i) @ be_bytes 8 (bi_offset i) @ (case bi_proof_forest_rows i of Some rows \<Rightarrow> [rows] | None \<Rightarrow> []))"
  by (auto simp: wf_index_def not_less split: option.splits)

lemma from_raw_to_raw: "to_raw_value e = Inr r \<Longrightarrow> from_raw_value r = Inr e"
  by (cases e) (auto simp: from_raw_value_def nth_append not_less split: option.splits if_splits)

lemma from_raw_exact:
  assumes "from_raw_value r = Inr e"
  shows "to_raw_value e = Inr r"
proof -
  have len: "length r = 16 \<or> length r = 17" and rows: "16 < length r \<longrightarrow> \<not> 63 < r ! 16"
    using assms by (auto simp: from_raw_value_def)
  have r: "r = take 8 r @ take 8 (drop 8 r) @ drop 16 r" by (metis append_take_drop_id drop_drop numeral_Bit0)
  have "drop 16 r = (if 16 < length r then [r ! 16] else [])"
    using len by (auto simp: Cons_nth_drop_Suc [symmetric])
  with r len rows assms show ?thesis
    by (auto simp: from_raw_value_def)
qed

text \<open>C36. The stored form of an index entry is a bijection: an entry whose forest rows are at most 63 is
  written and read back unchanged, and whatever is read from the database, if it is accepted at all,
  is exactly what writing the result would store; anything else is refused with an error.\<close>

theorem index_entry_exact:
  "from_raw_value r = Inr e \<longleftrightarrow> to_raw_value e = Inr r"
  using from_raw_exact from_raw_to_raw by blast

section \<open>Concurrent appends\<close>

lemma sub_write_other:
  "b \<le> length d \<Longrightarrow> b \<le> off \<or> off + length bs \<le> a \<Longrightarrow> sub (write_at d bs off) a b = sub d a b"
proof (cases "b \<le> off")
  case True
  assume "b \<le> length d"
  with True show ?thesis using agree_write_before [of b off d a bs] by (simp add: agree_def)
next
  case False
  assume b: "b \<le> length d" and "b \<le> off \<or> off + length bs \<le> a"
  with False have a: "off + length bs \<le> a" by simp
  show ?thesis
  proof (cases "a < b")
    case True
    with a b have "off + length bs \<le> length d" by simp
    then have w: "write_at d bs off = take off d @ bs @ drop (off + length bs) d" by (rule write_at_inside)
    have "min (length d) off = off" using \<open>off + length bs \<le> length d\<close> by simp
    with a show ?thesis unfolding w by (simp add: sub_def)
  qed (simp add: sub_def)
qed

lemma sub_write_self: "bs \<noteq> [] \<Longrightarrow> sub (write_at d bs off) off (off + length bs) = bs"
  by (simp add: write_at_def sub_def set_len_bytes_def)

datatype append_state = Reserved | Written BlockIndex | Failed

text \<open>
  Appends in progress, in the order of their reservations: each has its buffer, offset and proof.
  Any reserved range may be written at any time, and a write may fail half way.
\<close>

inductive appending :: "consensus \<Rightarrow> bytes \<Rightarrow> ProofFile \<Rightarrow> (bytes \<times> u64 \<times> CompactBlockProof \<times> append_state) list \<Rightarrow> bool"
  for C :: consensus and initial :: bytes where
  opened: "length initial < 2 ^ 64 \<Longrightarrow> vf_data f = initial \<Longrightarrow> appending C initial (ProofFile_new (Some f)) []"
| reserved: "appending C initial pf log \<Longrightarrow> reserve C pf proof = (pf', Inr (buffer, offset)) \<Longrightarrow>
    appending C initial pf' (log @ [(buffer, offset, proof, Reserved)])"
| written: "appending C initial pf log \<Longrightarrow> j < length log \<Longrightarrow> log ! j = (buffer, offset, proof, Reserved) \<Longrightarrow>
    write_reserved io k pf buffer offset = (pf', Inr index) \<Longrightarrow>
    appending C initial pf' (log[j := (buffer, offset, proof, Written index)])"
| failed: "appending C initial pf log \<Longrightarrow> j < length log \<Longrightarrow> log ! j = (buffer, offset, proof, Reserved) \<Longrightarrow>
    write_reserved io k pf buffer offset = (pf', Inl e) \<Longrightarrow>
    appending C initial pf' (log[j := (buffer, offset, proof, Failed)])"
| synced: "appending C initial pf log \<Longrightarrow> ProofFile_sync io k pf = (pf', r) \<Longrightarrow> appending C initial pf' log"

fun range_of :: "bytes \<times> u64 \<times> CompactBlockProof \<times> append_state \<Rightarrow> nat \<times> nat" where
  "range_of (buffer, offset, _) = (unat offset, unat offset + length buffer)"

text \<open>What holds of one append, in a file with the given contents and writer position.\<close>

fun append_ok :: "consensus \<Rightarrow> nat \<Rightarrow> bytes \<Rightarrow> nat \<Rightarrow> bytes \<times> u64 \<times> CompactBlockProof \<times> append_state \<Rightarrow> bool" where
  "append_ok C base d pos (buffer, offset, proof, state) \<longleftrightarrow>
     buffer = fst (CompactBlockProof_encode C proof) \<and> buffer \<noteq> [] \<and> length buffer \<le> MAX_COMPACT_PROOF_BYTES \<and>
     base \<le> unat offset \<and> unat offset + length buffer \<le> pos \<and>
     (\<forall>index. state = Written index \<longrightarrow>
        index = \<lparr>bi_offset = offset, bi_size = of_nat (length buffer), bi_proof_forest_rows = None\<rparr> \<and>
        unat offset + length buffer \<le> length d \<and> sub d (unat offset) (unat offset + length buffer) = buffer)"

definition append_inv :: "consensus \<Rightarrow> bytes \<Rightarrow> ProofFile \<Rightarrow> (bytes \<times> u64 \<times> CompactBlockProof \<times> append_state) list \<Rightarrow> bool" where
  "append_inv C initial pf log \<longleftrightarrow>
     length initial \<le> length (vf_data (pf_file pf)) \<and> sub (vf_data (pf_file pf)) 0 (length initial) = initial \<and>
     length initial \<le> unat (pf_writer_pos pf) \<and>
     (\<forall>a\<in>set log. append_ok C (length initial) (vf_data (pf_file pf)) (unat (pf_writer_pos pf)) a) \<and>
     sorted_wrt (\<lambda>x y. snd (range_of x) \<le> fst (range_of y)) log"

lemma proof_bytes_nonempty: "consensus_ok C \<Longrightarrow> fst (CompactBlockProof_encode C p) \<noteq> []"
  by (simp add: CompactBlockProof_encode_bytes consensus_ok_def)

text \<open>A write into a reserved range, complete or torn.\<close>

lemma append_inv_write:
  assumes inv: "append_inv C initial pf log" and j: "j < length log" "log ! j = (buffer, offset, proof, Reserved)"
    and w: "d = write_at (vf_data (pf_file pf)) (take n buffer) (unat offset)" and f: "vf_data f = d"
    and st: "st = Failed \<or> take n buffer = buffer \<and>
      st = Written \<lparr>bi_offset = offset, bi_size = of_nat (length buffer), bi_proof_forest_rows = None\<rparr>"
  shows "append_inv C initial (pf\<lparr>pf_file := f\<rparr>) (log[j := (buffer, offset, proof, st)])"
proof -
  let ?d = "vf_data (pf_file pf)" and ?pos = "unat (pf_writer_pos pf)" and ?new = "(buffer, offset, proof, st)"
  have ok: "append_ok C (length initial) ?d ?pos (buffer, offset, proof, Reserved)"
    using inv j by (metis append_inv_def nth_mem)
  have grow: "length ?d \<le> length d" by (simp add: w)
  have base: "length initial \<le> unat offset" using ok by simp
  have ranges: "sorted_wrt (\<lambda>x y. snd (range_of x) \<le> fst (range_of y)) (log[j := ?new])"
  proof -
    have "range_of ?new = range_of (log ! j)" by (simp add: j)
    then show ?thesis using inv j unfolding append_inv_def sorted_wrt_iff_nth_less
      by (metis length_list_update nth_list_update)
  qed
  have "append_ok C (length initial) d ?pos a" if a: "a \<in> set (log[j := ?new])" for a
  proof -
    from a obtain i where i: "i < length log" "a = (log[j := ?new]) ! i" by (auto simp: in_set_conv_nth)
    show ?thesis
    proof (cases "i = j")
      case True
      then have "a = ?new" using i j by simp
      moreover have "unat offset + length buffer \<le> length d \<and> sub d (unat offset) (unat offset + length buffer) = buffer"
        if "take n buffer = buffer"
      proof -
        have "buffer \<noteq> []" using ok unfolding append_ok.simps by (elim conjE)
        then show ?thesis unfolding w that using sub_write_self [of buffer ?d "unat offset"] by simp
      qed
      ultimately show ?thesis using ok st by auto
    next
      case False
      then have a': "a = log ! i" using i by simp
      then have oka: "append_ok C (length initial) ?d ?pos a" using inv i by (simp add: append_inv_def)
      obtain b q p s where abs: "a = (b, q, p, s)" using prod_cases4 by blast
      have "unat q + length b \<le> unat offset \<or> unat offset + length buffer \<le> unat q"
        using inv i j False a' abs unfolding append_inv_def sorted_wrt_iff_nth_less
        by (metis (no_types, lifting) range_of.simps fst_conv snd_conv linorder_neqE_nat)
      then have "unat q + length b \<le> unat offset \<or> unat offset + length (take n buffer) \<le> unat q" by auto
      then have "sub d (unat q) (unat q + length b) = sub ?d (unat q) (unat q + length b)"
        if "unat q + length b \<le> length ?d" using that by (simp add: w sub_write_other)
      with oka grow show ?thesis by (auto simp: abs)
    qed
  qed
  moreover have "sub d 0 (length initial) = sub ?d 0 (length initial)"
    using inv base by (simp add: w append_inv_def sub_write_other)
  ultimately show ?thesis using inv grow ranges f by (auto simp: append_inv_def)
qed

lemma append_invariant:
  assumes "consensus_ok C" and "appending C initial pf log"
  shows "append_inv C initial pf log"
  using assms(2)
proof (induction rule: appending.induct)
  case (opened f)
  then have "unat (of_nat (length initial) :: u64) = length initial" by (intro unat_of_nat_small) simp
  with opened show ?case by (simp add: append_inv_def ProofFile_new_def sub_all)
next
  case (reserved pf log p pf' buffer offset)
  then have b: "buffer = fst (CompactBlockProof_encode C p)" "length buffer \<le> MAX_COMPACT_PROOF_BYTES"
    and c: "checked_add (pf_writer_pos pf) (of_nat (length buffer)) = Some (pf_writer_pos pf')"
    and pf': "pf_file pf' = pf_file pf" "offset = pf_writer_pos pf"
    by (auto simp: reserve_def Let_def split: if_splits option.splits)
  have "unat (of_nat (length buffer) :: u64) = length buffer"
    using b(2) by (intro unat_of_nat_small) (simp add: MAX_COMPACT_PROOF_BYTES_def)
  then have pos: "unat (pf_writer_pos pf') = unat offset + length buffer"
    using checked_add_Some [OF c] pf' by simp
  have old: "append_ok C (length initial) (vf_data (pf_file pf)) (unat (pf_writer_pos pf')) a" if "a \<in> set log" for a
    using reserved.IH that pos pf'(2) by (cases a rule: prod_cases4) (fastforce simp: append_inv_def)
  have new: "append_ok C (length initial) (vf_data (pf_file pf)) (unat (pf_writer_pos pf')) (buffer, offset, p, Reserved)"
    using reserved.IH b pos pf'(2) proof_bytes_nonempty [OF assms(1)] by (simp add: append_inv_def)
  have "snd (range_of a) \<le> unat offset" if "a \<in> set log" for a
    using reserved.IH that pf'(2) by (cases a rule: prod_cases4) (fastforce simp: append_inv_def)
  with reserved.IH old new pf' pos show ?case by (auto simp: append_inv_def sorted_wrt_append)
next
  case (written pf log j buffer offset p io k pf' index)
  then have "pf' = pf\<lparr>pf_file := put_data (pf_file pf) (write_at (vf_data (pf_file pf)) buffer (unat offset))\<rparr>"
    and "index = \<lparr>bi_offset = offset, bi_size = of_nat (length buffer), bi_proof_forest_rows = None\<rparr>"
    by (auto simp: write_reserved_def vf_write_def split: option.splits)
  then show ?case
    using append_inv_write [OF written.IH written.hyps(2,3), of _ "length buffer"] by (simp add: put_data_def)
next
  case (failed pf log j buffer offset p io k pf' e)
  then obtain n where "pf' = pf\<lparr>pf_file := put_data (pf_file pf) (write_at (vf_data (pf_file pf)) (take n buffer) (unat offset))\<rparr>"
    by (auto simp: write_reserved_def vf_write_def split: option.splits)
  then show ?case
    using append_inv_write [OF failed.IH failed.hyps(2,3), of _ n] by (simp add: put_data_def)
next
  case (synced pf log io k pf' r)
  then have "vf_data (pf_file pf') = vf_data (pf_file pf)" "pf_writer_pos pf' = pf_writer_pos pf"
    by (auto simp: ProofFile_sync_def vf_sync_def synced_file_def split: option.splits)
  with synced.IH show ?case by (simp add: append_inv_def)
qed


section \<open>Reading proofs back\<close>

lemma get_proof_stored:
  assumes "consensus_ok C" and "wf_proof p" and "buffer = fst (CompactBlockProof_encode C p)"
    and "length buffer \<le> MAX_COMPACT_PROOF_BYTES" and "unat offset + length buffer < 2 ^ 64"
    and "unat offset + length buffer \<le> length (vf_data (pf_file pf))"
    and "sub (vf_data (pf_file pf)) (unat offset) (unat offset + length buffer) = buffer"
  shows "get_proof C pf \<lparr>bi_offset = offset, bi_size = of_nat (length buffer), bi_proof_forest_rows = rows\<rparr> = Some p"
proof -
  have u: "unat (of_nat (length buffer) :: u64) = length buffer"
    using assms(5) by (intro unat_of_nat_small) simp
  then have "unat (offset + of_nat (length buffer)) = unat offset + length buffer"
    using assms(5) by (simp add: unat_word_ariths)
  with u assms(4-6) have "contains pf \<lparr>bi_offset = offset, bi_size = of_nat (length buffer), bi_proof_forest_rows = rows\<rparr>"
    by (simp add: contains_def checked_add_def)
  moreover have "CompactBlockProof_decode C buffer = Inr (p, [])"
    using codec.dec_enc [OF compact_proof_codec [OF assms(1)] assms(2), of "[]"] assms(3) by simp
  ultimately show ?thesis using u assms(6,7) by (simp add: get_proof_def read_exact_at_def)
qed

text \<open>C34. Concurrent appends never disturb each other. However reservations and writes interleave, and
  whichever writes fail half way, every append that returned an index can be read back from it, also
  with the forest rows filled in, and every byte that was in the file when it was opened stays.\<close>

theorem appends_read_back:
  assumes "consensus_ok C" and "appending C initial pf log"
    and "(buffer, offset, p, Written index) \<in> set log" and "wf_proof p"
  shows "get_proof C pf (index\<lparr>bi_proof_forest_rows := rows\<rparr>) = Some p \<and>
     sub (vf_data (pf_file pf)) 0 (length initial) = initial"
proof -
  have inv: "append_inv C initial pf log" using append_invariant assms(1,2) by blast
  then have ok: "append_ok C (length initial) (vf_data (pf_file pf)) (unat (pf_writer_pos pf)) (buffer, offset, p, Written index)"
    using assms(3) unfolding append_inv_def by blast
  have "unat (pf_writer_pos pf) < 2 ^ 64" using unsigned_less [of "pf_writer_pos pf", where 'a = nat] by simp
  with ok have "unat offset + length buffer < 2 ^ 64" unfolding append_ok.simps by linarith
  moreover from ok have "buffer = fst (CompactBlockProof_encode C p)" "length buffer \<le> MAX_COMPACT_PROOF_BYTES"
    "index = \<lparr>bi_offset = offset, bi_size = of_nat (length buffer), bi_proof_forest_rows = None\<rparr>"
    "unat offset + length buffer \<le> length (vf_data (pf_file pf))"
    "sub (vf_data (pf_file pf)) (unat offset) (unat offset + length buffer) = buffer"
    unfolding append_ok.simps by blast+
  ultimately have "get_proof C pf (index\<lparr>bi_proof_forest_rows := rows\<rparr>) = Some p"
    using get_proof_stored [OF assms(1,4), of buffer offset pf rows] by simp
  with inv show ?thesis by (simp add: append_inv_def)
qed

definition example_stored_proof :: CompactBlockProof where
  "example_stored_proof = \<lparr>cp_proof = \<lparr>bp_targets = [3], bp_hashes = []\<rparr>, cp_leaves = []\<rparr>"

lemma example_stored_bytes: "fst (CompactBlockProof_encode std_consensus example_stored_proof) = [1, 3, 0, 0]"
  by (simp add: CompactBlockProof_encode_bytes example_stored_proof_def std_consensus_def std_varint_enc_def)

lemma example_stored_wf: "wf_proof example_stored_proof"
  by (simp add: wf_proof_def example_stored_proof_def MAX_COMPACT_PROOF_BYTES_def)

text \<open>Two appends overlap; the second is written first, and the first fails after one byte.\<close>

theorem appends_read_back_witness:
  "\<exists>pf index. get_proof std_consensus pf (index\<lparr>bi_proof_forest_rows := Some 5\<rparr>) = Some example_stored_proof \<and>
     sub (vf_data (pf_file pf)) 0 2 = [9, 9]"
proof -
  let ?C = std_consensus and ?p = example_stored_proof and ?f = "synced_file [9, 9]"
  let ?pf0 = "ProofFile_new (Some ?f)"
  have s0: "appending ?C [9, 9] ?pf0 []" by (rule appending.opened) (simp_all add: synced_file_def)
  have "reserve ?C ?pf0 ?p = (?pf0\<lparr>pf_writer_pos := 6\<rparr>, Inr ([1, 3, 0, 0], 2))"
    by (simp add: reserve_def Let_def example_stored_bytes MAX_COMPACT_PROOF_BYTES_def ProofFile_new_def synced_file_def checked_add_def)
  from appending.reserved [OF s0 this]
  have s1: "appending ?C [9, 9] (?pf0\<lparr>pf_writer_pos := 6\<rparr>) [([1, 3, 0, 0], 2, ?p, Reserved)]" by simp
  have "reserve ?C (?pf0\<lparr>pf_writer_pos := 6\<rparr>) ?p = (?pf0\<lparr>pf_writer_pos := 10\<rparr>, Inr ([1, 3, 0, 0], 6))"
    by (simp add: reserve_def Let_def example_stored_bytes MAX_COMPACT_PROOF_BYTES_def ProofFile_new_def checked_add_def)
  from appending.reserved [OF s1 this]
  have s2: "appending ?C [9, 9] (?pf0\<lparr>pf_writer_pos := 10\<rparr>) [([1, 3, 0, 0], 2, ?p, Reserved), ([1, 3, 0, 0], 6, ?p, Reserved)]" by simp
  obtain pf3 i where w3: "write_reserved no_faults 0 (?pf0\<lparr>pf_writer_pos := 10\<rparr>) [1, 3, 0, 0] 6 = (pf3, Inr i)"
    by (simp add: write_reserved_def vf_write_def no_faults_def)
  have s3: "appending ?C [9, 9] pf3 [([1, 3, 0, 0], 2, ?p, Reserved), ([1, 3, 0, 0], 6, ?p, Written i)]"
    using appending.written [OF s2 _ _ w3, of 1 ?p] by simp
  obtain pf4 e where w4: "write_reserved (\<lambda>_. Some 1) 0 pf3 [1, 3, 0, 0] 2 = (pf4, Inl e)"
    by (simp add: write_reserved_def vf_write_def)
  have s4: "appending ?C [9, 9] pf4 [([1, 3, 0, 0], 2, ?p, Failed), ([1, 3, 0, 0], 6, ?p, Written i)]"
    using appending.failed [OF s3 _ _ w4, of 0 ?p] by simp
  have "get_proof ?C pf4 (i\<lparr>bi_proof_forest_rows := Some 5\<rparr>) = Some ?p \<and> sub (vf_data (pf_file pf4)) 0 2 = [9, 9]"
    using appends_read_back [OF std_consensus_ok s4 _ example_stored_wf, of "[1, 3, 0, 0]" 6 i "Some 5"] by (simp add: numeral_2_eq_2)
  then show ?thesis by blast
qed

lemma truncate_spec:
  assumes "truncate_after io k pf (Some index) = (pf', r)"
  shows "(r = Inr () \<longrightarrow>
       unat (bi_offset index) + unat (bi_size index) < 2 ^ 64 \<and>
       length (vf_data (pf_file pf')) = unat (bi_offset index) + unat (bi_size index) \<and>
       unat (pf_writer_pos pf') = unat (bi_offset index) + unat (bi_size index) \<and>
       vf_past (pf_file pf') = [] \<and>
       (\<forall>i. unat (bi_offset i) + unat (bi_size i) \<le> unat (bi_offset index) + unat (bi_size index) \<longrightarrow>
          get_proof C pf' i = get_proof C pf i)) \<and>
     (length (vf_data (pf_file pf)) < unat (bi_offset index) + unat (bi_size index) \<longrightarrow> pf' = pf \<and> r \<noteq> Inr ())"
proof (intro conjI impI)
  let ?cut = "unat (bi_offset index) + unat (bi_size index)"
  assume "r = Inr ()"
  then obtain e where e: "checked_add (bi_offset index) (bi_size index) = Some e"
    and len: "unat e \<le> length (vf_data (pf_file pf))"
    and f: "vf_data (pf_file pf') = set_len_bytes (vf_data (pf_file pf)) (unat e)" "vf_past (pf_file pf') = []"
      "pf_writer_pos pf' = e"
    using assms by (auto simp: truncate_after_def bind_s_def vf_set_len_def vf_sync_def put_data_def synced_file_def
        split: option.splits if_splits)
  have u: "unat e = ?cut" using checked_add_Some [OF e] by simp
  show "?cut < 2 ^ 64" using unsigned_less [of e, where 'a = nat] u by simp
  show "length (vf_data (pf_file pf')) = ?cut" "unat (pf_writer_pos pf') = ?cut" "vf_past (pf_file pf') = []"
    using f u by simp_all
  show "\<forall>i. unat (bi_offset i) + unat (bi_size i) \<le> ?cut \<longrightarrow> get_proof C pf' i = get_proof C pf i"
  proof (intro allI impI)
    fix i :: BlockIndex assume i: "unat (bi_offset i) + unat (bi_size i) \<le> ?cut"
    then have "contains pf' i = contains pf i"
      using f u len by (auto simp: contains_def dest: checked_add_Some split: option.splits)
    moreover have "read_exact_at (vf_data (pf_file pf')) (unat (bi_size i)) (unat (bi_offset i)) =
        read_exact_at (vf_data (pf_file pf)) (unat (bi_size i)) (unat (bi_offset i))"
      using i f u len by (simp add: read_exact_at_def sub_def set_len_bytes_def drop_take)
    ultimately show "get_proof C pf' i = get_proof C pf i" by (simp add: get_proof_def)
  qed
next
  assume "length (vf_data (pf_file pf)) < unat (bi_offset index) + unat (bi_size index)"
  then have "pf' = pf \<and> r \<noteq> Inr ()"
    using assms by (auto simp: truncate_after_def bind_s_def split: option.splits if_splits dest: checked_add_Some)
  then show "pf' = pf" "r \<noteq> Inr ()" by simp_all
qed

text \<open>C35. Truncating after a rollback keeps what precedes the cut: a successful \<open>truncate_after\<close> leaves
  the file ending with the given proof, every index that ends before still reads the same, the next
  append takes the freed range, and the new length is durable; when the file ends before the given
  proof, or the index overflows, the call fails and changes nothing.\<close>

theorem truncate_keeps_prefix:
  assumes "truncate_after io k pf (Some index) = (pf', r)"
  shows "(r = Inr () \<longrightarrow>
       unat (bi_offset index) + unat (bi_size index) < 2 ^ 64 \<and>
       length (vf_data (pf_file pf')) = unat (bi_offset index) + unat (bi_size index) \<and>
       unat (pf_writer_pos pf') = unat (bi_offset index) + unat (bi_size index) \<and>
       vf_past (pf_file pf') = [] \<and>
       (\<forall>i. unat (bi_offset i) + unat (bi_size i) \<le> unat (bi_offset index) + unat (bi_size index) \<longrightarrow>
          get_proof C pf' i = get_proof C pf i)) \<and>
     (length (vf_data (pf_file pf)) < unat (bi_offset index) + unat (bi_size index) \<longrightarrow> pf' = pf \<and> r \<noteq> Inr ())"
  using truncate_spec [OF assms] .

theorem truncate_keeps_prefix_witness:
  "\<exists>pf'. truncate_after no_faults 0 (ProofFile_new (Some (synced_file [1, 3, 0, 0, 7])))
      (Some \<lparr>bi_offset = 0, bi_size = 4, bi_proof_forest_rows = None\<rparr>) = (pf', Inr ()) \<and>
     length (vf_data (pf_file pf')) = 4"
proof -
  obtain pf' where t: "truncate_after no_faults 0 (ProofFile_new (Some (synced_file [1, 3, 0, 0, 7])))
      (Some \<lparr>bi_offset = 0, bi_size = 4, bi_proof_forest_rows = None\<rparr>) = (pf', Inr ())"
    by (simp add: truncate_after_def ProofFile_new_def synced_file_def checked_add_def vf_set_len_def vf_sync_def no_faults_def)
  with truncate_keeps_prefix [OF t] show ?thesis by simp
qed

end
