(* ===== verification/Chain_View.thy ===== *)
theory Chain_View
  imports Proof_Store
begin

text \<open>
  The local view of the chain (\<open>src/src/chainview.rs\<close>): headers, accumulator roots and the two
  directions of the height index, in buckets of a key-value store. A bucket that cannot be opened
  and a stored value of a wrong length make the code panic.
\<close>

record 's ChainView =
  cv_storage :: 's

definition ChainView_new :: "'s \<Rightarrow> 's ChainView" where
  "ChainView_new storage = \<lparr>cv_storage = storage\<rparr>"

definition unwrap :: "'a res \<Rightarrow> 'a res" where
  "unwrap m = (case m of Inl _ \<Rightarrow> Inl (Panic ''unwrap'') | Inr x \<Rightarrow> Inr x)"

definition cv_get :: "'s kv_ops \<Rightarrow> 's ChainView \<Rightarrow> string \<Rightarrow> bytes \<Rightarrow> bytes option res" where
  "cv_get K cv bucket key =
     bind_r (unwrap (kv_bucket K (cv_storage cv) bucket)) (\<lambda>_. kv_get K (cv_storage cv) bucket key)"

definition cv_set :: "'s kv_ops \<Rightarrow> 's ChainView \<Rightarrow> string \<Rightarrow> bytes \<Rightarrow> bytes \<Rightarrow> 's ChainView \<times> unit res" where
  "cv_set K cv bucket key value =
     bind_s (cv, unwrap (kv_bucket K (cv_storage cv) bucket)) (\<lambda>cv _.
       case kv_set K (cv_storage cv) bucket key value of (s, r) \<Rightarrow> (cv\<lparr>cv_storage := s\<rparr>, r))"

definition get_acc :: "'s kv_ops \<Rightarrow> 's ChainView \<Rightarrow> bytes \<Rightarrow> bytes option res" where
  "get_acc K cv hash = cv_get K cv ''roots'' hash"

definition get_block :: "'s kv_ops \<Rightarrow> 's ChainView \<Rightarrow> bytes \<Rightarrow> bytes option res" where
  "get_block K cv hash = cv_get K cv ''headers'' hash"

definition get_block_hash :: "'s kv_ops \<Rightarrow> 's ChainView \<Rightarrow> u32 \<Rightarrow> bytes option res" where
  "get_block_hash K cv height =
     bind_r (cv_get K cv ''index'' (be_bytes 4 height)) (\<lambda>hash.
       case hash of
         Some hash \<Rightarrow> if length hash = 32 then Inr (Some hash) else Inl (Panic ''unwrap'')
       | None \<Rightarrow> Inr None)"

definition save_header :: "'s kv_ops \<Rightarrow> 's ChainView \<Rightarrow> bytes \<Rightarrow> bytes \<Rightarrow> 's ChainView \<times> unit res" where
  "save_header K cv hash header = cv_set K cv ''headers'' hash header"

definition save_block_hash :: "'s kv_ops \<Rightarrow> 's ChainView \<Rightarrow> u32 \<Rightarrow> bytes \<Rightarrow> 's ChainView \<times> unit res" where
  "save_block_hash K cv height hash = cv_set K cv ''index'' (be_bytes 4 height) hash"

definition cv_get_height :: "'s kv_ops \<Rightarrow> 's ChainView \<Rightarrow> bytes \<Rightarrow> u32 option res" where
  "cv_get_height K cv hash =
     bind_r (cv_get K cv ''reverse_index'' hash) (\<lambda>height.
       case height of
         Some height \<Rightarrow> if length height = 4 then Inr (Some (from_be height)) else Inl (Panic ''unwrap'')
       | None \<Rightarrow> Inr None)"

definition save_height :: "'s kv_ops \<Rightarrow> 's ChainView \<Rightarrow> bytes \<Rightarrow> u32 \<Rightarrow> 's ChainView \<times> unit res" where
  "save_height K cv hash height = cv_set K cv ''reverse_index'' hash (be_bytes 4 height)"

section \<open>Lookups after saves\<close>

lemma kv_facts:
  assumes "kv_ok K"
  shows kv_get_view: "kv_get K s b k = Inr found \<Longrightarrow> found = kv_view K s b k"
    and kv_set_view: "kv_set K s b k v = (s', Inr ()) \<Longrightarrow> kv_view K s' = (kv_view K s)(b := (kv_view K s b)(k \<mapsto> v))"
proof -
  note c = assms [unfolded kv_ok_def]
  show "kv_get K s b k = Inr found \<Longrightarrow> found = kv_view K s b k" using c [THEN conjunct1] by blast
  show "kv_set K s b k v = (s', Inr ()) \<Longrightarrow> kv_view K s' = (kv_view K s)(b := (kv_view K s b)(k \<mapsto> v))"
    using c [THEN conjunct2, THEN conjunct1, THEN spec, of s, THEN spec, of b, THEN spec, of k, THEN spec, of v] by simp
qed

text \<open>Every height and hash saved, in both directions, and the stores they reach.\<close>

inductive viewed :: "'s kv_ops \<Rightarrow> 's ChainView \<Rightarrow> (u32 \<Rightarrow> bytes option) \<Rightarrow> (bytes \<Rightarrow> u32 option) \<Rightarrow> bool"
  for K :: "'s kv_ops" where
  empty: "(\<forall>b k. kv_view K s b k = None) \<Longrightarrow> viewed K (ChainView_new s) Map.empty Map.empty"
| hash: "viewed K cv i r \<Longrightarrow> length h = 32 \<Longrightarrow> save_block_hash K cv height h = (cv', Inr ()) \<Longrightarrow> viewed K cv' (i(height \<mapsto> h)) r"
| height: "viewed K cv i r \<Longrightarrow> save_height K cv h height = (cv', Inr ()) \<Longrightarrow> viewed K cv' i (r(h \<mapsto> height))"
| header: "viewed K cv i r \<Longrightarrow> save_header K cv h bs = (cv', Inr ()) \<Longrightarrow> viewed K cv' i r"

lemma cv_set_spec:
  assumes "kv_ok K" and "cv_set K cv b k v = (cv', Inr ())"
  shows "kv_view K (cv_storage cv') = (kv_view K (cv_storage cv))(b := (kv_view K (cv_storage cv) b)(k \<mapsto> v))"
  using assms(2) kv_set_view [OF assms(1)]
  by (auto simp: cv_set_def unwrap_def bind_s_def split: sum.splits prod.splits)

lemma be_bytes_inj: "be_bytes 4 a = be_bytes 4 b \<longleftrightarrow> a = (b :: u32)"
proof
  assume "be_bytes 4 a = be_bytes 4 b"
  then have "(from_be (be_bytes 4 a) :: u32) = from_be (be_bytes 4 b)" by simp
  then show "a = b" by simp
qed simp

definition view_inv :: "'s kv_ops \<Rightarrow> 's ChainView \<Rightarrow> (u32 \<Rightarrow> bytes option) \<Rightarrow> (bytes \<Rightarrow> u32 option) \<Rightarrow> bool" where
  "view_inv K cv i r \<longleftrightarrow>
     (\<forall>height. kv_view K (cv_storage cv) ''index'' (be_bytes 4 height) = i height \<and> (\<forall>h. i height = Some h \<longrightarrow> length h = 32)) \<and>
     (\<forall>h. kv_view K (cv_storage cv) ''reverse_index'' h = map_option (be_bytes 4) (r h))"

lemma viewed_inv:
  assumes "kv_ok K" and "viewed K cv i r"
  shows "view_inv K cv i r"
  using assms(2)
proof (induction rule: viewed.induct)
  case (empty s)
  then show ?case by (simp add: view_inv_def ChainView_new_def)
next
  case (hash cv i r h height cv')
  then show ?case using cv_set_spec [OF assms(1), of cv "''index''" "be_bytes 4 height" h cv']
    by (simp add: save_block_hash_def view_inv_def be_bytes_inj)
next
  case (height cv i r h height cv')
  then show ?case using cv_set_spec [OF assms(1), of cv "''reverse_index''" h "be_bytes 4 height" cv']
    by (simp add: save_height_def view_inv_def)
next
  case (header cv i r h bs cv')
  then show ?case using cv_set_spec [OF assms(1), of cv "''headers''" h bs cv']
    by (simp add: save_header_def view_inv_def)
qed

text \<open>C38. The chain view never panics on what it saved, and never mixes its buckets: after any sequence
  of saves into an empty store, in whatever order and with headers in between, a lookup that reaches
  the store returns the last hash saved for a height and the last height saved for a hash.\<close>

theorem chain_view_lookup:
  assumes "kv_ok K" and "viewed K cv i r" and "\<forall>b. kv_bucket K (cv_storage cv) b = Inr ()"
    and "\<forall>b k. \<exists>v. kv_get K (cv_storage cv) b k = Inr v"
  shows "get_block_hash K cv height = Inr (i height) \<and> cv_get_height K cv h = Inr (r h)"
proof -
  have inv: "view_inv K cv i r" using viewed_inv assms(1,2) by blast
  have "cv_get K cv b k = Inr (kv_view K (cv_storage cv) b k)" for b k
    using assms(3,4) kv_get_view [OF assms(1)] by (metis (no_types, lifting) bind_r_simps(2) cv_get_def unwrap_def sum.case(2))
  with inv show ?thesis
    by (auto simp: get_block_hash_def cv_get_height_def view_inv_def split: option.split)
qed

definition example_kv :: "(string \<Rightarrow> bytes \<Rightarrow> bytes option) kv_ops" where
  "example_kv =
     \<lparr>kv_bucket = (\<lambda>_ _. Inr ()), kv_get = (\<lambda>s b k. Inr (s b k)),
      kv_set = (\<lambda>s b k v. (s(b := (s b)(k \<mapsto> v)), Inr ())),
      kv_remove = (\<lambda>s b k. (s(b := (s b)(k := None)), Inr ())), kv_flush = (\<lambda>s b. (s, Inr ())), kv_view = (\<lambda>s. s)\<rparr>"

lemma example_kv_ok: "kv_ok example_kv"
  by (simp add: kv_ok_def example_kv_def)

theorem chain_view_lookup_witness:
  "\<exists>cv. get_block_hash example_kv cv 7 = Inr (Some (replicate 32 1)) \<and> cv_get_height example_kv cv (replicate 32 1) = Inr (Some 7)"
proof -
  let ?h = "replicate 32 1 :: bytes"
  have v0: "viewed example_kv (ChainView_new (\<lambda>_ _. None)) Map.empty Map.empty"
    by (rule viewed.empty) (simp add: example_kv_def)
  obtain cv1 where s1: "save_block_hash example_kv (ChainView_new (\<lambda>_ _. None)) 7 ?h = (cv1, Inr ())"
    by (simp add: save_block_hash_def cv_set_def unwrap_def example_kv_def)
  have v1: "viewed example_kv cv1 [7 \<mapsto> ?h] Map.empty" using viewed.hash [OF v0 _ s1] by simp
  obtain cv2 where s2: "save_height example_kv cv1 ?h 7 = (cv2, Inr ())"
    by (simp add: save_height_def cv_set_def unwrap_def example_kv_def)
  from chain_view_lookup [OF example_kv_ok viewed.height [OF v1 s2], of 7 ?h] show ?thesis
    by (intro exI [of _ cv2]) (simp add: example_kv_def)
qed

end
