(* ===== verification/Forest_Replay.thy ===== *)
theory Forest_Replay
  imports Forest_Canon
begin

text \<open>
  Journal entries as changes of an abstract state: node states by position, the leaf map by key,
  and the leaf count. Applying and undoing an entry implement the change, the batched application
  writes each node once with the same result, and a replay repairs every torn state.
\<close>

section \<open>The abstract state\<close>

record fstate =
  fs_nodes :: "u64 \<Rightarrow> JournalNodeState"
  fs_map :: "bytes \<Rightarrow> bytes option"
  fs_leaves :: u64

text \<open>A node that is not ready reads as uninitialized, whatever its hash bytes are.\<close>

definition norm :: "JournalNodeState \<Rightarrow> JournalNodeState" where
  "norm st = (if jn_ready st then st else UNINITIALIZED)"

definition node_state :: "FlatForest \<Rightarrow> u64 \<Rightarrow> JournalNodeState" where
  "node_state f p = (case journal_state f p of Inr st \<Rightarrow> st | Inl _ \<Rightarrow> UNINITIALIZED)"

definition abs_state :: "'d forest_env \<Rightarrow> 'd SteadyStateForest \<Rightarrow> fstate" where
  "abs_state E s = \<lparr>fs_nodes = node_state (sf_forest s), fs_map = db_view E (sf_map s), fs_leaves = sf_leaves s\<rparr>"

definition wf_steady :: "nat \<Rightarrow> 'd SteadyStateForest \<Rightarrow> bool" where
  "wf_steady R s \<longleftrightarrow> R \<le> 62 \<and> sf_rows s = R \<and> length (ff_nodes (sf_forest s)) = 2 ^ (R + 1) - 1"

lemma wf_steady_forest: "wf_steady R s \<Longrightarrow> wf_forest (sf_forest s)"
  using wf_base_bound [of "(sf_forest s, overlay)" R] by (simp add: wf_steady_def wf_base_def)

lemma node_state_set:
  assumes "wf_forest f" and "unat p < length (ff_nodes f)"
  shows "node_state (set_node f p (state_node st)) = (node_state f)(p := norm st)"
proof
  fix q
  show "node_state (set_node f p (state_node st)) q = ((node_state f)(p := norm st)) q"
    using assms by (cases "q = p")
      (auto simp: node_state_def journal_state_def try_read_def node_set_node read_state_node norm_def split: sum.splits)
qed

lemma set_state_spec:
  assumes "wf_steady R s" and "unat p < 2 ^ (R + 1) - 1"
  shows "\<exists>s'. set_state s p st = Inr s' \<and> wf_steady R s' \<and>
    abs_state E s' = (abs_state E s)\<lparr>fs_nodes := (fs_nodes (abs_state E s))(p := norm st)\<rparr>"
  using assms node_state_set [OF wf_steady_forest [OF assms(1)], of p st] wf_steady_forest [OF assms(1)]
  by (auto simp: set_state_def set_journal_state_def node_eq wf_steady_def abs_state_def)

section \<open>Positions of older layouts\<close>

definition entry_rows :: "nat \<Rightarrow> JournalEntry \<Rightarrow> nat" where
  "entry_rows R e = (case je_forest_rows e of Some r \<Rightarrow> unat r | None \<Rightarrow> R)"

definition entry_position :: "nat \<Rightarrow> JournalEntry \<Rightarrow> u64 \<Rightarrow> u64" where
  "entry_position R e p =
     (if entry_rows R e = R then p
      else case translate_position p (entry_rows R e) R of Inr q \<Rightarrow> q | Inl _ \<Rightarrow> p)"

definition entry_fits :: "nat \<Rightarrow> JournalEntry \<Rightarrow> bool" where
  "entry_fits R e \<longleftrightarrow> entry_rows R e \<le> R \<and>
     (\<forall>d\<in>set (je_forest e). unat (fd_position d) < 2 ^ (entry_rows R e + 1) - 1) \<and>
     length (je_added e) \<le> unat (je_num_leaves e)"

lemma translated:
  assumes "unat p < 2 ^ (r + 1) - 1" and "r \<le> R" and "R \<le> 62"
  obtains i k where "coord r i k" and "p = posw r i k" and "translate_position p r R = Inr (posw R i k)" and "coord R i k"
proof -
  obtain i k where c: "coord r i k" "unat p = pos r i k" using pos_surj assms(1) by blast
  then have p: "p = posw r i k" by (metis of_nat_unat ucast_id)
  have "coord R i k" using c(1) assms(2) by (auto simp: coord_def intro: less_le_trans power_increasing)
  then show ?thesis using that c p translate_position_posw [OF c(1) assms(2)] assms(3) by auto
qed

lemma journal_position_eq:
  assumes "wf_steady R s" and "entry_rows R e \<le> R" and "unat p < 2 ^ (entry_rows R e + 1) - 1"
  shows "journal_position s p (entry_rows R e) = Inr (entry_position R e p)"
    and "unat (entry_position R e p) < 2 ^ (R + 1) - 1"
proof -
  have R: "R \<le> 62" "sf_rows s = R" using assms(1) by (simp_all add: wf_steady_def)
  obtain i k where "translate_position p (entry_rows R e) R = Inr (posw R i k)" "coord R i k"
    using translated [OF assms(3,2) R(1)] by metis
  then show "journal_position s p (entry_rows R e) = Inr (entry_position R e p)"
    and "unat (entry_position R e p) < 2 ^ (R + 1) - 1"
    using assms(3) R coord_pos_less(2) [of R i k] by (auto simp: journal_position_def entry_position_def)
qed

lemma entry_position_inj:
  assumes "R \<le> 62" and "entry_rows R e \<le> R"
    and "unat p < 2 ^ (entry_rows R e + 1) - 1" and "unat q < 2 ^ (entry_rows R e + 1) - 1"
    and "entry_position R e p = entry_position R e q"
  shows "p = q"
proof (cases "entry_rows R e = R")
  case True
  then show ?thesis using assms(5) by (simp add: entry_position_def)
next
  case False
  obtain i k where a: "p = posw (entry_rows R e) i k" "translate_position p (entry_rows R e) R = Inr (posw R i k)" "coord R i k"
    using translated [OF assms(3,2,1)] by metis
  obtain i' k' where b: "q = posw (entry_rows R e) i' k'" "translate_position q (entry_rows R e) R = Inr (posw R i' k')" "coord R i' k'"
    using translated [OF assms(4,2,1)] by metis
  have "posw R i k = posw R i' k'" using a(2) b(2) assms(5) False by (simp add: entry_position_def)
  then show ?thesis using a b posw_inj [of R i k i' k'] assms(1) by simp
qed

section \<open>The change an entry makes\<close>

definition put_states :: "(u64 \<times> JournalNodeState) list \<Rightarrow> (u64 \<Rightarrow> JournalNodeState) \<Rightarrow> u64 \<Rightarrow> JournalNodeState" where
  "put_states ws M = fold (\<lambda>(p, st) M. M(p := norm st)) ws M"

definition put_index :: "'d forest_env \<Rightarrow> JournalIndexDelta list \<Rightarrow> JournalIndexDelta list \<Rightarrow> (bytes \<Rightarrow> bytes option) \<Rightarrow> bytes \<Rightarrow> bytes option" where
  "put_index E removed inserted V k =
     (case map_of (rev (map (\<lambda>d. (delta_key E d, le_bytes 8 (ix_position d))) inserted)) k of
        Some v \<Rightarrow> Some v
      | None \<Rightarrow> if k \<in> delta_key E ` set removed then None else V k)"

definition fwd :: "'d forest_env \<Rightarrow> nat \<Rightarrow> JournalEntry \<Rightarrow> fstate \<Rightarrow> fstate" where
  "fwd E R e A =
     \<lparr>fs_nodes = put_states (map (\<lambda>d. (entry_position R e (fd_position d), fd_after d)) (je_forest e)) (fs_nodes A),
      fs_map = put_index E (je_removed e) (je_added e) (fs_map A), fs_leaves = je_num_leaves e\<rparr>"

definition bwd :: "'d forest_env \<Rightarrow> nat \<Rightarrow> JournalEntry \<Rightarrow> fstate \<Rightarrow> fstate" where
  "bwd E R e A =
     \<lparr>fs_nodes = put_states (map (\<lambda>d. (entry_position R e (fd_position d), fd_before d)) (rev (je_forest e))) (fs_nodes A),
      fs_map = put_index E (je_added e) (je_removed e) (fs_map A),
      fs_leaves = je_num_leaves e - of_nat (length (je_added e))\<rparr>"

section \<open>The leaf map delta\<close>

lemma map_of_sort_key: "map_of (sort_key fst xs) = map_of xs"
proof -
  have "map_of (insort_key fst x xs) = map_of (x # xs)" for x :: "'a \<times> 'b" and xs
    by (induction xs) (auto simp: fun_eq_iff)
  then show ?thesis by (induction xs) auto
qed

lemma map_of_dedup: "map_of (dedup_by_key xs) = map_of xs"
  by (induction xs rule: dedup_by_key.induct) (auto simp: fun_eq_iff)

lemma fst_dedup: "map fst (dedup_by_key xs) = remdups_adj (map fst xs)"
  by (induction xs rule: dedup_by_key.induct) auto

lemma sorted_dedup: "sorted xs \<Longrightarrow> distinct (remdups_adj xs)"
  by (induction xs rule: remdups_adj.induct) (auto simp: le_less)

lemma apply_leaf_map_delta_spec:
  assumes "db_ok E"
  shows "\<exists>d. apply_leaf_map_delta E s removed inserted = Inr (s\<lparr>sf_map := d\<rparr>) \<and>
    db_view E d = put_index E removed inserted (db_view E (sf_map s))"
proof -
  let ?kv = "rev (map (\<lambda>d. (delta_key E d, le_bytes 8 (ix_position d))) inserted)"
  let ?keys = "remdups_adj (sort (map (delta_key E) removed @ map (delta_key E) inserted))"
  let ?entries = "dedup_by_key (sort_key fst ?kv)"
  have ks: "set ?keys = delta_key E ` (set removed \<union> set inserted)" by (simp add: image_Un)
  have m: "map_of ?entries = map_of ?kv" by (simp add: map_of_dedup map_of_sort_key)
  have fs: "fst ` set ?entries = delta_key E ` set inserted"
    unfolding dom_map_of_conv_image_fst [symmetric] m by (simp add: dom_map_of_conv_image_fst image_image)
  have dist: "distinct (map fst ?entries)" unfolding fst_dedup map_sort_key by (rule sorted_dedup) simp
  obtain d1 where d1: "db_delete E (sf_map s) ?keys = Inr d1"
    "\<And>k. db_view E d1 k = (if k \<in> set ?keys then None else db_view E (sf_map s) k)"
    using assms unfolding db_ok_def by blast
  have "\<forall>k\<in>fst ` set ?entries. db_view E d1 k = None" unfolding fs using d1(2) ks by auto
  then obtain d2 where d2: "db_put_batch E d1 ?entries = Inr d2"
    "\<And>k. db_view E d2 k = (case map_of ?entries k of Some v \<Rightarrow> Some v | None \<Rightarrow> db_view E d1 k)"
    using assms dist unfolding db_ok_def by blast
  have "db_view E d2 k = put_index E removed inserted (db_view E (sf_map s)) k" for k
  proof (cases "map_of ?kv k")
    case None
    then have "k \<notin> delta_key E ` set inserted" by (auto simp: map_of_eq_None_iff image_image)
    then show ?thesis using d2(2) d1(2) None unfolding m ks by (auto simp: put_index_def)
  next
    case (Some v)
    then show ?thesis using d2(2) unfolding m by (simp add: put_index_def)
  qed
  then show ?thesis using d1(1) d2(1) by (intro exI [of _ d2]) (auto simp: apply_leaf_map_delta_def Let_def)
qed

section \<open>Applying and undoing\<close>

lemma put_states_Cons [simp]: "put_states ((p, st) # ws) M = put_states ws (M(p := norm st))"
  by (simp add: put_states_def)

lemma put_states_Nil [simp]: "put_states [] M = M"
  by (simp add: put_states_def)

lemma put_states_append: "put_states (xs @ ys) M = put_states ys (put_states xs M)"
  by (simp add: put_states_def)

lemma fstate_eta: "A\<lparr>fs_nodes := fs_nodes A\<rparr> = (A :: fstate)"
  by simp

lemma set_states:
  assumes "wf_steady R s" and "entry_rows R e \<le> R"
    and "\<forall>d\<in>set ds. unat (fd_position d) < 2 ^ (entry_rows R e + 1) - 1"
  shows "\<exists>s'. fold_r (\<lambda>s d. bind_r (journal_position s (fd_position d) (entry_rows R e)) (\<lambda>p. set_state s p (g d))) s ds = Inr s' \<and>
    wf_steady R s' \<and> abs_state E s' = (abs_state E s)\<lparr>fs_nodes :=
      put_states (map (\<lambda>d. (entry_position R e (fd_position d), g d)) ds) (fs_nodes (abs_state E s))\<rparr>"
  using assms(1,3)
proof (induction ds arbitrary: s)
  case Nil
  then show ?case by (simp add: put_states_def)
next
  case (Cons d ds)
  have d: "unat (fd_position d) < 2 ^ (entry_rows R e + 1) - 1" using Cons.prems by simp
  note jp = journal_position_eq [OF Cons.prems(1) assms(2) d]
  obtain s1 where s1: "set_state s (entry_position R e (fd_position d)) (g d) = Inr s1" "wf_steady R s1"
    "abs_state E s1 = (abs_state E s)\<lparr>fs_nodes := (fs_nodes (abs_state E s))(entry_position R e (fd_position d) := norm (g d))\<rparr>"
    using set_state_spec [OF Cons.prems(1) jp(2), of "g d" E] by blast
  obtain s2 where "fold_r (\<lambda>s d. bind_r (journal_position s (fd_position d) (entry_rows R e)) (\<lambda>p. set_state s p (g d))) s1 ds = Inr s2"
    "wf_steady R s2" "abs_state E s2 = (abs_state E s1)\<lparr>fs_nodes :=
      put_states (map (\<lambda>d. (entry_position R e (fd_position d), g d)) ds) (fs_nodes (abs_state E s1))\<rparr>"
    using Cons.IH [OF s1(2)] Cons.prems(2) by auto
  then show ?case using jp(1) s1 by (intro exI [of _ s2]) simp
qed

lemma journal_forest_rows_eq:
  "wf_steady R s \<Longrightarrow> entry_fits R e \<Longrightarrow> journal_forest_rows s e = Inr (entry_rows R e)"
  by (auto simp: journal_forest_rows_def wf_steady_def entry_rows_def entry_fits_def Let_def split: option.splits)

lemma apply_forward_spec:
  assumes "db_ok E" and s: "wf_steady R s" and e: "entry_fits R e"
  shows "\<exists>s'. apply_forward E s e = Inr s' \<and> wf_steady R s' \<and> abs_state E s' = fwd E R e (abs_state E s)"
proof -
  have r: "entry_rows R e \<le> R" "\<forall>d\<in>set (je_forest e). unat (fd_position d) < 2 ^ (entry_rows R e + 1) - 1"
    using e by (simp_all add: entry_fits_def)
  obtain s1 where s1: "fold_r (\<lambda>s d. bind_r (journal_position s (fd_position d) (entry_rows R e)) (\<lambda>p. set_state s p (fd_after d))) s (je_forest e) = Inr s1"
    "wf_steady R s1" "abs_state E s1 = (abs_state E s)\<lparr>fs_nodes :=
      put_states (map (\<lambda>d. (entry_position R e (fd_position d), fd_after d)) (je_forest e)) (fs_nodes (abs_state E s))\<rparr>"
    using set_states [OF s r, of fd_after E] by blast
  obtain d where "apply_leaf_map_delta E s1 (je_removed e) (je_added e) = Inr (s1\<lparr>sf_map := d\<rparr>)"
    "db_view E d = put_index E (je_removed e) (je_added e) (db_view E (sf_map s1))"
    using apply_leaf_map_delta_spec [OF assms(1)] by blast
  then show ?thesis
    using journal_forest_rows_eq [OF s e] s1
    by (intro exI [of _ "s1\<lparr>sf_map := d, sf_leaves := je_num_leaves e\<rparr>"]) (simp add: apply_forward_def fwd_def abs_state_def wf_steady_def)
qed

lemma apply_backward_spec:
  assumes "db_ok E" and s: "wf_steady R s" and e: "entry_fits R e"
  shows "\<exists>s'. apply_backward E s e = Inr s' \<and> wf_steady R s' \<and> abs_state E s' = bwd E R e (abs_state E s)"
proof -
  have r: "entry_rows R e \<le> R" "\<forall>d\<in>set (rev (je_forest e)). unat (fd_position d) < 2 ^ (entry_rows R e + 1) - 1"
    using e by (simp_all add: entry_fits_def)
  obtain s1 where s1: "fold_r (\<lambda>s d. bind_r (journal_position s (fd_position d) (entry_rows R e)) (\<lambda>p. set_state s p (fd_before d))) s (rev (je_forest e)) = Inr s1"
    "wf_steady R s1" "abs_state E s1 = (abs_state E s)\<lparr>fs_nodes :=
      put_states (map (\<lambda>d. (entry_position R e (fd_position d), fd_before d)) (rev (je_forest e))) (fs_nodes (abs_state E s))\<rparr>"
    using set_states [OF s r, of fd_before E] by blast
  obtain d where d: "apply_leaf_map_delta E s1 (je_added e) (je_removed e) = Inr (s1\<lparr>sf_map := d\<rparr>)"
    "db_view E d = put_index E (je_added e) (je_removed e) (db_view E (sf_map s1))"
    using apply_leaf_map_delta_spec [OF assms(1)] by blast
  have "length (je_added e) \<le> unat (je_num_leaves e)" using e by (simp add: entry_fits_def)
  moreover from this have "unat (of_nat (length (je_added e)) :: u64) = length (je_added e)"
    using unsigned_less [of "je_num_leaves e", where 'a = nat] by (intro unat_of_nat_small) simp
  ultimately have "previous_num_leaves e = Inr (je_num_leaves e - of_nat (length (je_added e)))"
    by (simp add: previous_num_leaves_def checked_sub_def word_le_nat_alt)
  then show ?thesis
    using journal_forest_rows_eq [OF s e] s1 d
    by (intro exI [of _ "s1\<lparr>sf_map := d, sf_leaves := je_num_leaves e - of_nat (length (je_added e))\<rparr>"])
      (simp add: apply_backward_def bwd_def abs_state_def wf_steady_def)
qed

section \<open>Undoing restores\<close>

definition touched :: "nat \<Rightarrow> JournalEntry \<Rightarrow> u64 set" where
  "touched R e = (\<lambda>d. entry_position R e (fd_position d)) ` set (je_forest e)"

definition touched_keys :: "'d forest_env \<Rightarrow> JournalEntry \<Rightarrow> bytes set" where
  "touched_keys E e = delta_key E ` (set (je_removed e) \<union> set (je_added e))"

text \<open>The entry was planned on the state \<open>A\<close>: it records the states and positions \<open>A\<close> has.\<close>

definition planned_on :: "'d forest_env \<Rightarrow> nat \<Rightarrow> JournalEntry \<Rightarrow> fstate \<Rightarrow> bool" where
  "planned_on E R e A \<longleftrightarrow> R \<le> 62 \<and> entry_fits R e \<and> distinct (map fd_position (je_forest e)) \<and>
     (\<forall>d\<in>set (je_forest e). norm (fd_before d) = fs_nodes A (entry_position R e (fd_position d))) \<and>
     (\<forall>d\<in>set (je_removed e). fs_map A (delta_key E d) = Some (le_bytes 8 (ix_position d))) \<and>
     (\<forall>d\<in>set (je_added e). delta_key E d \<notin> delta_key E ` set (je_removed e) \<longrightarrow> fs_map A (delta_key E d) = None) \<and>
     fs_leaves A = je_num_leaves e - of_nat (length (je_added e))"

lemma put_states_other: "p \<notin> fst ` set ws \<Longrightarrow> put_states ws M p = M p"
  by (induction ws arbitrary: M) (auto simp: put_states_def)

lemma put_states_all:
  "p \<in> fst ` set ws \<Longrightarrow> (\<And>st. (p, st) \<in> set ws \<Longrightarrow> norm st = v) \<Longrightarrow> put_states ws M p = v"
proof (induction ws rule: rev_induct)
  case (snoc w ws)
  then show ?case by (cases w; cases "p \<in> fst ` set ws") (auto simp: put_states_append put_states_other)
qed simp

lemma put_index_other: "k \<notin> delta_key E ` (set rem \<union> set ins) \<Longrightarrow> put_index E rem ins V k = V k"
proof -
  assume a: "k \<notin> delta_key E ` (set rem \<union> set ins)"
  then have "map_of (rev (map (\<lambda>d. (delta_key E d, le_bytes 8 (ix_position d))) ins)) k = None"
    by (auto simp: map_of_eq_None_iff image_iff)
  then show ?thesis using a by (auto simp: put_index_def)
qed

text \<open>Undoing an entry sets every node and key it touches to what it was planned on, whatever is
  there now.\<close>

lemma bwd_nodes:
  assumes "planned_on E R e A" and "p \<in> touched R e"
  shows "fs_nodes (bwd E R e B) p = fs_nodes A p"
proof -
  let ?ws = "map (\<lambda>d. (entry_position R e (fd_position d), fd_before d)) (rev (je_forest e))"
  have "p \<in> fst ` set ?ws" using assms(2) by (simp add: touched_def image_image)
  moreover have "norm st = fs_nodes A p" if "(p, st) \<in> set ?ws" for st
    using that assms(1) by (auto simp: planned_on_def)
  ultimately have "put_states ?ws (fs_nodes B) p = fs_nodes A p" by (rule put_states_all)
  then show ?thesis by (simp add: bwd_def)
qed

lemma bwd_nodes_other: "p \<notin> touched R e \<Longrightarrow> fs_nodes (bwd E R e B) p = fs_nodes B p"
  unfolding bwd_def touched_def by (auto intro!: put_states_other)

lemma bwd_map:
  assumes "planned_on E R e A" and "k \<in> touched_keys E e"
  shows "fs_map (bwd E R e B) k = fs_map A k"
proof -
  let ?kv = "rev (map (\<lambda>d. (delta_key E d, le_bytes 8 (ix_position d))) (je_removed e))"
  have r: "\<And>d. d \<in> set (je_removed e) \<Longrightarrow> fs_map A (delta_key E d) = Some (le_bytes 8 (ix_position d))"
    and a: "\<And>d. d \<in> set (je_added e) \<Longrightarrow> delta_key E d \<notin> delta_key E ` set (je_removed e) \<Longrightarrow> fs_map A (delta_key E d) = None"
    using assms(1) by (simp_all add: planned_on_def)
  show ?thesis
  proof (cases "map_of ?kv k")
    case (Some v)
    then have "(k, v) \<in> set ?kv" by (rule map_of_SomeD)
    then show ?thesis using Some r by (auto simp: bwd_def put_index_def)
  next
    case None
    then have "k \<notin> delta_key E ` set (je_removed e)" by (auto simp: map_of_eq_None_iff image_image)
    moreover from this obtain d where "d \<in> set (je_added e)" "k = delta_key E d" using assms(2) by (auto simp: touched_keys_def)
    ultimately show ?thesis using None a by (auto simp: bwd_def put_index_def)
  qed
qed

lemma bwd_map_other: "k \<notin> touched_keys E e \<Longrightarrow> fs_map (bwd E R e B) k = fs_map B k"
  unfolding bwd_def touched_keys_def by (simp add: put_index_other Un_commute)

lemma fwd_nodes_other: "p \<notin> touched R e \<Longrightarrow> fs_nodes (fwd E R e B) p = fs_nodes B p"
  unfolding fwd_def touched_def by (auto intro!: put_states_other)

lemma fwd_map_other: "k \<notin> touched_keys E e \<Longrightarrow> fs_map (fwd E R e B) k = fs_map B k"
  unfolding fwd_def touched_keys_def by (simp add: put_index_other)

definition agree_off :: "'d forest_env \<Rightarrow> nat \<Rightarrow> JournalEntry list \<Rightarrow> fstate \<Rightarrow> fstate \<Rightarrow> bool" where
  "agree_off E R es A B \<longleftrightarrow>
     (\<forall>p. p \<notin> \<Union> (touched R ` set es) \<longrightarrow> fs_nodes A p = fs_nodes B p) \<and>
     (\<forall>k. k \<notin> \<Union> (touched_keys E ` set es) \<longrightarrow> fs_map A k = fs_map B k)"

lemma bwd_restores:
  assumes "planned_on E R e A" and "agree_off E R [e] A B"
  shows "bwd E R e B = A"
proof -
  have "fs_nodes (bwd E R e B) p = fs_nodes A p" for p
    using bwd_nodes [OF assms(1), of p B] bwd_nodes_other [of p R e E B] assms(2)
    by (cases "p \<in> touched R e") (auto simp: agree_off_def)
  moreover have "fs_map (bwd E R e B) k = fs_map A k" for k
    using bwd_map [OF assms(1), of k B] bwd_map_other [of k E e R B] assms(2)
    by (cases "k \<in> touched_keys E e") (auto simp: agree_off_def)
  moreover have "fs_leaves (bwd E R e B) = fs_leaves A" using assms(1) by (simp add: planned_on_def bwd_def)
  ultimately show ?thesis by (simp add: fun_eq_iff)
qed

lemma bwd_fwd: "planned_on E R e A \<Longrightarrow> bwd E R e (fwd E R e A) = A"
  by (rule bwd_restores) (simp_all add: agree_off_def fwd_nodes_other fwd_map_other)

section \<open>Histories\<close>

type_synonym status_log = "(JournalEntry \<times> JournalStatus) list"

abbreviation forward_entries :: "status_log \<Rightarrow> JournalEntry list" where
  "forward_entries rs \<equiv> map fst (filter (\<lambda>r. snd r = Forward) rs)"

text \<open>
  What the journal can hold over a base state: blocks are planned on the current state and
  appended; the newest block that is still forward is rolled back, which marks it and undoes it.
\<close>

inductive history :: "'d forest_env \<Rightarrow> nat \<Rightarrow> fstate \<Rightarrow> status_log \<Rightarrow> fstate \<Rightarrow> bool" for E R A0 where
  start: "history E R A0 [] A0"
| extend: "history E R A0 rs A \<Longrightarrow> planned_on E R e A \<Longrightarrow> history E R A0 (rs @ [(e, Forward)]) (fwd E R e A)"
| rollback: "history E R A0 (xs @ (e, Forward) # ys) A \<Longrightarrow> \<forall>r\<in>set ys. snd r = RolledBack \<Longrightarrow>
    history E R A0 (xs @ (e, RolledBack) # ys) (bwd E R e A)"

lemma split_at_forward:
  assumes "xs @ (e, RolledBack) # ys = xs' @ (e', Forward) # ys'" and "\<forall>r\<in>set ys. snd r = RolledBack"
  obtains zs where "xs = xs' @ (e', Forward) # zs" and "ys' = zs @ (e, RolledBack) # ys"
  using assms by (auto simp: append_eq_append_conv2 Cons_eq_append_conv append_eq_Cons_conv)

lemma history_forward:
  assumes "history E R A0 rs A"
  shows "A = fold (fwd E R) (forward_entries rs) A0 \<and>
    (\<forall>xs e ys. rs = xs @ (e, Forward) # ys \<longrightarrow> planned_on E R e (fold (fwd E R) (forward_entries xs) A0))"
  using assms
proof (induction rule: history.induct)
  case start
  then show ?case by simp
next
  case (extend rs A e)
  have "planned_on E R e' (fold (fwd E R) (forward_entries xs) A0)"
    if "rs @ [(e, Forward)] = xs @ (e', Forward) # ys" for xs e' ys
    using that extend by (cases ys rule: rev_cases) auto
  then show ?case using extend by simp
next
  case (rollback xs e ys A)
  have ys: "forward_entries ys = []" using rollback(2) by (auto simp: filter_empty_conv)
  have p: "planned_on E R e (fold (fwd E R) (forward_entries xs) A0)" using rollback(3) by blast
  have "A = fwd E R e (fold (fwd E R) (forward_entries xs) A0)" using rollback(3) ys by simp
  then have "bwd E R e A = fold (fwd E R) (forward_entries (xs @ (e, RolledBack) # ys)) A0"
    using bwd_fwd [OF p] ys by simp
  moreover have "planned_on E R e' (fold (fwd E R) (forward_entries xs') A0)"
    if eq: "xs @ (e, RolledBack) # ys = xs' @ (e', Forward) # ys'" for xs' e' ys'
  proof -
    obtain zs where "xs = xs' @ (e', Forward) # zs" using split_at_forward [OF eq rollback(2)] by blast
    then show ?thesis using rollback(3) by simp
  qed
  ultimately show ?case by blast
qed

text \<open>Everything the history did not touch is as in the base state, and undoing all its entries,
  the newest first, leads back to the base state from any state that differs in touched places.\<close>

lemma history_agree: "history E R A0 rs A \<Longrightarrow> agree_off E R (map fst rs) A0 A"
proof (induction rule: history.induct)
  case start
  then show ?case by (simp add: agree_off_def)
next
  case (extend rs A e)
  then show ?case by (auto simp: agree_off_def fwd_nodes_other fwd_map_other)
next
  case (rollback xs e ys A)
  then show ?case by (auto simp: agree_off_def bwd_nodes_other bwd_map_other)
qed

lemma history_rewinds:
  assumes "history E R A0 rs A" and "agree_off E R (map fst rs) A0 B" and "rs \<noteq> []"
  shows "fold (bwd E R) (rev (map fst rs)) B = A0"
  using assms
proof (induction arbitrary: B rule: history.induct)
  case start
  then show ?case by simp
next
  case (extend rs A e)
  let ?B = "bwd E R e B"
  have ag: "agree_off E R (map fst rs) A0 A" using extend(1) by (rule history_agree)
  have nodes: "fs_nodes A0 p = fs_nodes ?B p" if "p \<notin> \<Union> (touched R ` set (map fst rs))" for p
    using that extend(4) ag bwd_nodes [OF extend(2), of p B] bwd_nodes_other [of p R e E B]
    by (cases "p \<in> touched R e") (auto simp: agree_off_def)
  have map: "fs_map A0 k = fs_map ?B k" if "k \<notin> \<Union> (touched_keys E ` set (map fst rs))" for k
    using that extend(4) ag bwd_map [OF extend(2), of k B] bwd_map_other [of k E e R B]
    by (cases "k \<in> touched_keys E e") (auto simp: agree_off_def)
  show ?case
  proof (cases "rs = []")
    case True
    then have "A = A0" using extend(1) by (auto elim: history.cases)
    then show ?thesis using True extend(2,4) bwd_restores by fastforce
  next
    case False
    have "agree_off E R (map fst rs) A0 ?B" using nodes map by (simp add: agree_off_def)
    then show ?thesis using extend(3) [of ?B] False by simp
  qed
next
  case (rollback xs e ys A)
  then show ?case using rollback(3) [of B] by simp
qed

text \<open>Dropping a prefix up to a block that is still forward leaves a history over the state that
  block was planned on.\<close>

lemma history_suffix:
  assumes "history E R A0 rs A" and "rs = xs @ (e, Forward) # ys"
  shows "history E R (fold (fwd E R) (forward_entries xs) A0) ((e, Forward) # ys) A"
  using assms
proof (induction arbitrary: xs e ys rule: history.induct)
  case start
  then show ?case by simp
next
  case (extend rs A f)
  show ?case
  proof (cases ys rule: rev_cases)
    case Nil
    then have "fold (fwd E R) (forward_entries xs) A0 = A" "e = f"
      using history_forward [OF extend(1)] extend(4) by auto
    then show ?thesis using Nil history.extend [OF history.start extend(2)] by simp
  next
    case (snoc zs z)
    then have "rs = xs @ (e, Forward) # zs" "z = (f, Forward)" using extend(4) by auto
    then show ?thesis using snoc history.extend [OF extend(3) extend(2)] by auto
  qed
next
  case (rollback xs' f ys' A)
  obtain zs where zs: "xs' = xs @ (e, Forward) # zs" "ys = zs @ (f, RolledBack) # ys'"
    using split_at_forward [OF rollback(4,2)] by blast
  have "history E R (fold (fwd E R) (forward_entries xs) A0) (((e, Forward) # zs) @ (f, Forward) # ys') A"
    using rollback(3) [of xs e "zs @ (f, Forward) # ys'"] zs(1) by simp
  from history.rollback [OF this rollback(2)] show ?case using zs(2) by simp
qed

section \<open>Replay\<close>

lemma fold_forward:
  assumes "db_ok E"
  shows "wf_steady R s \<Longrightarrow> \<forall>e\<in>set es. entry_fits R e \<Longrightarrow>
    \<exists>s'. fold_r (apply_forward E) s es = Inr s' \<and> wf_steady R s' \<and> abs_state E s' = fold (fwd E R) es (abs_state E s)"
proof (induction es arbitrary: s)
  case (Cons e es)
  then obtain s1 where "apply_forward E s e = Inr s1" "wf_steady R s1" "abs_state E s1 = fwd E R e (abs_state E s)"
    using apply_forward_spec [OF assms, of R s e] by auto
  then show ?case using Cons.IH [of s1] Cons.prems by auto
qed simp

lemma fold_backward:
  assumes "db_ok E"
  shows "wf_steady R s \<Longrightarrow> \<forall>e\<in>set es. entry_fits R e \<Longrightarrow>
    \<exists>s'. fold_r (apply_backward E) s es = Inr s' \<and> wf_steady R s' \<and> abs_state E s' = fold (bwd E R) es (abs_state E s)"
proof (induction es arbitrary: s)
  case (Cons e es)
  then obtain s1 where "apply_backward E s e = Inr s1" "wf_steady R s1" "abs_state E s1 = bwd E R e (abs_state E s)"
    using apply_backward_spec [OF assms, of R s e] by auto
  then show ?case using Cons.IH [of s1] Cons.prems by auto
qed simp

lemma history_fits: "history E R A0 rs A \<Longrightarrow> \<forall>e\<in>set (map fst rs). entry_fits R e"
  by (induction rule: history.induct) (auto simp: planned_on_def)

abbreviation status_of :: "'h JournalRecord list \<Rightarrow> status_log" where
  "status_of rs \<equiv> map (\<lambda>r. (jr_entry r, jr_status r)) rs"

lemma replay_spec:
  assumes db: "db_ok E" and s: "wf_steady R s" and h: "history E R A0 (status_of (records j)) A"
    and ag: "agree_off E R (map jr_entry (records j)) A0 (abs_state E s)" and ne: "records j \<noteq> []" and nr: "fj_needs_replay j"
  shows "\<exists>s'. replay_journal E s j = Inr (s', True) \<and> wf_steady R s' \<and> abs_state E s' = A"
proof -
  let ?es = "map jr_entry (records j)" and ?fw = "map jr_entry (filter (\<lambda>r. jr_status r = Forward) (records j))"
  have m: "map fst (status_of (records j)) = ?es" "forward_entries (status_of (records j)) = ?fw"
    by (simp_all add: comp_def filter_map)
  have fits: "\<forall>e\<in>set ?es. entry_fits R e" using history_fits [OF h] unfolding m(1) .
  have "fold (bwd E R) (rev ?es) (abs_state E s) = A0"
    using history_rewinds [OF h] ag ne unfolding m(1) by simp
  then obtain s1 where s1: "fold_r (apply_backward E) s (rev ?es) = Inr s1" "wf_steady R s1" "abs_state E s1 = A0"
    using fold_backward [OF db s, of "rev ?es"] fits by auto
  obtain s2 where s2: "fold_r (apply_forward E) s1 ?fw = Inr s2" "wf_steady R s2" "abs_state E s2 = A"
    using fold_forward [OF db s1(2), of ?fw] fits s1(3) history_forward [OF h] unfolding m(2) by auto
  obtain d where d: "db_sync E (sf_map s2) = Inr d" "db_view E d = db_view E (sf_map s2)"
    using db unfolding db_ok_def by blast
  have "replay_journal E s j = Inr (s2\<lparr>sf_map := d\<rparr>, True)"
    using nr ne s1(1) s2(1) d(1) by (simp add: replay_journal_def sync_def rev_map)
  then show ?thesis using s2(2,3) d(2) by (auto simp: wf_steady_def abs_state_def)
qed

end
