(* ===== verification/Window_Apply.thy ===== *)
theory Window_Apply
  imports Forest_Replay
begin

text \<open>
  The batched application of a published window: the heap merge of the blocks' sorted deltas
  yields every touched position once, in ascending order, with the state of its latest delta, so
  the batch has the effect of applying the blocks one after the other.
\<close>

section \<open>Merge heads\<close>

definition pos_at :: "JournalEntry list \<Rightarrow> nat \<times> nat \<Rightarrow> u64" where
  "pos_at entries x = fd_position (delta_at entries x)"

abbreviation block_len :: "JournalEntry list \<Rightarrow> nat \<Rightarrow> nat" where
  "block_len entries b \<equiv> length (je_forest (entries ! b))"

definition sorted_blocks :: "JournalEntry list \<Rightarrow> bool" where
  "sorted_blocks entries \<longleftrightarrow> (\<forall>e\<in>set entries. sorted (map fd_position (je_forest e)))"

definition heads_ok :: "JournalEntry list \<Rightarrow> heads \<Rightarrow> bool" where
  "heads_ok entries hs \<longleftrightarrow> sorted hs \<and> distinct (map (\<lambda>h. fst (snd h)) hs) \<and>
     (\<forall>h\<in>set hs. fst (snd h) < length entries \<and> snd (snd h) < block_len entries (fst (snd h)) \<and> fst h = pos_at entries (snd h))"

lemma distinct_map_insort: "distinct (map g (insort x xs)) \<longleftrightarrow> g x \<notin> g ` set xs \<and> distinct (map g xs)"
  by (induction xs) (auto simp: set_insort_key)

lemma sorted_head: "sorted (h # hs) \<Longrightarrow> h' \<in> set hs \<Longrightarrow> fst h \<le> fst h'" for h :: "u64 \<times> nat \<times> nat"
  by (auto simp: less_eq_prod_def)

lemma Max_insert_max: "finite X \<Longrightarrow> Max (insert (max a b) X) = Max (insert a (insert b X))"
  by (cases "X = {}") (simp_all add: max.assoc)

text \<open>The deltas from a head on, and all that the heads still stand for.\<close>

definition after_head :: "JournalEntry list \<Rightarrow> nat \<times> nat \<Rightarrow> (nat \<times> nat) set" where
  "after_head entries x = {(fst x, i) |i. snd x < i \<and> i < block_len entries (fst x)}"

definition todo :: "JournalEntry list \<Rightarrow> heads \<Rightarrow> (nat \<times> nat) set" where
  "todo entries hs = (\<Union>(p, x)\<in>set hs. insert x (after_head entries x))"

lemma finite_todo [simp]: "finite (after_head entries x)" "finite (todo entries hs)"
proof -
  show f: "finite (after_head entries x)" for x
    by (rule finite_subset [of _ "Pair (fst x) ` {..<block_len entries (fst x)}"]) (auto simp: after_head_def)
  then show "finite (todo entries hs)" by (auto simp: todo_def)
qed

lemma todo_Cons: "todo entries ((p, x) # hs) = insert x (after_head entries x \<union> todo entries hs)"
  by (auto simp: todo_def)

lemma after_head_pos:
  assumes "sorted_blocks entries" and "fst x < length entries" and "y \<in> after_head entries x"
  shows "pos_at entries x \<le> pos_at entries y"
proof -
  have "sorted (map fd_position (je_forest (entries ! fst x)))" using assms(1,2) by (simp add: sorted_blocks_def)
  moreover obtain i where "y = (fst x, i)" "snd x < i" "i < block_len entries (fst x)"
    using assms(3) by (auto simp: after_head_def)
  ultimately show ?thesis
    using sorted_nth_mono [of "map fd_position (je_forest (entries ! fst x))" "snd x" i] by (simp add: pos_at_def delta_at_def)
qed

lemma todo_pos:
  assumes "sorted_blocks entries" and "heads_ok entries hs" and "x \<in> todo entries hs" and "\<forall>h\<in>set hs. p \<le> fst h"
  shows "p \<le> pos_at entries x"
proof -
  obtain q y where h: "(q, y) \<in> set hs" "x \<in> insert y (after_head entries y)"
    using assms(3) by (auto simp: todo_def)
  then have "q = pos_at entries y" "fst y < length entries" "p \<le> q" using assms(2,4) by (force simp: heads_ok_def)+
  then show ?thesis using h(2) after_head_pos [OF assms(1), of y x] by auto
qed

lemma push_next_ok:
  assumes "sorted_blocks entries" and "heads_ok entries hs" and "fst x < length entries" and "fst x \<notin> (\<lambda>h. fst (snd h)) ` set hs"
  shows "heads_ok entries (push_next entries x hs)"
    and "todo entries (push_next entries x hs) = todo entries hs \<union> after_head entries x"
    and "p \<le> pos_at entries x \<Longrightarrow> \<forall>h\<in>set hs. p \<le> fst h \<Longrightarrow> \<forall>h\<in>set (push_next entries x hs). p \<le> fst h"
proof -
  let ?y = "(fst x, snd x + 1)"
  show "heads_ok entries (push_next entries x hs)"
    using assms by (auto simp: heads_ok_def push_next_def set_insort_key distinct_map_insort sorted_insort pos_at_def)
  show "todo entries (push_next entries x hs) = todo entries hs \<union> after_head entries x"
  proof (cases "snd x + 1 < block_len entries (fst x)")
    case True
    then have "after_head entries x = insert ?y (after_head entries ?y)" by (auto simp: after_head_def)
    then show ?thesis using True by (auto simp: push_next_def todo_def set_insort_key)
  next
    case False
    then have "after_head entries x = {}" by (auto simp: after_head_def)
    then show ?thesis using False by (simp add: push_next_def)
  qed
  show "\<forall>h\<in>set (push_next entries x hs). p \<le> fst h" if a: "p \<le> pos_at entries x" "\<forall>h\<in>set hs. p \<le> fst h"
  proof (cases "snd x + 1 < block_len entries (fst x)")
    case True
    then have "?y \<in> after_head entries x" by (simp add: after_head_def)
    then have "p \<le> pos_at entries ?y" using after_head_pos [OF assms(1,3)] a(1) by fastforce
    then show ?thesis using True a(2) by (simp add: push_next_def set_insort_key pos_at_def)
  next
    case False
    then show ?thesis using a(2) by (simp add: push_next_def)
  qed
qed

definition at_pos :: "JournalEntry list \<Rightarrow> u64 \<Rightarrow> (nat \<times> nat) set \<Rightarrow> (nat \<times> nat) set" where
  "at_pos entries p X = {x \<in> X. pos_at entries x = p}"

lemma finite_at_pos [simp]: "finite X \<Longrightarrow> finite (at_pos entries p X)"
  by (simp add: at_pos_def)

lemma absorb_spec:
  "absorb entries p latest x hs = (l, hs') \<Longrightarrow> sorted_blocks entries \<Longrightarrow> heads_ok entries hs \<Longrightarrow>
    fst x < length entries \<Longrightarrow> fst x \<notin> (\<lambda>h. fst (snd h)) ` set hs \<Longrightarrow> pos_at entries x = p \<Longrightarrow> \<forall>h\<in>set hs. p \<le> fst h \<Longrightarrow>
    heads_ok entries hs' \<and> todo entries hs' = {y \<in> todo entries hs \<union> after_head entries x. pos_at entries y \<noteq> p} \<and>
    (\<forall>h\<in>set hs'. p < fst h) \<and> l = Max (insert latest (at_pos entries p (todo entries hs \<union> after_head entries x)))"
proof (induction entries p latest x hs rule: absorb.induct)
  case (1 entries p latest x hs)
  let ?hs = "push_next entries x hs" and ?T = "todo entries hs \<union> after_head entries x"
  note ok = push_next_ok [OF 1(3-6)]
  have ge: "\<forall>h\<in>set ?hs. p \<le> fst h" using ok(3) [of p] 1(7,8) by simp
  show ?case
  proof (cases "\<exists>y rest. ?hs = (p, y) # rest")
    case True
    then obtain y rest where y: "?hs = (p, y) # rest" by blast
    have ab: "absorb entries p (max latest y) y rest = (l, hs')" using 1(2) y by (simp add: absorb.simps [of entries p latest])
    have "heads_ok entries rest" "fst y < length entries" "fst y \<notin> (\<lambda>h. fst (snd h)) ` set rest" "pos_at entries y = p"
      using ok(1) y by (simp_all add: heads_ok_def)
    moreover have "\<forall>h\<in>set rest. p \<le> fst h" using ge y by simp
    ultimately have ih: "heads_ok entries hs' \<and> todo entries hs' = {z \<in> todo entries rest \<union> after_head entries y. pos_at entries z \<noteq> p} \<and>
      (\<forall>h\<in>set hs'. p < fst h) \<and> l = Max (insert (max latest y) (at_pos entries p (todo entries rest \<union> after_head entries y)))"
      using 1(1) [OF y refl refl ab] 1(3) by blast
    have T: "?T = insert y (todo entries rest \<union> after_head entries y)" using ok(2) y by (simp add: todo_Cons Un_commute)
    have "Max (insert (max latest y) (at_pos entries p (todo entries rest \<union> after_head entries y))) = Max (insert latest (at_pos entries p ?T))"
    proof -
      let ?X = "at_pos entries p (todo entries rest \<union> after_head entries y)"
      have fin: "finite ?X" by simp
      have "at_pos entries p ?T = insert y ?X" using T \<open>pos_at entries y = p\<close> by (auto simp: at_pos_def)
      moreover have "Max (insert (max latest y) ?X) = Max (insert latest (insert y ?X))"
        using fin by (rule Max_insert_max)
      ultimately show ?thesis by simp
    qed
    then show ?thesis using ih T \<open>pos_at entries y = p\<close> by auto
  next
    case False
    then have stop: "l = latest" "hs' = ?hs" using 1(2) by (auto simp: absorb.simps split: list.splits if_splits)
    have gt: "\<forall>h\<in>set ?hs. p < fst h"
    proof (cases ?hs)
      case (Cons h rest)
      then have "fst h \<noteq> p" using False by (cases h) auto
      then have "p < fst h" using ge Cons by force
      moreover have "fst h \<le> fst h'" if "h' \<in> set rest" for h'
        using ok(1) Cons that sorted_head [of h rest h'] by (simp add: heads_ok_def)
      ultimately show ?thesis using Cons by fastforce
    qed simp
    have "pos_at entries y \<noteq> p" if "y \<in> ?T" for y
    proof -
      obtain q z where "(q, z) \<in> set ?hs" "y \<in> insert z (after_head entries z)" using \<open>y \<in> ?T\<close> unfolding ok(2) [symmetric] by (auto simp: todo_def)
      moreover from this have "q = pos_at entries z" "fst z < length entries" using ok(1) by (force simp: heads_ok_def)+
      ultimately have "q \<le> pos_at entries y" using after_head_pos [OF 1(3), of z y] by auto
      then show ?thesis using gt \<open>(q, z) \<in> set ?hs\<close> by force
    qed
    then have "at_pos entries p ?T = {}" "{y \<in> ?T. pos_at entries y \<noteq> p} = ?T" unfolding at_pos_def by blast+
    then show ?thesis using stop gt ok(1,2) by (simp del: Collect_conj_eq)
  qed
qed

lemma merged_loop_spec:
  "sorted_blocks entries \<Longrightarrow> heads_ok entries hs \<Longrightarrow>
    sorted_wrt (<) (map fst (merged_loop entries hs)) \<and>
    (\<forall>q\<in>fst ` set (merged_loop entries hs). \<forall>p. (\<forall>h\<in>set hs. p \<le> fst h) \<longrightarrow> p \<le> q) \<and>
    (\<forall>p. map_of (merged_loop entries hs) p =
      (if at_pos entries p (todo entries hs) = {} then None
       else Some (fd_after (delta_at entries (Max (at_pos entries p (todo entries hs)))))))"
proof (induction entries hs rule: merged_loop.induct)
  case (1 entries)
  then show ?case by (simp add: todo_def at_pos_def)
next
  case (2 entries q x hs)
  obtain l hs' where ab: "absorb entries q x x hs = (l, hs')" by fastforce
  have h: "heads_ok entries hs" "fst x < length entries" "fst x \<notin> (\<lambda>h. fst (snd h)) ` set hs" "pos_at entries x = q"
    using 2(3) by (simp_all add: heads_ok_def)
  have ge: "\<forall>h\<in>set hs. q \<le> fst h"
    using 2(3) sorted_head [of "(q, x)" hs] by (fastforce simp: heads_ok_def)
  note sp = absorb_spec [OF ab 2(2) h ge]
  let ?T = "todo entries ((q, x) # hs)" and ?out = "merged_loop entries hs'"
  have T: "?T = insert x (todo entries hs \<union> after_head entries x)" by (auto simp: todo_Cons)
  have T': "todo entries hs' = {y \<in> ?T. pos_at entries y \<noteq> q}" using sp h(4) T by auto
  have l: "l = Max (at_pos entries q ?T)"
  proof -
    have "at_pos entries q ?T = insert x (at_pos entries q (todo entries hs \<union> after_head entries x))" using T h(4) by (auto simp: at_pos_def)
    then show ?thesis using sp by simp
  qed
  have ih: "sorted_wrt (<) (map fst ?out)" "\<forall>r\<in>fst ` set ?out. \<forall>p. (\<forall>h\<in>set hs'. p \<le> fst h) \<longrightarrow> p \<le> r"
    "\<And>p. map_of ?out p = (if at_pos entries p (todo entries hs') = {} then None
       else Some (fd_after (delta_at entries (Max (at_pos entries p (todo entries hs'))))))"
    using 2(1) [OF ab [symmetric] 2(2)] sp by blast+
  have gt: "q < r" if "r \<in> fst ` set ?out" for r
  proof -
    have "at_pos entries r (todo entries hs') \<noteq> {}" using that ih(3) [of r] by (metis domIff dom_map_of_conv_image_fst)
    then obtain y where "y \<in> todo entries hs'" "pos_at entries y = r" unfolding at_pos_def by blast
    then have "r \<noteq> q" using T' by blast
    moreover have "q \<le> r" using that ih(2) sp by (meson less_imp_le)
    ultimately show ?thesis by simp
  qed
  have ml: "merged_loop entries ((q, x) # hs) = (q, fd_after (delta_at entries l)) # ?out" using ab by simp
  have "map_of (merged_loop entries ((q, x) # hs)) p =
      (if at_pos entries p ?T = {} then None else Some (fd_after (delta_at entries (Max (at_pos entries p ?T)))))" for p
  proof (cases "p = q")
    case True
    then have "at_pos entries p ?T \<noteq> {}" using T h(4) unfolding at_pos_def by blast
    then show ?thesis using ml l True by simp
  next
    case False
    then have "at_pos entries p (todo entries hs') = at_pos entries p ?T" using T' unfolding at_pos_def by blast
    then show ?thesis using ml ih(3) [of p] False by simp
  qed
  moreover have "sorted_wrt (<) (map fst (merged_loop entries ((q, x) # hs)))"
    using ih(1) gt unfolding ml by simp
  moreover have "p \<le> r" if "\<forall>h\<in>set ((q, x) # hs). p \<le> fst h" "r \<in> fst ` set (merged_loop entries ((q, x) # hs))" for p r
  proof -
    have "p \<le> q" using that(1) by simp
    moreover have "q = r \<or> q < r" using that(2) gt unfolding ml by auto
    ultimately show ?thesis by auto
  qed
  ultimately show ?case by blast
qed

section \<open>One write per position\<close>

definition all_deltas :: "JournalEntry list \<Rightarrow> (nat \<times> nat) set" where
  "all_deltas entries = {(b, i). b < length entries \<and> i < block_len entries b}"

lemma initial_heads_ok:
  "heads_ok entries (initial_heads entries)" "todo entries (initial_heads entries) = all_deltas entries"
proof -
  let ?l = "[(fd_position (hd (je_forest (entries ! b))), b, 0 :: nat). b \<leftarrow> [0..<length entries], je_forest (entries ! b) \<noteq> []]"
  have s: "set (initial_heads entries) = {(pos_at entries (b, 0), b, 0) |b. b < length entries \<and> je_forest (entries ! b) \<noteq> []}"
    by (auto simp: initial_heads_def pos_at_def delta_at_def hd_conv_nth)
  have ins: "distinct (map g (sort xs)) \<longleftrightarrow> distinct (map g xs)" for g :: "u64 \<times> nat \<times> nat \<Rightarrow> nat" and xs
    by (induction xs) (auto simp: distinct_map_insort)
  have "map (\<lambda>h. fst (snd h)) [(fd_position (hd (je_forest (entries ! b))), b, 0 :: nat). b \<leftarrow> bs, je_forest (entries ! b) \<noteq> []] =
      filter (\<lambda>b. je_forest (entries ! b) \<noteq> []) bs" for bs
    by (induction bs) auto
  then have "distinct (map (\<lambda>h. fst (snd h)) (initial_heads entries))" unfolding initial_heads_def ins by simp
  moreover have "sorted (initial_heads entries)" by (simp add: initial_heads_def)
  ultimately show "heads_ok entries (initial_heads entries)" using s by (auto simp: heads_ok_def)
  show "todo entries (initial_heads entries) = all_deltas entries"
    unfolding todo_def s by (auto simp: all_deltas_def after_head_def) (metis gr_zeroI list.size(3) not_less_zero)
qed

text \<open>Applying the blocks one after the other leaves the latest delta of each position.\<close>

lemma put_states_last:
  "put_states ws M p = (if {i. i < length ws \<and> fst (ws ! i) = p} = {} then M p
     else norm (snd (ws ! Max {i. i < length ws \<and> fst (ws ! i) = p})))"
proof (induction ws rule: rev_induct)
  case (snoc w ws)
  let ?I = "\<lambda>ws. {i. i < length ws \<and> fst (ws ! i) = p}"
  show ?case
  proof (cases "fst w = p")
    case True
    then have "?I (ws @ [w]) = insert (length ws) (?I ws)" by (auto simp: nth_append less_Suc_eq)
    moreover have "Max (insert (length ws) (?I ws)) = length ws" by (rule Max_eqI) auto
    ultimately show ?thesis using True by (cases w) (auto simp: put_states_append)
  next
    case False
    then have "?I (ws @ [w]) = ?I ws" by (auto simp: nth_append less_Suc_eq)
    moreover have "Max (?I ws) < length ws" if "?I ws \<noteq> {}" using Max_in [of "?I ws"] that by simp
    ultimately show ?thesis using snoc False by (cases w) (auto simp: put_states_append nth_append)
  qed
qed simp

abbreviation block_writes :: "JournalEntry \<Rightarrow> (u64 \<times> JournalNodeState) list" where
  "block_writes e \<equiv> map (\<lambda>d. (fd_position d, fd_after d)) (je_forest e)"

lemma blocks_last:
  "fold (\<lambda>e. put_states (block_writes e)) entries M p =
     (if at_pos entries p (all_deltas entries) = {} then M p
      else norm (fd_after (delta_at entries (Max (at_pos entries p (all_deltas entries))))))"
proof (induction entries rule: rev_induct)
  case Nil
  then show ?case by (simp add: all_deltas_def at_pos_def)
next
  case (snoc e es)
  let ?n = "length es" and ?A = "at_pos es p (all_deltas es)"
  let ?I = "{i. i < length (je_forest e) \<and> fd_position (je_forest e ! i) = p}"
  have da: "delta_at (es @ [e]) (b, i) = (if b < ?n then delta_at es (b, i) else if b = ?n then je_forest e ! i else delta_at (es @ [e]) (b, i))" for b i
    by (simp add: delta_at_def nth_append)
  have set: "at_pos (es @ [e]) p (all_deltas (es @ [e])) = ?A \<union> Pair ?n ` ?I"
    by (auto simp: at_pos_def all_deltas_def pos_at_def da nth_append less_Suc_eq split: if_splits)
  have fin: "finite ?A" "finite ?I"
    using finite_todo(2) [of es "initial_heads es"] unfolding initial_heads_ok(2) by simp_all
  have I: "{i. i < length (block_writes e) \<and> fst (block_writes e ! i) = p} = ?I" by auto
  show ?case
  proof (cases "?I = {}")
    case True
    have "Max ?A \<in> ?A" if "?A \<noteq> {}" using fin(1) that by (rule Max_in)
    then have "fst (Max ?A) < ?n" if "?A \<noteq> {}" using that by (auto simp: at_pos_def all_deltas_def)
    then have "delta_at (es @ [e]) (Max ?A) = delta_at es (Max ?A)" if "?A \<noteq> {}"
      using that by (simp add: delta_at_def nth_append)
    moreover have "at_pos (es @ [e]) p (all_deltas (es @ [e])) = ?A" using set True by simp
    moreover have "put_states (block_writes e) N p = N p" for N using True I put_states_last [of "block_writes e" N p] by simp
    ultimately show ?thesis using snoc by simp
  next
    case False
    have "Max ?I \<in> ?I" using fin(2) False by (rule Max_in)
    have "Max (?A \<union> Pair ?n ` ?I) = (?n, Max ?I)"
    proof (rule Max_eqI)
      show "finite (?A \<union> Pair ?n ` ?I)" using fin by simp
      show "y \<le> (?n, Max ?I)" if "y \<in> ?A \<union> Pair ?n ` ?I" for y
        using that fin(2) by (cases y) (auto simp: at_pos_def all_deltas_def less_eq_prod_def)
      show "(?n, Max ?I) \<in> ?A \<union> Pair ?n ` ?I" using \<open>Max ?I \<in> ?I\<close> by blast
    qed
    moreover have "put_states (block_writes e) N p = norm (fd_after (je_forest e ! Max ?I))" for N
      using put_states_last [of "block_writes e" N p, unfolded I if_not_P [OF False]] \<open>Max ?I \<in> ?I\<close> by simp
    moreover have "?A \<union> Pair ?n ` ?I \<noteq> {}" using False by blast
    ultimately show ?thesis using set by (auto simp: delta_at_def)
  qed
qed

lemma merged_writes_spec:
  assumes "sorted_blocks entries"
  shows "sorted_wrt (<) (map fst (merged_forest_writes entries))"
    and "put_states (merged_forest_writes entries) M = fold (\<lambda>e. put_states (block_writes e)) entries M"
    and "fst ` set (merged_forest_writes entries) \<subseteq> pos_at entries ` all_deltas entries"
proof -
  let ?out = "merged_forest_writes entries"
  note sp = merged_loop_spec [OF assms initial_heads_ok(1), folded merged_forest_writes_def, unfolded initial_heads_ok(2)]
  show st: "sorted_wrt (<) (map fst ?out)" using sp by blast
  then have d: "distinct (map fst ?out)" using strict_sorted_iff by blast
  have "put_states ?out M p = (case map_of ?out p of None \<Rightarrow> M p | Some v \<Rightarrow> norm v)" for p
  proof (cases "map_of ?out p")
    case None
    then have "p \<notin> fst ` set ?out" by (simp add: map_of_eq_None_iff)
    then show ?thesis using None by (simp add: put_states_other)
  next
    case (Some v)
    then have "(p, v) \<in> set ?out" by (rule map_of_SomeD)
    moreover have "norm st = norm v" if "(p, st) \<in> set ?out" for st
      using d that Some by (metis map_of_is_SomeI option.inject)
    moreover from calculation(1) have "p \<in> fst ` set ?out" by (metis fst_conv image_eqI)
    ultimately have "put_states ?out M p = norm v" by (intro put_states_all)
    then show ?thesis using Some by simp
  qed
  then show "put_states ?out M = fold (\<lambda>e. put_states (block_writes e)) entries M"
    using sp by (auto simp: fun_eq_iff blocks_last)
  show "fst ` set ?out \<subseteq> pos_at entries ` all_deltas entries"
  proof
    fix p assume "p \<in> fst ` set ?out"
    then have "at_pos entries p (all_deltas entries) \<noteq> {}" using sp by (metis domIff dom_map_of_conv_image_fst)
    then show "p \<in> pos_at entries ` all_deltas entries" by (auto simp: at_pos_def)
  qed
qed

section \<open>The batch\<close>

lemma entry_position_same: "entry_rows R e = R \<Longrightarrow> entry_position R e p = p"
  by (simp add: entry_position_def)

lemma fwd_nodes: "entry_rows R e = R \<Longrightarrow> fs_nodes (fwd E R e A) = put_states (block_writes e) (fs_nodes A)"
  by (simp add: fwd_def entry_position_same)

lemma batch_writes:
  assumes "wf_steady R s" and "\<forall>w\<in>set ws. unat (fst w) < 2 ^ (R + 1) - 1"
  shows "\<exists>s'. fold_r (\<lambda>s (position, st). set_state s position st) s ws = Inr s' \<and> wf_steady R s' \<and>
    abs_state E s' = (abs_state E s)\<lparr>fs_nodes := put_states ws (fs_nodes (abs_state E s))\<rparr>"
  using assms
proof (induction ws arbitrary: s)
  case (Cons w ws)
  obtain p st where w: "w = (p, st)" by (cases w)
  obtain s1 where s1: "set_state s p st = Inr s1" "wf_steady R s1"
    "abs_state E s1 = (abs_state E s)\<lparr>fs_nodes := (fs_nodes (abs_state E s))(p := norm st)\<rparr>"
    using set_state_spec [OF Cons.prems(1), of p st E] Cons.prems(2) w by auto
  obtain s2 where "fold_r (\<lambda>s (position, st). set_state s position st) s1 ws = Inr s2" "wf_steady R s2"
    "abs_state E s2 = (abs_state E s1)\<lparr>fs_nodes := put_states ws (fs_nodes (abs_state E s1))\<rparr>"
    using Cons.IH [OF s1(2)] Cons.prems(2) by auto
  then show ?case using w s1 by (intro exI [of _ s2]) simp
qed simp

text \<open>The entries of the window in block order, on the leaf map and the leaf count.\<close>

lemma batch_entries:
  assumes "db_ok E"
  shows "wf_steady R s \<Longrightarrow> \<exists>s'. fold_r (apply_entry_batched E) s es = Inr s' \<and> wf_steady R s' \<and>
    fs_nodes (abs_state E s') = fs_nodes (abs_state E s) \<and>
    fs_map (abs_state E s') = fs_map (fold (fwd E R) es (abs_state E s)) \<and>
    fs_leaves (abs_state E s') = fs_leaves (fold (fwd E R) es (abs_state E s))"
proof (induction es arbitrary: s)
  case (Cons e es)
  obtain d where d: "apply_leaf_map_delta E s (je_removed e) (je_added e) = Inr (s\<lparr>sf_map := d\<rparr>)"
    "db_view E d = put_index E (je_removed e) (je_added e) (db_view E (sf_map s))"
    using apply_leaf_map_delta_spec [OF assms] by blast
  obtain d' where d': "db_compact E d (of_nat (2 ^ 20 div 32 div 2)) = Inr d'" "db_view E d' = db_view E d"
    using assms unfolding db_ok_def by blast
  define c where "c = (if je_height e mod 1000 = 0 then d' else d)"
  let ?s = "s\<lparr>sf_map := c, sf_leaves := je_num_leaves e\<rparr>"
  have v: "db_view E c = put_index E (je_removed e) (je_added e) (db_view E (sf_map s))" using d d' by (simp add: c_def)
  have ap: "apply_entry_batched E s e = Inr ?s"
    using d(1) d'(1) by (simp add: apply_entry_batched_def compact_leaf_map_def Let_def c_def)
  have wf: "wf_steady R ?s" using Cons.prems by (simp add: wf_steady_def)
  have eq: "fs_map (fold (fwd E R) es A) = fs_map (fold (fwd E R) es B) \<and> fs_leaves (fold (fwd E R) es A) = fs_leaves (fold (fwd E R) es B)"
    if "fs_map A = fs_map B" "fs_leaves A = fs_leaves B" for A B
    using that by (induction es arbitrary: A B) (simp_all add: fwd_def)
  have "fs_map (abs_state E ?s) = fs_map (fwd E R e (abs_state E s))" "fs_leaves (abs_state E ?s) = fs_leaves (fwd E R e (abs_state E s))"
    "fs_nodes (abs_state E ?s) = fs_nodes (abs_state E s)"
    using v by (simp_all add: abs_state_def fwd_def)
  then show ?case using Cons.IH [OF wf] ap eq [of "abs_state E ?s" "fwd E R e (abs_state E s)"] by fastforce
qed simp

lemma fwd_nodes_fold:
  "\<forall>e\<in>set es. entry_rows R e = R \<Longrightarrow> fs_nodes (fold (fwd E R) es A) = fold (\<lambda>e. put_states (block_writes e)) es (fs_nodes A)"
  by (induction es arbitrary: A) (simp_all add: fwd_nodes)

lemma batch_spec:
  assumes "db_ok E" and "wf_steady R s" and "sorted_blocks entries"
    and "\<forall>e\<in>set entries. entry_fits R e \<and> entry_rows R e = R"
  shows "\<exists>s1. apply_forward_batch E s entries = Inr s1 \<and> wf_steady R s1 \<and>
    abs_state E s1 = fold (fwd E R) entries (abs_state E s)"
proof -
  note mw = merged_writes_spec [OF assms(3)]
  have rows: "fold_r (\<lambda>_ e. bind_r (journal_forest_rows s e) (\<lambda>rows.
      ensure (rows = sf_rows s) ''published window spans different physical forest layouts'')) () es = Inr ()"
    if "set es \<subseteq> set entries" for es
    using that
  proof (induction es)
    case (Cons e es)
    then have "journal_forest_rows s e = Inr R" "sf_rows s = R"
      using journal_forest_rows_eq [OF assms(2), of e] assms(2,4) by (auto simp: wf_steady_def)
    then show ?case using Cons by simp
  qed simp
  have "unat (fst w) < 2 ^ (R + 1) - 1" if w: "w \<in> set (merged_forest_writes entries)" for w
  proof -
    obtain b i where "fst w = pos_at entries (b, i)" "b < length entries" "i < block_len entries b"
      using mw(3) w by (auto simp: all_deltas_def)
    moreover from this have "entries ! b \<in> set entries" "je_forest (entries ! b) ! i \<in> set (je_forest (entries ! b))" by simp_all
    ultimately show ?thesis using assms(4) unfolding entry_fits_def pos_at_def delta_at_def by fastforce
  qed
  then obtain s1 where s1: "fold_r (\<lambda>s (position, st). set_state s position st) s (merged_forest_writes entries) = Inr s1"
    "wf_steady R s1" "abs_state E s1 = (abs_state E s)\<lparr>fs_nodes := put_states (merged_forest_writes entries) (fs_nodes (abs_state E s))\<rparr>"
    using batch_writes [OF assms(2), of "merged_forest_writes entries" E] by blast
  obtain s2 where s2: "fold_r (apply_entry_batched E) s1 entries = Inr s2"
    "fs_nodes (abs_state E s2) = fs_nodes (abs_state E s1)"
    "fs_map (abs_state E s2) = fs_map (fold (fwd E R) entries (abs_state E s1))"
    "fs_leaves (abs_state E s2) = fs_leaves (fold (fwd E R) entries (abs_state E s1))" "wf_steady R s2"
    using batch_entries [OF assms(1) s1(2)] by blast
  have indep: "fs_map (fold (fwd E R) es (A\<lparr>fs_nodes := M\<rparr>)) = fs_map (fold (fwd E R) es A) \<and>
      fs_leaves (fold (fwd E R) es (A\<lparr>fs_nodes := M\<rparr>)) = fs_leaves (fold (fwd E R) es A)" for es A M
  proof (induction es arbitrary: A M)
    case (Cons e es)
    have "fwd E R e (A\<lparr>fs_nodes := M\<rparr>) = (fwd E R e A)\<lparr>fs_nodes := fs_nodes (fwd E R e (A\<lparr>fs_nodes := M\<rparr>))\<rparr>" by (simp add: fwd_def)
    then show ?case using Cons.IH by (metis fold_simps(2))
  qed simp
  have "abs_state E s2 = fold (fwd E R) entries (abs_state E s)"
    using s2(2-4) s1(3) indep mw(2) fwd_nodes_fold [of entries R E "abs_state E s"] assms(4) by simp
  moreover have "apply_forward_batch E s entries = Inr s2"
    using rows [of entries] s1(1) s2(1) by (simp add: apply_forward_batch_def)
  ultimately show ?thesis using s2(5) by blast
qed

section \<open>Properties\<close>

text \<open>C22. Applying a published window in one batch is right: when every block's deltas are sorted
  and use the forest's layout, the merged writes touch each position once, in ascending order, and
  the batch succeeds with the same nodes, leaf map and leaf count as applying the blocks one by
  one with \<open>apply_forward\<close>.\<close>

theorem batch_equals_sequential:
  assumes "db_ok E" and "wf_steady R s" and "sorted_blocks entries"
    and "\<forall>e\<in>set entries. entry_fits R e \<and> entry_rows R e = R"
  shows "\<exists>s1 s2. apply_forward_batch E s entries = Inr s1 \<and> fold_r (apply_forward E) s entries = Inr s2 \<and>
    abs_state E s1 = abs_state E s2 \<and> abs_state E s2 = fold (fwd E R) entries (abs_state E s) \<and>
    sorted_wrt (<) (map fst (merged_forest_writes entries))"
  using batch_spec [OF assms] fold_forward [OF assms(1,2), of entries] assms(4) merged_writes_spec(1) [OF assms(3)] by fastforce

definition example_block :: "u8 \<Rightarrow> u64 list \<Rightarrow> JournalEntry" where
  "example_block h ps =
     \<lparr>je_height = ucast h, je_block_hash = replicate 32 h, je_num_leaves = ucast h, je_previous_block_hash = replicate 32 0,
      je_forest = map (\<lambda>p. \<lparr>fd_position = p, fd_before = UNINITIALIZED,
        fd_after = \<lparr>jn_ready = True, jn_spent = False, jn_hash = replicate 32 h\<rparr>\<rparr>) ps,
      je_removed = [], je_added = [\<lparr>ix_outpoint = example_outpoint h, ix_position = ucast h - 1\<rparr>], je_forest_rows = Some 2\<rparr>"

text \<open>Two blocks that both write position 1.\<close>

theorem batch_equals_sequential_witness:
  "\<exists>s1 s2. apply_forward_batch example_fenv example_steady [example_block 1 [0, 1], example_block 2 [1, 4]] = Inr s1 \<and>
     fold_r (apply_forward example_fenv) example_steady [example_block 1 [0, 1], example_block 2 [1, 4]] = Inr s2 \<and>
     abs_state example_fenv s1 = abs_state example_fenv s2"
proof -
  have wf: "wf_steady 2 example_steady" by (simp add: wf_steady_def example_steady_def)
  have so: "sorted_blocks [example_block 1 [0, 1], example_block 2 [1, 4]]" by (simp add: sorted_blocks_def example_block_def)
  have "\<forall>e\<in>set [example_block 1 [0, 1], example_block 2 [1, 4]]. entry_fits 2 e \<and> entry_rows 2 e = 2"
    by (simp add: entry_fits_def entry_rows_def example_block_def)
  from batch_equals_sequential [OF example_db_ok(1) wf so this] show ?thesis by blast
qed

end
