(* ===== verification/Journal_Recovery.thy ===== *)
theory Journal_Recovery
  imports Forest_Journal
begin

text \<open>
  Crash safety of the journal. The journal, its publisher and its pruner are a transition
  system in which appends interleave with a publication in flight, every file operation may
  fail, and the process may crash and reopen the files at any point. In every reachable state
  a crash leaves files that open again, with exactly the records of the last publication or
  of the one in flight.
\<close>

section \<open>What a marker publishes\<close>

definition page_ok :: "nat \<Rightarrow> bool" where
  "page_ok p \<longleftrightarrow> 4096 \<le> p \<and> p \<le> 65536 \<and> (\<exists>k<64. p = 2 ^ k)"

definition published_in ::
  "'h journal_env \<Rightarrow> nat \<Rightarrow> bytes \<Rightarrow> PublicationMarker \<Rightarrow> 'h JournalRecord list \<Rightarrow> bool" where
  "published_in E p d m L \<longleftrightarrow>
     chain (pm_replay_start m) L (jb_end (pm_boundary m)) \<and> (\<forall>r\<in>set L. stored E p d r) \<and>
     last_boundary L (jb_journal_id (pm_boundary m)) 0 p = pm_boundary (durable m)"

lemma scan_published_in:
  "published_in E p d m L \<Longrightarrow> env_ok E \<Longrightarrow> scan_published E d p (durable m) = Inr L"
  by (simp add: scan_published_def published_in_def scan_stored)

lemma published_in_agree:
  assumes "published_in E p d m L" and "agree (pm_replay_start m) (jb_end (pm_boundary m)) d d'"
  shows "published_in E p d' m L"
proof -
  have "stored E p d' r" if r: "r \<in> set L" for r
  proof -
    have "chain (pm_replay_start m) L (jb_end (pm_boundary m))" "stored E p d r"
      using assms(1) r by (auto simp: published_in_def)
    with chain_bounds [OF this(1) r] show ?thesis using stored_agree [OF _ assms(2)] by blast
  qed
  then show ?thesis using assms(1) by (simp add: published_in_def)
qed

lemma published_in_durable [simp]: "published_in E p d (durable m) L = published_in E p d m L"
  by (simp add: published_in_def)

lemma encode_durable [simp]: "encode_publication_marker E (durable m) = encode_publication_marker E m"
  by (simp add: encode_publication_marker_def marker_body_def durable_def)

lemma wf_durable [simp]: "wf_marker (durable m) = wf_marker m"
  by (simp add: wf_marker_def wf_boundary_def durable_def)

lemma slot_holds_durable [simp]: "slot_holds E p d (durable m) = slot_holds E p d m"
  by (simp add: slot_holds_def)

lemma slot_stale_durable [simp]: "slot_stale E p d (durable m) = slot_stale E p d m"
  by (simp add: slot_stale_def extends_def)

lemma stored_span: "stored E p d r \<Longrightarrow> jr_span r mod p = 0 \<and> 0 < p \<and> jr_offset r + jr_span r < 2 ^ 64"
  by (auto simp: stored_def stored_as_def dest!: align_up_Some)

lemma stored_length: "stored E p d r \<Longrightarrow> jr_offset r < length d"
  by (auto simp: stored_def stored_as_def read_exact_at_Some)

lemma decode_payload_wf:
  "decode_payload E v w = Inr (e, rp) \<Longrightarrow> wf_entry e"
  by (auto simp: decode_payload_def Let_def split: if_splits prod.splits dest!: decode_entry_sound)

lemma stored_wf_boundary:
  assumes "stored E p d r" and "env_ok E" and "length journal_id = 32"
  shows "wf_boundary (record_boundary r journal_id epoch)"
proof -
  obtain v w where s: "stored_as E p v w d r" using assms(1) by (auto simp: stored_def)
  then have "wf_entry (jr_entry r)" using decode_payload_wf by (auto simp: stored_as_def)
  then show ?thesis using s assms(2,3)
    by (simp add: wf_boundary_def record_boundary_def stored_as_def wf_entry_def env_ok_def)
qed

lemma chain_aligned:
  assumes "chain a rs b" and "a mod p = 0" and "\<forall>r\<in>set rs. jr_span r mod p = 0"
  shows "b mod p = 0" and "r \<in> set rs \<Longrightarrow> jr_offset r mod p = 0"
proof -
  have "b mod p = 0 \<and> (\<forall>r\<in>set rs. jr_offset r mod p = 0)"
    using assms
  proof (induction rs arbitrary: a)
    case (Cons s rs)
    then have "(a + jr_span s) mod p = 0" by (simp add: mod_add_eq [symmetric])
    with Cons show ?case by auto
  qed simp
  then show "b mod p = 0" and "r \<in> set rs \<Longrightarrow> jr_offset r mod p = 0" by auto
qed

lemma chain_span: "chain a rs b \<Longrightarrow> r \<in> set rs \<Longrightarrow> 0 < jr_span r"
  by (induction rs arbitrary: a) auto

section \<open>Opening crashed files\<close>

definition crashed_dir :: "journal_dir \<Rightarrow> bytes \<Rightarrow> bytes \<Rightarrow> journal_dir" where
  "crashed_dir dir w c = dir\<lparr>jd_wal := Some (synced_file w), jd_published := Some (synced_file c)\<rparr>"

definition reopened ::
  "nat \<Rightarrow> bytes \<Rightarrow> bytes \<Rightarrow> bytes \<Rightarrow> PublicationMarker \<Rightarrow> 'h JournalRecord list \<Rightarrow> bool \<Rightarrow> 'h ForestJournal" where
  "reopened p journal_id w c m L dirty =
     (let e = jb_end (pm_boundary m) in
      \<lparr>fj_wal = (if length w \<noteq> e then put_data (synced_file w) (set_len_bytes w e) else synced_file w),
       fj_mk = synced_file c, fj_page_size = p, fj_journal_id = journal_id, fj_records = L,
       fj_marker = durable m, fj_appended_end = e, fj_published_end = e, fj_epoch = 0,
       fj_poisoned = False, fj_needs_replay = dirty\<rparr>)"

lemma superblock_magic: "read_superblock E w = Inr x \<Longrightarrow> read_exact_at w 8 0 = Some WAL_MAGIC"
  using read_exact_at_sub [of w 96 0 _ 0 8]
  by (auto simp: read_superblock_def Let_def)

lemma open_crashed:
  assumes "env_ok E" and "read_superblock E w = Inr (p, journal_id)"
    and "read_publication_marker E c journal_id p = Inr (durable m)"
    and "published_in E p w m L" and "jb_end (pm_boundary m) \<le> length w"
  shows "\<exists>dir'. ForestJournal_open E v fresh (crashed_dir dir w c) =
    Inr (dir', reopened p journal_id w c m L (\<not> snd (take_clean_shutdown_marker dir)))"
proof -
  have t: "take_clean_shutdown_marker (crashed_dir dir w c) =
      (crashed_dir (fst (take_clean_shutdown_marker dir)) w c, snd (take_clean_shutdown_marker dir))"
    by (simp add: take_clean_shutdown_marker_def crashed_dir_def split: option.splits)
  let ?dir = "crashed_dir (fst (take_clean_shutdown_marker dir)) w c"
  have d: "jd_wal ?dir = Some (synced_file w)" "jd_published ?dir = Some (synced_file c)"
    by (simp_all add: crashed_dir_def)
  show ?thesis
    unfolding ForestJournal_open_def t Let_def prod.case d option.case
    using assms superblock_magic [OF assms(2)] scan_published_in [OF assms(4,1)]
    by (simp add: d reopened_def not_less Let_def)
qed

section \<open>The publication marker across a crash\<close>

text \<open>
  A slot whose bytes are a mixture of what it held and of the marker being written does not
  have a valid checksum, unless it is one of the two.
\<close>

definition checksums_detect ::
  "'h journal_env \<Rightarrow> bytes \<Rightarrow> PublicationMarker option \<Rightarrow> vfile \<Rightarrow> bytes \<Rightarrow> bool" where
  "checksums_detect E journal_id pending f c \<longleftrightarrow>
     (\<forall>s\<in>{0, 1}. \<forall>bs. slot_of c s = Some bs \<and> slot_valid E journal_id bs \<longrightarrow>
        slot_of (last (versions f)) s = Some bs \<or>
        (\<exists>n. pending = Some n \<and> bs = encode_publication_marker E n))"

definition mk_ok :: "'h journal_env \<Rightarrow> nat \<Rightarrow> vfile \<Rightarrow> PublicationMarker \<Rightarrow> bool" where
  "mk_ok E p mk m \<longleftrightarrow> vf_past mk = [] \<and> 8192 \<le> length (vf_data mk) \<and>
     slot_holds E p (vf_data mk) m \<and> slot_stale E p (vf_data mk) m"

definition follows :: "nat \<Rightarrow> PublicationMarker \<Rightarrow> PublicationMarker \<Rightarrow> bool" where
  "follows p n m \<longleftrightarrow> wf_marker n \<and> marker_shape p (pm_generation n mod 2) n \<and>
     pm_generation n = pm_generation m + 1 \<and> extends n m \<and>
     jb_journal_id (pm_boundary n) = jb_journal_id (pm_boundary m)"

definition mk_torn :: "'h journal_env \<Rightarrow> nat \<Rightarrow> vfile \<Rightarrow> PublicationMarker \<Rightarrow> PublicationMarker \<Rightarrow> bool" where
  "mk_torn E p mk m n \<longleftrightarrow> follows p n m \<and>
     (\<forall>v\<in>set (versions mk). 8192 \<le> length v \<and> slot_holds E p v m) \<and>
     slot_stale E p (last (versions mk)) m"

lemma slot_of_Some: "8192 \<le> length d \<Longrightarrow> s \<le> 1 \<Longrightarrow> \<exists>bs. slot_of d s = Some bs \<and> length bs = 172"
  by (auto simp: slot_of_def read_exact_at_def PUBLICATION_SLOT_SIZE_def)

lemma slot_agree:
  assumes "agree (s * PUBLICATION_SLOT_SIZE) (s * PUBLICATION_SLOT_SIZE + 172) d d'" and "s \<le> 1"
    and "8192 \<le> length d" and "8192 \<le> length d'"
  shows "slot_of d s = slot_of d' s"
  using assms by (auto simp: slot_of_def read_exact_at_def agree_def PUBLICATION_SLOT_SIZE_def)

lemma crash_slot:
  assumes "crash_image f c" and "\<forall>v\<in>set (versions f). 8192 \<le> length v \<and> slot_of v s = Some bs" and "s \<le> 1"
  shows "8192 \<le> length c" and "slot_of c s = Some bs"
proof -
  let ?a = "s * PUBLICATION_SLOT_SIZE"
  show len: "8192 \<le> length c" using assms(1,2) by (auto simp: crash_image_def)
  have v: "agree ?a (?a + 172) v (vf_data f)" if "v \<in> set (versions f)" for v
    using assms(2) that by (auto simp: slot_of_def read_exact_at_Some agree_def versions_def)
  have "8192 \<le> length (vf_data f)" "slot_of (vf_data f) s = Some bs" using assms(2) by (simp_all add: versions_def)
  moreover have "?a + 172 \<le> length (vf_data f)"
    using calculation(2) by (simp add: slot_of_def read_exact_at_Some)
  then have "agree ?a (?a + 172) c (vf_data f)"
    using crash_image_agree [OF assms(1)] v by blast
  ultimately show "slot_of c s = Some bs" using slot_agree [OF _ assms(3) len] by simp
qed

lemma slot_stale_cong:
  assumes "slot_of d (1 - pm_generation m mod 2) = slot_of d' (1 - pm_generation m mod 2)"
  shows "slot_stale E p d m = slot_stale E p d' m"
  using assms by (auto simp: slot_stale_def slot_holds_def Let_def)

lemma parity: "pm_generation m mod 2 = 0 \<or> pm_generation m mod 2 = 1"
  by presburger

lemma torn_crash:
  assumes "mk_torn E p mk m n" and "crash_image mk c" and "env_ok E"
    and "checksums_detect E (jb_journal_id (pm_boundary m)) (Some n) mk c"
  shows "\<exists>m'\<in>{m, n}. mk_ok E p (synced_file c) m'"
proof -
  let ?s = "1 - pm_generation m mod 2"
  have n: "follows p n m" using assms(1) by (simp add: mk_torn_def)
  then have "pm_generation n = pm_generation m + 1" by (simp add: follows_def)
  then have ns: "pm_generation n mod 2 = ?s" by presburger
  have "\<forall>v\<in>set (versions mk). 8192 \<le> length v \<and> slot_of v (pm_generation m mod 2) = Some (encode_publication_marker E m)"
    using assms(1) by (auto simp: mk_torn_def slot_holds_def)
  from crash_slot [OF assms(2) this] have len: "8192 \<le> length c"
    and sm: "slot_of c (pm_generation m mod 2) = Some (encode_publication_marker E m)" by auto
  have holds: "slot_holds E p c m" using assms(1) sm by (auto simp: mk_torn_def slot_holds_def versions_def)
  obtain bs where bs: "slot_of c ?s = Some bs" using slot_of_Some [OF len, of ?s] by auto
  show ?thesis
  proof (cases "bs = encode_publication_marker E n")
    case True
    then have hn: "slot_holds E p c n" using n bs ns by (simp add: slot_holds_def follows_def)
    have "1 - pm_generation n mod 2 = pm_generation m mod 2" using ns parity [of m] by linarith
    then have "slot_stale E p c n"
      unfolding slot_stale_def Let_def using holds n by (auto simp: follows_def)
    then show ?thesis using len hn by (simp add: mk_ok_def)
  next
    case False
    have "slot_stale E p c m"
    proof (cases "slot_valid E (jb_journal_id (pm_boundary m)) bs")
      case True
      have "?s \<in> {0, 1}" by auto
      then have "slot_of (last (versions mk)) ?s = Some bs"
        using assms(4) True False bs unfolding checksums_detect_def by blast
      then have "slot_stale E p c m = slot_stale E p (last (versions mk)) m"
        by (intro slot_stale_cong) (simp only: bs)
      then show ?thesis using assms(1) unfolding mk_torn_def by blast
    next
      case False
      then show ?thesis using bs by (simp add: slot_stale_def)
    qed
    then show ?thesis using len holds by (simp add: mk_ok_def)
  qed
qed

lemma mk_ok_crash: "mk_ok E p mk m \<Longrightarrow> crash_image mk c \<Longrightarrow> mk_ok E p (synced_file c) m"
  using crash_image_synced by (fastforce simp: mk_ok_def)

lemma mk_ok_read: "mk_ok E p (synced_file c) m \<Longrightarrow> env_ok E \<Longrightarrow>
    read_publication_marker E c (jb_journal_id (pm_boundary m)) p = Inr (durable m)"
  by (rule read_current_marker) (simp_all add: mk_ok_def)

section \<open>Writing a marker\<close>

lemma write_slot_other:
  assumes "8192 \<le> length d" and "length bs \<le> 172" and "s \<le> 1"
  shows "slot_of (write_at d bs (s * PUBLICATION_SLOT_SIZE)) (1 - s) = slot_of d (1 - s)"
proof (rule slot_agree)
  let ?n = PUBLICATION_SLOT_SIZE
  have "s = 0 \<or> s = 1" using assms(3) by linarith
  then show "agree ((1 - s) * ?n) ((1 - s) * ?n + 172) (write_at d bs (s * ?n)) d"
    using assms by (auto simp: PUBLICATION_SLOT_SIZE_def intro: agree_write_before agree_write_after)
qed (use assms in \<open>auto simp: PUBLICATION_SLOT_SIZE_def\<close>)

lemma write_slot_same:
  assumes "8192 \<le> length d" and "length bs = 172" and "s \<le> 1"
  shows "slot_of (write_at d bs (s * PUBLICATION_SLOT_SIZE)) s = Some bs"
  using read_written [of "s * PUBLICATION_SLOT_SIZE" d bs] assms
  by (cases "bs = []") (auto simp: slot_of_def PUBLICATION_SLOT_SIZE_def)

lemma write_marker_ok:
  assumes "mk_ok E p mk m" and "follows p n m" and "env_ok E"
    and "write_publication_marker E io k mk n = (f, r)"
  shows "case r of Inr _ \<Rightarrow> mk_ok E p f n | Inl _ \<Rightarrow> mk_torn E p f m n"
proof -
  let ?e = "encode_publication_marker E n" and ?off = "pm_generation n mod 2 * PUBLICATION_SLOT_SIZE"
  have le: "length ?e = 172" using assms(2,3) by (intro marker_encoding) (auto simp: follows_def)
  have sn: "pm_generation n mod 2 = 1 - pm_generation m mod 2" "1 - (1 - pm_generation m mod 2) = pm_generation m mod 2"
    using assms(2) parity [of m] unfolding follows_def by presburger+
  have len: "8192 \<le> length (vf_data mk)" using assms(1) by (simp add: mk_ok_def)
  have other: "slot_of (write_at (vf_data mk) bs ?off) (pm_generation m mod 2) = slot_of (vf_data mk) (pm_generation m mod 2)"
    if "length bs \<le> 172" for bs
    using write_slot_other [OF len that, of "pm_generation n mod 2"] sn by simp
  have holds: "slot_holds E p (write_at (vf_data mk) bs ?off) m" if "length bs \<le> 172" for bs
    using assms(1) other [OF that] by (simp add: mk_ok_def slot_holds_def)
  have wl: "8192 \<le> length (write_at (vf_data mk) bs ?off)" for bs using len by (auto simp: le_max_iff_disj)
  have torn: "mk_torn E p (put_data mk (write_at (vf_data mk) bs ?off)) m n" if "length bs \<le> 172" for bs
    using assms(1,2) holds [OF that] wl by (auto simp: mk_torn_def mk_ok_def put_data_def versions_def)
  show ?thesis
  proof (cases "io k")
    case (Some i)
    then have "f = put_data mk (write_at (vf_data mk) (take i ?e) ?off)" "\<exists>e. r = Inl e"
      using assms(4) by (auto simp: write_publication_marker_def vf_write_def)
    then show ?thesis using torn [of "take i ?e"] le by auto
  next
    case None
    show ?thesis
    proof (cases "io (k + 1)")
      case (Some i)
      then have "f = put_data mk (write_at (vf_data mk) ?e ?off)" "\<exists>e. r = Inl e"
        using assms(4) None by (auto simp: write_publication_marker_def vf_write_def vf_sync_def)
      then show ?thesis using torn [of ?e] le by auto
    next
      case N: None
      then have f: "f = synced_file (write_at (vf_data mk) ?e ?off)" "r = Inr ()"
        using assms(4) None by (auto simp: write_publication_marker_def vf_write_def vf_sync_def)
      have "slot_holds E p (vf_data f) n"
      proof -
        have "pm_generation n mod 2 \<le> 1" by simp
        from write_slot_same [OF len le this] show ?thesis
          using assms(2) unfolding slot_holds_def follows_def f(1) put_data_simps by blast
      qed
      moreover have "slot_stale E p (vf_data f) n"
        unfolding slot_stale_def Let_def
        using f holds [of ?e] le assms(2) sn by (auto simp: follows_def)
      ultimately show ?thesis using f wl by (simp add: mk_ok_def)
    qed
  qed
qed

section \<open>The journal, its publisher and its pruner as a transition system\<close>

text \<open>
  \<open>sy_pub\<close> is the publication in flight (it holds the marker lock) and whether its data flush
  is done; \<open>sy_pending\<close> the marker whose write failed; \<open>sy_prunes\<close> the prepared prunings.
\<close>

record 'h jsys =
  sy_j :: "'h ForestJournal"
  sy_pub :: "(JournalBoundary \<times> bool) option"
  sy_pending :: "PublicationMarker option"
  sy_prunes :: "JournalPrune list"

definition fresh_sys :: "'h ForestJournal \<Rightarrow> 'h jsys" where
  "fresh_sys j = \<lparr>sy_j = j, sy_pub = None, sy_pending = None, sy_prunes = []\<rparr>"

text \<open>A boundary the journal has issued in the current epoch for a record it still holds.\<close>

definition issued :: "'h ForestJournal \<Rightarrow> JournalBoundary \<Rightarrow> bool" where
  "issued j b \<longleftrightarrow> (\<exists>r\<in>set (fj_records j). b = record_boundary r (fj_journal_id j) (fj_epoch j))"

definition poisoned :: "'h ForestJournal \<Rightarrow> 'h ForestJournal" where
  "poisoned j = j\<lparr>fj_poisoned := True\<rparr>"

definition advanced :: "PublicationMarker \<Rightarrow> nat \<Rightarrow> PublicationMarker" where
  "advanced m replay_start = m\<lparr>pm_generation := pm_generation m + 1, pm_replay_start := replay_start\<rparr>"

inductive journal_step :: "'h journal_env \<Rightarrow> 'h jsys \<Rightarrow> 'h jsys \<Rightarrow> bool" for E :: "'h journal_env" where
  append: "wf_entry e \<Longrightarrow> wf_proof pf \<Longrightarrow>
    journal_step E s (s\<lparr>sy_j := fst (append_block E io (sy_j s) e h pf rows)\<rparr>)"
| begin_publish: "sy_pub s = None \<Longrightarrow> issued (sy_j s) b \<Longrightarrow> publish_check E (sy_j s) b = Inr False \<Longrightarrow>
    journal_step E s (s\<lparr>sy_pub := Some (b, False)\<rparr>)"
| flush_ok: "sy_pub s = Some (b, False) \<Longrightarrow> publish_flush io (sy_j s) = (j, Inr ()) \<Longrightarrow>
    journal_step E s (s\<lparr>sy_j := j, sy_pub := Some (b, True)\<rparr>)"
| flush_fail: "sy_pub s = Some (b, False) \<Longrightarrow> publish_flush io (sy_j s) = (j, Inl err) \<Longrightarrow>
    journal_step E s (s\<lparr>sy_j := poisoned j, sy_pub := None\<rparr>)"
| mark_ok: "sy_pub s = Some (b, True) \<Longrightarrow> publish_mark E io (sy_j s) b = (j, Inr ()) \<Longrightarrow>
    journal_step E s (s\<lparr>sy_j := j, sy_pub := None\<rparr>)"
| mark_fail: "sy_pub s = Some (b, True) \<Longrightarrow> publish_mark E io (sy_j s) b = (j, Inl err) \<Longrightarrow>
    journal_step E s (s\<lparr>sy_j := poisoned j, sy_pub := None,
      sy_pending := if pm_generation (fj_marker (sy_j s)) + 1 < 2 ^ 64 then Some (next_marker (sy_j s) b) else None\<rparr>)"
| discard: "sy_pub s = None \<Longrightarrow> journal_step E s (s\<lparr>sy_j := fst (discard_unpublished io (sy_j s))\<rparr>)"
| roll_back: "journal_step E s (s\<lparr>sy_j := fst (mark_rolled_back io (sy_j s) i)\<rparr>)"
| prepare: "prepare_prune (sy_j s) keep = (j, r) \<Longrightarrow>
    journal_step E s (s\<lparr>sy_j := j, sy_prunes := (case r of Inr (Some q) \<Rightarrow> q # sy_prunes s | _ \<Rightarrow> sy_prunes s)\<rparr>)"
| finish: "sy_pub s = None \<Longrightarrow> q \<in> set (sy_prunes s) \<Longrightarrow> prune_finish E io (sy_j s) q = (j, r) \<Longrightarrow>
    journal_step E s (s\<lparr>sy_j := j, sy_pending :=
      if fj_poisoned j \<and> \<not> fj_poisoned (sy_j s) then Some (advanced (fj_marker j) (pr_replay_start q)) else sy_pending s\<rparr>)"
| crash: "crash_image (fj_wal (sy_j s)) w \<Longrightarrow> crash_image (fj_mk (sy_j s)) c \<Longrightarrow>
    checksums_detect E (fj_journal_id (sy_j s)) (sy_pending s) (fj_mk (sy_j s)) c \<Longrightarrow>
    ForestJournal_open E sysconf fresh (crashed_dir dir w c) = Inr (dir', j) \<Longrightarrow>
    journal_step E s (fresh_sys j)"

section \<open>The invariant\<close>

definition wal_recovers :: "'h journal_env \<Rightarrow> nat \<Rightarrow> bytes \<Rightarrow> vfile \<Rightarrow> PublicationMarker \<Rightarrow> bool" where
  "wal_recovers E p journal_id f m \<longleftrightarrow>
     (\<forall>w. crash_image f w \<longrightarrow>
        read_superblock E w = Inr (p, journal_id) \<and> p \<le> length w \<and> jb_end (pm_boundary m) \<le> length w \<and>
        (\<exists>L. published_in E p w m L \<and> (\<exists>v\<in>set (versions f). published_in E p v m L)))"

definition super_ok :: "'h journal_env \<Rightarrow> nat \<Rightarrow> bytes \<Rightarrow> vfile \<Rightarrow> bool" where
  "super_ok E p journal_id f \<longleftrightarrow>
     keeps 0 p (vf_data f) f \<and> read_superblock E (vf_data f) = Inr (p, journal_id)"

definition base :: "'h journal_env \<Rightarrow> nat \<Rightarrow> bytes \<Rightarrow> 'h jsys \<Rightarrow> bool" where
  "base E p journal_id s \<longleftrightarrow>
     env_ok E \<and> page_ok p \<and> length journal_id = 32 \<and>
     fj_page_size (sy_j s) = p \<and> fj_journal_id (sy_j s) = journal_id \<and>
     jb_journal_id (pm_boundary (fj_marker (sy_j s))) = journal_id"

text \<open>No further operation has an effect: the journal has to be reopened.\<close>

definition dead :: "'h journal_env \<Rightarrow> nat \<Rightarrow> bytes \<Rightarrow> 'h jsys \<Rightarrow> bool" where
  "dead E p journal_id s \<longleftrightarrow>
     fj_poisoned (sy_j s) \<and> sy_pub s = None \<and>
     wal_recovers E p journal_id (fj_wal (sy_j s)) (fj_marker (sy_j s)) \<and>
     (case sy_pending s of
        None \<Rightarrow> mk_ok E p (fj_mk (sy_j s)) (fj_marker (sy_j s))
      | Some n \<Rightarrow> mk_torn E p (fj_mk (sy_j s)) (fj_marker (sy_j s)) n \<and>
          wal_recovers E p journal_id (fj_wal (sy_j s)) n)"

text \<open>\<open>L\<close> is the published records on disk, \<open>T\<close> the unpublished ones, \<open>old\<close> those that have been
  handed to a pruning.\<close>

definition live_wal ::
  "'h journal_env \<Rightarrow> nat \<Rightarrow> bytes \<Rightarrow> 'h ForestJournal \<Rightarrow> 'h JournalRecord list \<Rightarrow> 'h JournalRecord list \<Rightarrow>
   'h JournalRecord list \<Rightarrow> bool" where
  "live_wal E p journal_id j L T old \<longleftrightarrow>
     super_ok E p journal_id (fj_wal j) \<and>
     published_in E p (vf_data (fj_wal j)) (fj_marker j) L \<and>
     fj_published_end j = jb_end (pm_boundary (fj_marker j)) \<and>
     chain (fj_published_end j) T (fj_appended_end j) \<and> (\<forall>r\<in>set T. stored E p (vf_data (fj_wal j)) r) \<and>
     L @ T = old @ fj_records j \<and> (old = [] \<or> length old < length L) \<and>
     keeps (pm_replay_start (fj_marker j)) (fj_published_end j) (vf_data (fj_wal j)) (fj_wal j) \<and>
     p \<le> fj_published_end j \<and>
     fj_appended_end j \<le> length (vf_data (fj_wal j)) \<and>
     (\<not> fj_poisoned j \<longrightarrow> length (vf_data (fj_wal j)) = fj_appended_end j)"

lemma live_walD:
  assumes "live_wal E p journal_id j L T old"
  shows "super_ok E p journal_id (fj_wal j)"
    and "published_in E p (vf_data (fj_wal j)) (fj_marker j) L"
    and "fj_published_end j = jb_end (pm_boundary (fj_marker j))"
    and "chain (fj_published_end j) T (fj_appended_end j)"
    and "chain (jb_end (pm_boundary (fj_marker j))) T (fj_appended_end j)"
    and "\<And>r. r \<in> set T \<Longrightarrow> stored E p (vf_data (fj_wal j)) r"
    and "L @ T = old @ fj_records j" and "old = [] \<or> length old < length L"
    and "keeps (pm_replay_start (fj_marker j)) (fj_published_end j) (vf_data (fj_wal j)) (fj_wal j)"
    and "p \<le> fj_published_end j" and "fj_appended_end j \<le> length (vf_data (fj_wal j))"
    and "\<not> fj_poisoned j \<Longrightarrow> length (vf_data (fj_wal j)) = fj_appended_end j"
    and "chain (pm_replay_start (fj_marker j)) L (fj_published_end j)"
    and "\<And>r. r \<in> set L \<Longrightarrow> stored E p (vf_data (fj_wal j)) r"
  using assms unfolding live_wal_def published_in_def by metis+

definition live_pub :: "'h jsys \<Rightarrow> 'h JournalRecord list \<Rightarrow> bool" where
  "live_pub s T \<longleftrightarrow>
     (\<forall>b fl. sy_pub s = Some (b, fl) \<longrightarrow>
        (\<exists>r\<in>set T. b = record_boundary r (fj_journal_id (sy_j s)) (fj_epoch (sy_j s))) \<and>
        (fl \<longrightarrow> keeps (pm_replay_start (fj_marker (sy_j s))) (jb_end b) (vf_data (fj_wal (sy_j s))) (fj_wal (sy_j s))))"

definition live_prunes :: "'h jsys \<Rightarrow> 'h JournalRecord list \<Rightarrow> 'h JournalRecord list \<Rightarrow> bool" where
  "live_prunes s L old \<longleftrightarrow>
     (\<forall>q\<in>set (sy_prunes s). pr_replay_start q \<le> pm_replay_start (fj_marker (sy_j s)) \<or>
        (\<exists>k\<le>length old. k < length L \<and> jr_offset (L ! k) = pr_replay_start q))"

definition live :: "'h journal_env \<Rightarrow> nat \<Rightarrow> bytes \<Rightarrow> 'h jsys \<Rightarrow> bool" where
  "live E p journal_id s \<longleftrightarrow>
     sy_pending s = None \<and> mk_ok E p (fj_mk (sy_j s)) (fj_marker (sy_j s)) \<and>
     (\<exists>L T old. live_wal E p journal_id (sy_j s) L T old \<and> live_pub s T \<and> live_prunes s L old)"

lemma liveI:
  "live_wal E p journal_id (sy_j s) L T old \<Longrightarrow> live_prunes s L old \<Longrightarrow> live_pub s T \<Longrightarrow> sy_pending s = None \<Longrightarrow>
   mk_ok E p (fj_mk (sy_j s)) (fj_marker (sy_j s)) \<Longrightarrow> live E p journal_id s"
  unfolding live_def by blast

definition journal_inv :: "'h journal_env \<Rightarrow> nat \<Rightarrow> bytes \<Rightarrow> 'h jsys \<Rightarrow> bool" where
  "journal_inv E p journal_id s \<longleftrightarrow> base E p journal_id s \<and> (live E p journal_id s \<or> dead E p journal_id s)"

section \<open>Recovery\<close>

lemma superblock_agree:
  assumes "read_superblock E d = Inr x" and "agree 0 p d d'" and "96 \<le> p"
  shows "read_superblock E d' = Inr x"
proof -
  obtain bs where bs: "read_exact_at d 96 0 = Some bs" using assms(1) by (auto simp: read_superblock_def)
  then have "read_exact_at d' 96 0 = Some bs"
    using read_exact_at_agree [OF assms(2), of 0 96] assms(3) by simp
  with bs show ?thesis using assms(1) by (simp add: read_superblock_def)
qed

lemma keeps_published:
  assumes "published_in E p (vf_data f) m L" and "keeps (pm_replay_start m) (jb_end (pm_boundary m)) (vf_data f) f"
    and "super_ok E p journal_id f" and "page_ok p"
  shows "wal_recovers E p journal_id f m"
  unfolding wal_recovers_def
proof (intro allI impI)
  fix w assume c: "crash_image f w"
  have p: "96 \<le> p" using assms(4) by (simp add: page_ok_def)
  have s: "p \<le> length w" "agree 0 p w (vf_data f)"
    using keeps_crash [OF _ c] assms(3) by (auto simp: super_ok_def)
  have e: "jb_end (pm_boundary m) \<le> length w" "agree (pm_replay_start m) (jb_end (pm_boundary m)) w (vf_data f)"
    using keeps_crash [OF assms(2) c] by auto
  have "read_superblock E w = Inr (p, journal_id)"
    using superblock_agree [OF _ agree_sym [OF s(2)] p] assms(3) unfolding super_ok_def by blast
  moreover have "published_in E p w m L" by (rule published_in_agree [OF assms(1) agree_sym [OF e(2)]])
  ultimately show "read_superblock E w = Inr (p, journal_id) \<and> p \<le> length w \<and> jb_end (pm_boundary m) \<le> length w \<and>
      (\<exists>L. published_in E p w m L \<and> (\<exists>v\<in>set (versions f). published_in E p v m L))"
    using s(1) e(1) assms(1) vf_data_version by blast
qed

lemma live_recovers:
  assumes "live_wal E p journal_id j L T old" and "page_ok p"
  shows "wal_recovers E p journal_id (fj_wal j) (fj_marker j)"
  using assms keeps_published [of E p "fj_wal j" "fj_marker j" L journal_id] unfolding live_wal_def by argo

lemma reopened_live:
  assumes "mk_ok E p (synced_file c) m" and "published_in E p w m L" and "read_superblock E w = Inr (p, journal_id)"
    and "jb_end (pm_boundary m) \<le> length w" and "env_ok E" and "page_ok p" and "length journal_id = 32"
    and "jb_journal_id (pm_boundary m) = journal_id"
  shows "journal_inv E p journal_id (fresh_sys (reopened p journal_id w c m L dirty))"
proof -
  let ?e = "jb_end (pm_boundary m)" and ?j = "reopened p journal_id w c m L dirty"
  have shape: "p \<le> ?e" "p \<le> pm_replay_start m" using assms(1) by (auto simp: mk_ok_def slot_holds_def marker_shape_def)
  have vs: "b \<le> ?e \<Longrightarrow> keeps a b (vf_data (fj_wal ?j)) (fj_wal ?j) \<and> agree a b (vf_data (fj_wal ?j)) w" for a b
    using assms(4) agree_set_len [of b ?e w a]
    by (auto simp: reopened_def Let_def keeps_def versions_def put_data_def synced_file_def intro: agree_sym)
  have "super_ok E p journal_id (fj_wal ?j)"
    using vs [of p 0] shape superblock_agree [OF assms(3), of p] assms(6) agree_sym
    by (auto simp: super_ok_def page_ok_def)
  moreover have "published_in E p (vf_data (fj_wal ?j)) m L"
    using published_in_agree [OF assms(2)] vs [of ?e "pm_replay_start m"] agree_sym by blast
  ultimately have "live_wal E p journal_id ?j L [] []"
    using vs [of ?e "pm_replay_start m"] shape assms(4)
    by (simp add: live_wal_def) (simp add: reopened_def Let_def)
  moreover have "mk_ok E p (fj_mk ?j) (fj_marker ?j)"
    using assms(1) by (simp add: reopened_def Let_def mk_ok_def)
  ultimately show ?thesis
    using assms(5-8) unfolding journal_inv_def base_def live_def
    by (auto simp: fresh_sys_def live_pub_def live_prunes_def) (simp_all add: reopened_def Let_def)
qed

lemma inv_recovers:
  assumes inv: "journal_inv E p journal_id s" and "crash_image (fj_wal (sy_j s)) w"
    and "crash_image (fj_mk (sy_j s)) c"
    and "checksums_detect E journal_id (sy_pending s) (fj_mk (sy_j s)) c"
  shows "\<exists>m L. (m = fj_marker (sy_j s) \<or> sy_pending s = Some m) \<and>
    (\<exists>v\<in>set (versions (fj_wal (sy_j s))). published_in E p v m L) \<and> published_in E p w m L \<and>
    (\<exists>dir'. ForestJournal_open E sysconf fresh (crashed_dir dir w c) =
       Inr (dir', reopened p journal_id w c m L (\<not> snd (take_clean_shutdown_marker dir)))) \<and>
    journal_inv E p journal_id (fresh_sys (reopened p journal_id w c m L (\<not> snd (take_clean_shutdown_marker dir))))"
proof -
  let ?j = "sy_j s"
  have base: "env_ok E" "page_ok p" "length journal_id = 32" "jb_journal_id (pm_boundary (fj_marker ?j)) = journal_id"
    using inv by (auto simp: journal_inv_def base_def)
  obtain m where m: "m = fj_marker ?j \<or> sy_pending s = Some m" "mk_ok E p (synced_file c) m"
    "wal_recovers E p journal_id (fj_wal ?j) m" "jb_journal_id (pm_boundary m) = journal_id"
  proof (cases "sy_pending s")
    case None
    then have "mk_ok E p (fj_mk ?j) (fj_marker ?j) \<and> wal_recovers E p journal_id (fj_wal ?j) (fj_marker ?j)"
      using inv live_recovers [OF _ base(2)] by (fastforce simp: journal_inv_def live_def dead_def)
    then show ?thesis using that [of "fj_marker ?j"] mk_ok_crash [OF _ assms(3)] base by blast
  next
    case (Some n)
    then have d: "mk_torn E p (fj_mk ?j) (fj_marker ?j) n" "wal_recovers E p journal_id (fj_wal ?j) n"
      "wal_recovers E p journal_id (fj_wal ?j) (fj_marker ?j)"
      using inv by (auto simp: journal_inv_def live_def dead_def)
    then have "jb_journal_id (pm_boundary n) = journal_id" using base by (simp add: mk_torn_def follows_def)
    then show ?thesis
      using torn_crash [OF d(1) assms(3) base(1)] assms(4) base(4) Some d that by auto
  qed
  obtain L where L: "read_superblock E w = Inr (p, journal_id)" "jb_end (pm_boundary m) \<le> length w"
    "published_in E p w m L" "\<exists>v\<in>set (versions (fj_wal ?j)). published_in E p v m L"
    using m(3) assms(2) unfolding wal_recovers_def by blast
  have "read_publication_marker E c journal_id p = Inr (durable m)"
    using mk_ok_read [OF m(2) base(1)] m(4) by simp
  note opens = open_crashed [OF base(1) L(1) this L(3,2)]
  show ?thesis
    by (rule exI [of _ m], rule exI [of _ L], intro conjI)
      (rule m(1) L(4) L(3) opens reopened_live [OF m(2) L(3,1,2) base(1-3) m(4)])+
qed

section \<open>A poisoned journal refuses every operation\<close>

lemma poisoned_refuses:
  assumes "fj_poisoned j"
  shows "fst (append_block E io j e h pf rows) = j" "fst (discard_unpublished io j) = j"
    "fst (mark_rolled_back io j i) = j" "\<exists>err. prepare_prune j keep = (j, Inl err)"
    "\<exists>err. prune_finish E io j q = (j, Inl err)" "\<exists>err. publish_check E j b = Inl err"
  using assms
  by (auto simp: append_block_def append_payload_def discard_unpublished_def mark_rolled_back_def
      prepare_prune_def prune_finish_def publish_check_def Let_def split: sum.splits)

section \<open>Appending preserves the invariant\<close>

text \<open>The current contents keep the range \<open>[a, b)\<close> of \<open>d\<close>.\<close>

definition has_range :: "nat \<Rightarrow> nat \<Rightarrow> bytes \<Rightarrow> vfile \<Rightarrow> bool" where
  "has_range a b d f \<longleftrightarrow> b \<le> length (vf_data f) \<and> agree a b (vf_data f) d"

lemma has_range_write: "has_range a b d f \<Longrightarrow> b \<le> off \<Longrightarrow> has_range a b d (fst (vf_write io k f bs off))"
  by (auto simp: has_range_def vf_write_def split: option.splits intro: agree_trans [OF agree_write_before])

lemma has_range_set_len: "has_range a b d f \<Longrightarrow> b \<le> n \<Longrightarrow> has_range a b d (fst (vf_set_len io k f n))"
  by (auto simp: has_range_def vf_set_len_def split: option.splits intro: agree_trans [OF agree_set_len])

lemma has_range_bind:
  assumes "has_range a b d (fst m)" and "\<And>f x. has_range a b d f \<Longrightarrow> has_range a b d (fst (k f x))"
  shows "has_range a b d (fst (bind_s m k))"
  using assms by (cases m; cases "snd m") auto

lemma write_record_has_range:
  "has_range a b d f \<Longrightarrow> b \<le> offset \<Longrightarrow>
   has_range a b d (fst (write_record E io f p offset entry replay payload version))"
  by (auto simp: write_record_def Let_def split: option.splits
      intro!: has_range_write has_range_set_len has_range_bind)

lemma keeps_rebase:
  "keeps a b d f \<Longrightarrow> has_range a b d f \<Longrightarrow> keeps a b (vf_data f) f"
  unfolding keeps_def has_range_def using agree_trans agree_sym by blast

lemma has_range_self: "b \<le> length (vf_data f) \<Longrightarrow> has_range a b (vf_data f) f"
  by (simp add: has_range_def)

lemma super_ok_range:
  assumes "super_ok E p journal_id f" and "keeps 0 p (vf_data f) g" and "has_range 0 p (vf_data f) g" and "96 \<le> p"
  shows "super_ok E p journal_id g"
proof -
  have "agree 0 p (vf_data f) (vf_data g)" using assms(3) by (simp add: has_range_def agree_sym)
  from superblock_agree [OF _ this assms(4)] keeps_rebase [OF assms(2,3)] assms(1) show ?thesis
    unfolding super_ok_def by blast
qed

text \<open>The file changes only past \<open>e\<close>.\<close>

definition tail_write :: "nat \<Rightarrow> vfile \<Rightarrow> vfile \<Rightarrow> bool" where
  "tail_write e f g \<longleftrightarrow>
     (\<forall>a b. b \<le> e \<longrightarrow> b \<le> length (vf_data f) \<longrightarrow> has_range a b (vf_data f) g) \<and>
     (\<forall>a b ref. b \<le> e \<longrightarrow> keeps a b ref f \<longrightarrow> keeps a b ref g)"

lemma stored_tail_write:
  assumes "stored E p (vf_data f) r" and "tail_write e f g" and "jr_offset r + jr_span r \<le> e" and "e \<le> length (vf_data f)"
  shows "stored E p (vf_data g) r"
proof -
  have "has_range 0 e (vf_data f) g" using assms(2,4) by (auto simp: tail_write_def)
  then have "agree 0 e (vf_data f) (vf_data g)" by (simp add: has_range_def agree_sym)
  from stored_agree [OF assms(1) this _ assms(3)] show ?thesis by simp
qed

lemma keeps_tail_write:
  assumes "keeps a b (vf_data f) f" and "tail_write e f g" and "b \<le> e"
  shows "keeps a b (vf_data g) g"
proof -
  have "b \<le> length (vf_data f)" using assms(1) by (simp add: keeps_def)
  then show ?thesis using assms by (intro keeps_rebase [of a b "vf_data f"]) (auto simp: tail_write_def)
qed

lemma live_wal_tail_write:
  assumes live: "live_wal E p journal_id j L T old" and t: "tail_write (fj_appended_end j) (fj_wal j) g"
    and "page_ok p" and "fj_appended_end j \<le> length (vf_data g)"
    and "q \<or> length (vf_data g) = fj_appended_end j"
  shows "live_wal E p journal_id (j\<lparr>fj_wal := g, fj_poisoned := q\<rparr>) L T old"
proof -
  let ?e = "fj_appended_end j" and ?f = "fj_wal j"
  note l = live [unfolded live_wal_def]
  have pe: "fj_published_end j \<le> ?e" using l chain_le by blast
  have le: "?e \<le> length (vf_data ?f)" using l by blast
  have p: "96 \<le> p" "p \<le> ?e" using l pe assms(3) by (auto simp: page_ok_def)
  have "super_ok E p journal_id g"
    by (rule super_ok_range [of _ _ _ ?f]) (use l t p le in \<open>auto simp: tail_write_def super_ok_def\<close>)
  moreover have "agree (pm_replay_start (fj_marker j)) (fj_published_end j) (vf_data ?f) (vf_data g)"
    using t pe le by (simp add: tail_write_def has_range_def agree_sym)
  then have "published_in E p (vf_data g) (fj_marker j) L"
    using published_in_agree l by metis
  moreover have "\<forall>r\<in>set T. stored E p (vf_data g) r"
  proof
    fix r assume "r \<in> set T"
    then show "stored E p (vf_data g) r"
      using stored_tail_write [OF _ t _ le] chain_bounds l by blast
  qed
  moreover have "keeps (pm_replay_start (fj_marker j)) (fj_published_end j) (vf_data g) g"
    using keeps_tail_write [OF _ t pe] l by blast
  ultimately show ?thesis using l assms(4,5) by (auto simp: live_wal_def)
qed

lemma tail_write_refl: "tail_write e f f"
  by (simp add: tail_write_def has_range_def)

lemma tail_write_record:
  "e \<le> offset \<Longrightarrow> tail_write e f (fst (write_record E io f p offset entry replay payload version))"
  unfolding tail_write_def
  by (auto intro!: write_record_keeps write_record_has_range has_range_self)

lemma tail_write_set_len:
  "e \<le> n \<Longrightarrow> tail_write e f g \<Longrightarrow> tail_write e f (fst (vf_set_len io k g n))"
  unfolding tail_write_def by (auto intro!: keeps_set_len has_range_set_len)

lemma replay_payload_decodes:
  assumes "replay_payload E e rp = Inr w" and "env_ok E" and "wf_entry e" and "wf_proof (rp_proof rp)"
    and "je_forest_rows e \<noteq> None" and "rp_proof_forest_rows rp \<le> 63" and "header_matches E (rp_header rp) e"
  shows "decode_payload E RECORD_VERSION w = Inr (e, Some rp)"
proof -
  obtain bs where bs: "encode_entry e = Inr bs" "length bs < 2 ^ 32"
    and w: "w = le_bytes 4 (of_nat (length bs) :: u32) @ bs @ h_enc (e_hdr E) (rp_header rp) @
            [rp_proof_forest_rows rp] @ fst (CompactBlockProof_encode (e_cons E) (rp_proof rp))"
    using assms(1) by (auto simp: replay_payload_def)
  have "unat (of_nat (length bs) :: u32) = length bs" using bs(2) by (simp add: unat_of_nat_small)
  moreover have "h_dec (e_hdr E) (h_enc (e_hdr E) h @ r) = Inr (h, r)" for h r
    using assms(2) codec.dec_enc by (fastforce simp: env_ok_def header_ok_def)
  moreover have "CompactBlockProof_decode (e_cons E) (fst (CompactBlockProof_encode (e_cons E) (rp_proof rp)) @ r)
      = Inr (rp_proof rp, r)" for r
    using assms(2,4) codec.dec_enc [OF compact_proof_codec] by (simp add: env_ok_def)
  from this [of "[]"] have "CompactBlockProof_decode (e_cons E) (fst (CompactBlockProof_encode (e_cons E) (rp_proof rp)))
      = Inr (rp_proof rp, [])" by simp
  ultimately show ?thesis
    using assms(3,5-7) decode_encode_entry [OF assms(3) bs(1)]
    by (simp add: decode_payload_def w RECORD_VERSION_def LEGACY_RECORD_VERSION_def take_array_def)
qed

text \<open>The parts of the journal's state that the publication and the prunings refer to.\<close>

definition same_ids :: "'h ForestJournal \<Rightarrow> 'h ForestJournal \<Rightarrow> bool" where
  "same_ids j j' \<longleftrightarrow> fj_page_size j' = fj_page_size j \<and> fj_journal_id j' = fj_journal_id j \<and>
     fj_epoch j' = fj_epoch j \<and> fj_marker j' = fj_marker j \<and> fj_mk j' = fj_mk j"

lemma live_pub_tail_write:
  assumes "live_pub s T" and "tail_write e (fj_wal (sy_j s)) (fj_wal j)" and "same_ids (sy_j s) j"
    and "\<And>b fl. sy_pub s = Some (b, fl) \<Longrightarrow> jb_end b \<le> e" and "set T \<subseteq> set T'"
  shows "live_pub (s\<lparr>sy_j := j\<rparr>) T'"
  using assms keeps_tail_write [OF _ assms(2)] unfolding live_pub_def same_ids_def
  by (simp add: subset_iff) blast

lemma pub_end_le:
  assumes "live_pub s T" and "chain a T e" and "sy_pub s = Some (b, fl)"
  shows "a < jb_end b \<and> jb_end b \<le> e"
proof -
  obtain r where r: "r \<in> set T" "b = record_boundary r (fj_journal_id (sy_j s)) (fj_epoch (sy_j s))"
    using assms(1,3) by (auto simp: live_pub_def)
  have "0 < jr_span r" by (rule chain_span [OF assms(2) r(1)])
  then show ?thesis using chain_bounds [OF assms(2) r(1)] r(2) by (simp add: record_boundary_def)
qed

lemma append_payload_live:
  fixes io :: faults
  assumes live: "live_wal E p journal_id j L T old" and "env_ok E" and "page_ok p" and "fj_page_size j = p"
    and dec: "decode_payload E v w = Inr (e, rp)" and "valid_version v"
  defines "j' \<equiv> fst (append_payload E io j e rp w v)"
  shows "\<exists>T'. live_wal E p journal_id j' L T' old \<and> set T \<subseteq> set T' \<and> same_ids j j' \<and>
    tail_write (fj_appended_end j) (fj_wal j) (fj_wal j')"
proof (cases "fj_poisoned j")
  case True
  then show ?thesis using live by (auto simp: j'_def append_payload_def same_ids_def tail_write_refl)
next
  case np: False
  note l = live [unfolded live_wal_def]
  let ?e = "fj_appended_end j"
  obtain g r where w: "write_record E io (fj_wal j) p ?e e rp w v = (g, r)" by (metis surj_pair)
  have tw: "tail_write ?e (fj_wal j) g" using tail_write_record [of ?e ?e "fj_wal j" E io p e rp w v] w by simp
  have le: "?e \<le> length (vf_data (fj_wal j))" using l by blast
  then have lg: "?e \<le> length (vf_data g)" using tw by (auto simp: tail_write_def has_range_def)
  show ?thesis
  proof (cases r)
    case (Inl err)
    obtain h u where h: "vf_set_len io 4 g ?e = (h, u)" by (metis surj_pair)
    have th: "tail_write ?e (fj_wal j) h" using tail_write_set_len [OF order_refl tw, of io 4] h by simp
    have lh: "?e \<le> length (vf_data h)" "\<not> isl u \<Longrightarrow> length (vf_data h) = ?e"
      using h lg by (auto simp: vf_set_len_def split: option.splits)
    have "j' = j\<lparr>fj_wal := h, fj_poisoned := isl u\<rparr>"
      using np w Inl h assms(4) unfolding j'_def append_payload_def by (auto simp: Let_def split: sum.splits)
    then show ?thesis using live_wal_tail_write [OF live th assms(3) lh(1)] lh(2) th
      by (auto simp: same_ids_def)
  next
    case (Inr rec)
    note s = write_record_stored [OF w [unfolded Inr] assms(2,6) dec le]
    have g: "live_wal E p journal_id (j\<lparr>fj_wal := g, fj_poisoned := True\<rparr>) L T old"
      by (rule live_wal_tail_write [OF live tw assms(3) lg]) simp
    have j': "j' = j\<lparr>fj_wal := g, fj_records := fj_records j @ [rec],
        fj_appended_end := ?e + jr_span rec, fj_needs_replay := True\<rparr>"
      using np w Inr assms(4) s(2) unfolding j'_def append_payload_def by (simp add: Let_def)
    have "live_wal E p journal_id j' L (T @ [rec]) old"
      using g s unfolding live_wal_def j' by (auto simp: chain_append)
    then show ?thesis using tw unfolding j' same_ids_def by (intro exI [of _ "T @ [rec]"]) auto
  qed
qed

lemma fst_bind_s_pure: "fst (bind_s m (\<lambda>j x. (j, Inr (f j x)))) = fst m"
  by (cases m; cases "snd m") auto

lemma append_block_state:
  "fst (append_block E io j e h pf rows) =
     (if je_forest_rows e = None \<or> rows > 63 \<or> \<not> header_matches E h e then j
      else case replay_payload E e \<lparr>rp_header = h, rp_proof = pf, rp_proof_forest_rows = rows\<rparr> of
        Inl _ \<Rightarrow> j
      | Inr w \<Rightarrow> fst (append_payload E io j e
          (Some \<lparr>rp_header = h, rp_proof = pf, rp_proof_forest_rows = rows\<rparr>) w RECORD_VERSION))"
  by (auto simp: append_block_def Let_def fst_bind_s_pure split: sum.splits)

lemma append_inv:
  assumes "journal_inv E p journal_id s" and "wf_entry e" and "wf_proof pf"
  shows "journal_inv E p journal_id (s\<lparr>sy_j := fst (append_block E io (sy_j s) e h pf rows)\<rparr>)"
proof -
  let ?j = "sy_j s" and ?rp = "\<lparr>rp_header = h, rp_proof = pf, rp_proof_forest_rows = rows\<rparr>"
  have b: "base E p journal_id s" using assms(1) by (simp add: journal_inv_def)
  consider "fst (append_block E io ?j e h pf rows) = ?j"
    | w where "replay_payload E e ?rp = Inr w" "je_forest_rows e \<noteq> None" "rows \<le> 63" "header_matches E h e"
        "fst (append_block E io ?j e h pf rows) = fst (append_payload E io ?j e (Some ?rp) w RECORD_VERSION)"
    using append_block_state [of E io ?j e h pf rows] by (auto simp: not_less split: if_splits sum.splits)
  then show ?thesis
  proof cases
    case 1
    then show ?thesis using assms(1) by simp
  next
    case 2
    show ?thesis
    proof (cases "fj_poisoned ?j \<or> \<not> live E p journal_id s")
      case True
      then have "fj_poisoned ?j" using assms(1) by (auto simp: journal_inv_def dead_def)
      then show ?thesis using assms(1) by (simp add: poisoned_refuses(1))
    next
      case False
      then obtain L T old where l: "live_wal E p journal_id ?j L T old" "live_pub s T" "live_prunes s L old"
        "sy_pending s = None" "mk_ok E p (fj_mk ?j) (fj_marker ?j)" by (auto simp: live_def)
      let ?j' = "fst (append_payload E io ?j e (Some ?rp) w RECORD_VERSION)"
      have dec: "decode_payload E RECORD_VERSION w = Inr (e, Some ?rp)"
        using replay_payload_decodes [OF 2(1)] 2 assms(2,3) b by (simp add: base_def)
      obtain T' where T': "live_wal E p journal_id ?j' L T' old" "set T \<subseteq> set T'" "same_ids ?j ?j'"
        "tail_write (fj_appended_end ?j) (fj_wal ?j) (fj_wal ?j')"
        using append_payload_live [OF l(1) _ _ _ dec, of io] b by (auto simp: base_def valid_version_def)
      have "chain (fj_published_end ?j) T (fj_appended_end ?j)" by (rule live_walD(4) [OF l(1)])
      then have "live_pub (s\<lparr>sy_j := ?j'\<rparr>) T'"
        using live_pub_tail_write [OF l(2) T'(4,3) _ T'(2)] pub_end_le [OF l(2)] by blast
      moreover have "live_prunes (s\<lparr>sy_j := ?j'\<rparr>) L old" using l(3) T'(3) by (simp add: live_prunes_def same_ids_def)
      ultimately have "live E p journal_id (s\<lparr>sy_j := ?j'\<rparr>)"
        using T'(1,3) l(4,5) unfolding live_def by (auto simp: same_ids_def)
      then show ?thesis using b T'(3) 2(5) by (simp add: journal_inv_def base_def same_ids_def)
    qed
  qed
qed

section \<open>Publishing preserves the invariant\<close>

lemma begin_inv:
  assumes "journal_inv E p journal_id s" and "sy_pub s = None" and "issued (sy_j s) b"
    and "publish_check E (sy_j s) b = Inr False"
  shows "journal_inv E p journal_id (s\<lparr>sy_pub := Some (b, False)\<rparr>)"
proof -
  let ?j = "sy_j s"
  have np: "\<not> fj_poisoned ?j" using assms(4) poisoned_refuses(6) [of ?j E b] by auto
  then obtain L T old where l: "live_wal E p journal_id ?j L T old" "live_prunes s L old"
    "sy_pending s = None" "mk_ok E p (fj_mk ?j) (fj_marker ?j)"
    using assms(1) by (auto simp: journal_inv_def dead_def live_def)
  obtain r where r: "r \<in> set (fj_records ?j)" "b = record_boundary r (fj_journal_id ?j) (fj_epoch ?j)"
    using assms(3) by (auto simp: issued_def)
  have "jb_end (pm_boundary (fj_marker ?j)) < jb_end b"
    using assms(4) np by (auto simp: publish_check_def split: if_splits)
  moreover have "jr_offset q + jr_span q \<le> jb_end (pm_boundary (fj_marker ?j))" if "q \<in> set L" for q
    using chain_bounds [OF _ that] l(1) unfolding live_wal_def published_in_def by blast
  ultimately have "r \<notin> set L" using r(2) by (fastforce simp: record_boundary_def)
  moreover have "set L \<union> set T = set old \<union> set (fj_records ?j)"
    using l(1) unfolding live_wal_def by (metis set_append)
  ultimately have "r \<in> set T" using r(1) by blast
  then show ?thesis using assms(1,2) l r(2)
    unfolding journal_inv_def live_def base_def
    by (auto simp: live_pub_def live_prunes_def)
qed

lemma flush_ok_inv:
  assumes "journal_inv E p journal_id s" and "sy_pub s = Some (b, False)"
    and "publish_flush io (sy_j s) = (j, Inr ())"
  shows "journal_inv E p journal_id (s\<lparr>sy_j := j, sy_pub := Some (b, True)\<rparr>)"
proof -
  let ?j = "sy_j s"
  obtain L T old where l: "live_wal E p journal_id ?j L T old" "live_pub s T" "live_prunes s L old"
    "sy_pending s = None" "mk_ok E p (fj_mk ?j) (fj_marker ?j)"
    using assms(1,2) by (auto simp: journal_inv_def dead_def live_def)
  have j: "j = ?j\<lparr>fj_wal := synced_file (vf_data (fj_wal ?j))\<rparr>"
    using assms(3) by (auto simp: publish_flush_def vf_sync_def split: option.splits)
  note ch = live_walD(4,11) [OF l(1)]
  have "jb_end b \<le> length (vf_data (fj_wal ?j))" using pub_end_le [OF l(2) ch(1) assms(2)] ch(2) by linarith
  then have "live_pub (s\<lparr>sy_j := j, sy_pub := Some (b, True)\<rparr>) T"
    using l(2) assms(2) unfolding live_pub_def by (auto simp: j keeps_synced)
  moreover have "live_wal E p journal_id j L T old"
    using l(1) unfolding live_wal_def j super_ok_def by (auto simp: keeps_def)
  ultimately have "live E p journal_id (s\<lparr>sy_j := j, sy_pub := Some (b, True)\<rparr>)"
    unfolding live_def using l(3-5) by (auto simp: j live_prunes_def)
  then show ?thesis using assms(1) by (simp add: journal_inv_def base_def j)
qed

lemma live_dead:
  assumes "journal_inv E p journal_id s" and "live E p journal_id s"
  shows "journal_inv E p journal_id (s\<lparr>sy_j := poisoned (sy_j s), sy_pub := None\<rparr>)"
proof -
  obtain L T old where l: "live_wal E p journal_id (sy_j s) L T old" using assms(2) by (auto simp: live_def)
  have "page_ok p" using assms(1) by (simp add: journal_inv_def base_def)
  from live_recovers [OF l this] show ?thesis using assms
    by (simp add: journal_inv_def base_def dead_def live_def poisoned_def)
qed

lemma flush_fail_inv:
  assumes "journal_inv E p journal_id s" and "sy_pub s = Some (b, False)"
    and "publish_flush io (sy_j s) = (j, Inl err)"
  shows "journal_inv E p journal_id (s\<lparr>sy_j := poisoned j, sy_pub := None\<rparr>)"
proof -
  have "j = sy_j s" using assms(3) by (auto simp: publish_flush_def vf_sync_def split: option.splits)
  moreover have "live E p journal_id s" using assms(1,2) by (auto simp: journal_inv_def dead_def)
  ultimately show ?thesis using live_dead [OF assms(1)] by simp
qed

lemma publish_follows:
  assumes "live_wal E p journal_id j L T old" and "mk_ok E p (fj_mk j) (fj_marker j)" and "env_ok E"
    and "length journal_id = 32" and "jb_journal_id (pm_boundary (fj_marker j)) = journal_id"
    and "r \<in> set T" and "pm_generation (fj_marker j) + 1 < 2 ^ 64"
  shows "follows p (next_marker j (record_boundary r journal_id epoch)) (fj_marker j)"
proof -
  let ?m = "fj_marker j" and ?b = "record_boundary r journal_id epoch"
  have st: "stored E p (vf_data (fj_wal j)) r" by (rule live_walD(6) [OF assms(1,6)])
  have m: "wf_marker ?m" "marker_shape p (pm_generation ?m mod 2) ?m" using assms(2) by (auto simp: mk_ok_def slot_holds_def)
  note T = live_walD(5) [OF assms(1)]
  note bd = chain_bounds [OF T assms(6)]
  have al: "jb_end (pm_boundary ?m) mod p = 0" using m(2) by (simp add: marker_shape_def)
  have "jr_offset r mod p = 0"
    by (rule chain_aligned(2) [OF T al _ assms(6)]) (use live_walD(6) [OF assms(1)] stored_span in blast)
  moreover have "jr_span r mod p = 0" "0 < jr_span r"
    using stored_span [OF st] chain_span [OF T assms(6)] by auto
  ultimately have shape: "marker_shape p (pm_generation (next_marker j ?b) mod 2) (next_marker j ?b)"
    using m(2) bd by (auto simp: marker_shape_def next_marker_def record_boundary_def mod_add_eq [symmetric])
  have "wf_boundary ?b" by (rule stored_wf_boundary [OF st assms(3,4)])
  then have "wf_marker (next_marker j ?b)" using m(1) assms(7) by (simp add: wf_marker_def next_marker_def)
  with shape show ?thesis using bd \<open>0 < jr_span r\<close> assms(5)
    by (simp add: follows_def extends_def next_marker_def record_boundary_def)
qed

lemma published_next:
  assumes "live_wal E p journal_id j L (T1 @ r # T2) old"
  shows "published_in E p (vf_data (fj_wal j)) (next_marker j (record_boundary r journal_id epoch)) (L @ T1 @ [r])"
proof -
  note l = live_walD [OF assms]
  have "chain (fj_published_end j) (T1 @ [r]) (jr_offset r + jr_span r)"
    using l(4) by (auto simp: chain_append)
  with l(13) have "chain (pm_replay_start (fj_marker j)) (L @ T1 @ [r]) (jr_offset r + jr_span r)"
    by (auto simp: chain_append)
  moreover have "\<forall>q\<in>set (L @ T1 @ [r]). stored E p (vf_data (fj_wal j)) q" using l(6,14) by auto
  ultimately show ?thesis
    by (simp add: published_in_def next_marker_def record_boundary_def last_boundary_def durable_def)
qed

lemma mark_inv:
  assumes inv: "journal_inv E p journal_id s" and pub: "sy_pub s = Some (b, True)"
    and mk: "publish_mark E io (sy_j s) b = (j, res)"
  shows "case res of
      Inr _ \<Rightarrow> journal_inv E p journal_id (s\<lparr>sy_j := j, sy_pub := None\<rparr>)
    | Inl _ \<Rightarrow> journal_inv E p journal_id (s\<lparr>sy_j := poisoned j, sy_pub := None,
        sy_pending := if pm_generation (fj_marker (sy_j s)) + 1 < 2 ^ 64 then Some (next_marker (sy_j s) b) else None\<rparr>)"
proof -
  let ?j = "sy_j s" and ?n = "next_marker (sy_j s) b"
  have lv: "live E p journal_id s" using inv pub by (auto simp: journal_inv_def dead_def)
  then obtain L T old where l: "live_wal E p journal_id ?j L T old" "live_pub s T" "live_prunes s L old"
    "sy_pending s = None" "mk_ok E p (fj_mk ?j) (fj_marker ?j)" by (auto simp: live_def)
  have base: "env_ok E" "page_ok p" "length journal_id = 32" "fj_page_size ?j = p" "fj_journal_id ?j = journal_id"
    "jb_journal_id (pm_boundary (fj_marker ?j)) = journal_id"
    using inv by (auto simp: journal_inv_def base_def)
  obtain r where r: "r \<in> set T" "b = record_boundary r journal_id (fj_epoch ?j)"
    and kb: "keeps (pm_replay_start (fj_marker ?j)) (jb_end b) (vf_data (fj_wal ?j)) (fj_wal ?j)"
    using l(2) pub base(5) by (auto simp: live_pub_def)
  from r(1) obtain T1 T2 where T: "T = T1 @ r # T2" by (auto simp: in_set_conv_decomp)
  note pn = published_next [OF l(1) [unfolded T], of "fj_epoch ?j", folded r(2)]
  show ?thesis
  proof (cases "pm_generation (fj_marker ?j) + 1 < 2 ^ 64")
    case False
    then have "j = ?j" "\<exists>e. res = Inl e" using mk by (auto simp: publish_mark_def not_less)
    moreover have "s\<lparr>sy_j := poisoned ?j, sy_pub := None, sy_pending := None\<rparr> = s\<lparr>sy_j := poisoned ?j, sy_pub := None\<rparr>"
      using l(4) by (cases s) simp
    ultimately show ?thesis using live_dead [OF inv lv] False by (auto simp only: if_False sum.case)
  next
    case True
    obtain f u where w: "write_publication_marker E io 1 (fj_mk ?j) ?n = (f, u)" by (metis surj_pair)
    note fol = publish_follows [OF l(1,5) base(1,3,6) r(1) True, of "fj_epoch ?j", folded r(2)]
    note ok = write_marker_ok [OF l(5) fol base(1) w]
    show ?thesis
    proof (cases u)
      case (Inl e)
      then have j: "j = ?j\<lparr>fj_mk := f\<rparr>" "res = Inl e" using mk True w by (auto simp: publish_mark_def)
      have "wal_recovers E p journal_id (fj_wal ?j) ?n"
        by (rule keeps_published [OF pn]) (use kb live_walD(1) [OF l(1)] base(2) in \<open>auto simp: next_marker_def\<close>)
      moreover have "wal_recovers E p journal_id (fj_wal ?j) (fj_marker ?j)" by (rule live_recovers [OF l(1) base(2)])
      ultimately have "dead E p journal_id (s\<lparr>sy_j := poisoned j, sy_pub := None, sy_pending := Some ?n\<rparr>)"
        using ok Inl by (simp add: dead_def j poisoned_def)
      then show ?thesis using base True by (simp add: journal_inv_def base_def j poisoned_def)
    next
      case (Inr x)
      then have j: "j = ?j\<lparr>fj_mk := f, fj_marker := ?n, fj_published_end := jb_end b\<rparr>" "res = Inr ()"
        using mk True w by (auto simp: publish_mark_def)
      have e: "jb_end b = jr_offset r + jr_span r" using r(2) by (simp add: record_boundary_def)
      note ch = live_walD(4) [OF l(1), unfolded T]
      then have T2: "chain (jb_end b) T2 (fj_appended_end ?j)" using e by (auto simp: chain_append)
      have pe: "fj_published_end ?j \<le> jb_end b" using pub_end_le [OF l(2) live_walD(4) [OF l(1)] pub] by simp
      have "live_wal E p journal_id j (L @ T1 @ [r]) T2 old"
        using live_walD [OF l(1)] pn T2 kb pe T unfolding live_wal_def j by (simp add: next_marker_def) auto
      moreover have "live_prunes (s\<lparr>sy_j := j, sy_pub := None\<rparr>) (L @ T1 @ [r]) old"
        using l(3) by (fastforce simp: live_prunes_def j next_marker_def nth_append)
      ultimately have "live E p journal_id (s\<lparr>sy_j := j, sy_pub := None\<rparr>)"
        using ok Inr l(4) unfolding live_def by (auto simp: live_pub_def j)
      then show ?thesis using base r(2) by (simp add: journal_inv_def base_def j next_marker_def record_boundary_def)
    qed
  qed
qed

section \<open>Discarding preserves the invariant\<close>

lemma records_upto_split:
  assumes "chain a X e" and "chain e T b"
  shows "records_upto e (X @ T) = X"
proof -
  have "takeWhile (\<lambda>r. jr_offset r + jr_span r \<le> e) T = []"
    using assms(2) by (cases T) auto
  then show ?thesis using chain_bounds [OF assms(1)] by (simp add: records_upto_def takeWhile_append2)
qed

lemma published_records:
  assumes "live_wal E p journal_id j L T old"
  shows "fj_records j = drop (length old) L @ T" and "records j = drop (length old) L"
    and "\<exists>a. chain a (drop (length old) L) (fj_published_end j)" and "L = old @ drop (length old) L"
proof -
  note l = live_walD [OF assms]
  have len: "length old \<le> length L" using l(8) by auto
  have "drop (length old) (L @ T) = fj_records j" unfolding l(7) by simp
  then show r: "fj_records j = drop (length old) L @ T" using len by simp
  have "chain (pm_replay_start (fj_marker j)) (take (length old) L @ drop (length old) L) (fj_published_end j)"
    using l(13) by simp
  then show c: "\<exists>a. chain a (drop (length old) L) (fj_published_end j)" unfolding chain_append by blast
  have "take (length old) (L @ T) = old" unfolding l(7) by simp
  then have "take (length old) L = old" using len by simp
  then show "L = old @ drop (length old) L" by (metis append_take_drop_id)
  from c show "records j = drop (length old) L" unfolding records_def r using records_upto_split l(4) by blast
qed

lemma live_healthy:
  assumes "journal_inv E p journal_id s" and "\<not> fj_poisoned (sy_j s)"
  obtains L T old where "live_wal E p journal_id (sy_j s) L T old" "live_pub s T" "live_prunes s L old"
    "sy_pending s = None" "mk_ok E p (fj_mk (sy_j s)) (fj_marker (sy_j s))"
  using assms by (auto simp: journal_inv_def dead_def live_def)

lemma discard_inv:
  assumes inv: "journal_inv E p journal_id s" and "sy_pub s = None"
  shows "journal_inv E p journal_id (s\<lparr>sy_j := fst (discard_unpublished io (sy_j s))\<rparr>)"
proof (cases "fj_poisoned (sy_j s)")
  case True
  then show ?thesis using inv by (simp add: poisoned_refuses(2))
next
  case np: False
  let ?j = "sy_j s" and ?e = "fj_published_end (sy_j s)"
  obtain L T old where l: "live_wal E p journal_id ?j L T old" "live_pub s T" "live_prunes s L old"
    "sy_pending s = None" "mk_ok E p (fj_mk ?j) (fj_marker ?j)" by (rule live_healthy [OF inv np])
  note d = live_walD [OF l(1)]
  have base: "page_ok p" using inv by (simp add: journal_inv_def base_def)
  obtain h u where h: "vf_set_len io 0 (fj_wal ?j) ?e = (h, u)" by (metis surj_pair)
  show ?thesis
  proof (cases u)
    case (Inl err)
    then have "h = fj_wal ?j" using h by (auto simp: vf_set_len_def split: option.splits)
    then have "fst (discard_unpublished io ?j) = ?j" using np h Inl d(3) by (simp add: discard_unpublished_def)
    then show ?thesis using inv by simp
  next
    case (Inr x)
    have t: "tail_write ?e (fj_wal ?j) h"
      using tail_write_set_len [OF order_refl tail_write_refl, of ?e "fj_wal ?j" io 0] h by simp
    have le: "?e \<le> length (vf_data (fj_wal ?j))" using chain_le [OF d(4)] d(11) by simp
    have lh: "length (vf_data h) = ?e" using h Inr by (auto simp: vf_set_len_def split: option.splits)
    let ?j' = "fst (discard_unpublished io ?j)"
    have j': "?j' = ?j\<lparr>fj_wal := h, fj_records := drop (length old) L, fj_appended_end := ?e,
        fj_epoch := (fj_epoch ?j + 1) mod 2 ^ 64\<rparr>"
      using np h Inr d(3) published_records(2) [OF l(1)] by (simp add: discard_unpublished_def records_def)
    have "super_ok E p journal_id h"
      by (rule super_ok_range [OF d(1)]) (use t d(1,10) le base in \<open>auto simp: tail_write_def super_ok_def page_ok_def\<close>)
    moreover have "agree (pm_replay_start (fj_marker ?j)) ?e (vf_data (fj_wal ?j)) (vf_data h)"
      using t le by (simp add: tail_write_def has_range_def agree_sym)
    then have "published_in E p (vf_data h) (fj_marker ?j) L"
      using published_in_agree [OF d(2)] d(3) by simp
    moreover have "keeps (pm_replay_start (fj_marker ?j)) ?e (vf_data h) h"
      by (rule keeps_tail_write [OF d(9) t order_refl])
    ultimately have "live_wal E p journal_id ?j' L [] old"
      using d(3,8,10) lh published_records(4) [OF l(1)] unfolding live_wal_def j' by simp
    then have "live E p journal_id (s\<lparr>sy_j := ?j'\<rparr>)"
      using l(3-5) assms(2) unfolding live_def by (auto simp: j' live_pub_def live_prunes_def)
    then show ?thesis using inv by (simp add: journal_inv_def base_def j')
  qed
qed

section \<open>Rolling back preserves the invariant\<close>

lemma chain_disjoint:
  assumes "chain a L b" and "x < y" and "y < length L"
  shows "jr_offset (L ! x) + jr_span (L ! x) \<le> jr_offset (L ! y)"
proof -
  have "L = take y L @ drop y L" by simp
  then obtain m where m: "chain a (take y L) m" "chain m (drop y L) b"
    using assms(1) by (metis chain_append)
  have "L ! x \<in> set (take y L)" using assms(2,3) by (auto simp: in_set_conv_nth intro!: exI [of _ x])
  moreover have "jr_offset (L ! y) = m" using m(2) assms(3) by (simp add: Cons_nth_drop_Suc [symmetric])
  ultimately show ?thesis using chain_bounds [OF m(1)] by blast
qed

lemma chain_set_status: "chain a (L[k := (L ! k)\<lparr>jr_status := t\<rparr>]) b \<longleftrightarrow> chain a L b"
proof (induction L arbitrary: a k)
  case (Cons r L)
  then show ?case by (cases k) simp_all
qed simp

lemma published_set_status:
  assumes "published_in E p d m L" and "env_ok E" and "k < length L"
  shows "published_in E p (d[jr_offset (L ! k) + STATUS_OFFSET := to_byte t]) m (L[k := (L ! k)\<lparr>jr_status := t\<rparr>])"
proof -
  let ?i = "jr_offset (L ! k) + STATUS_OFFSET" and ?L = "L[k := (L ! k)\<lparr>jr_status := t\<rparr>]"
  have ch: "chain (pm_replay_start m) L (jb_end (pm_boundary m))" and st: "\<And>x. x < length L \<Longrightarrow> stored E p d (L ! x)"
    using assms(1) by (auto simp: published_in_def)
  have i: "?i < jr_offset (L ! k) + jr_span (L ! k)"
    using st [OF assms(3)] by (auto simp: stored_def stored_as_def STATUS_OFFSET_def dest!: align_up_Some)
  have "stored E p (d[?i := to_byte t]) (?L ! x)" if x: "x < length L" for x
  proof (cases "x = k")
    case True
    then show ?thesis using stored_set_status [OF st [OF assms(3)] assms(2)] assms(3) by simp
  next
    case False
    then have "?i < jr_offset (L ! x) \<or> jr_offset (L ! x) + jr_span (L ! x) \<le> ?i"
      using chain_disjoint [OF ch, of x k] chain_disjoint [OF ch, of k x] x assms(3) i by linarith
    then have "agree (jr_offset (L ! x)) (jr_offset (L ! x) + jr_span (L ! x)) d (d[?i := to_byte t])"
      by (rule agree_sym [OF agree_update])
    then show ?thesis using stored_agree [OF st [OF x]] False by simp
  qed
  then have "\<forall>r\<in>set ?L. stored E p (d[?i := to_byte t]) r" by (metis in_set_conv_nth length_list_update)
  moreover have "last_boundary ?L x y z = last_boundary L x y z" for x y z
    using assms(3) by (auto simp: last_boundary_def last_conv_nth nth_list_update record_boundary_def)
  ultimately show ?thesis using assms(1) by (simp add: published_in_def chain_set_status)
qed

lemma crash_byte:
  assumes "keeps a b (vf_data f) f" and "crash_image (put_data f ((vf_data f)[i := x])) w"
  shows "b \<le> length w" and "agree a b w (vf_data f) \<or> agree a b w ((vf_data f)[i := x])"
proof -
  let ?d = "vf_data f"
  have v: "b \<le> length v \<and> (agree a b v ?d \<or> v = ?d[i := x])" if "v \<in> set (versions (put_data f (?d[i := x])))" for v
    using assms(1) that by (auto simp: keeps_def)
  then show lw: "b \<le> length w" using assms(2) unfolding crash_image_def by auto
  have ld: "b \<le> length ?d" using assms(1) by (simp add: keeps_def)
  have nth: "w ! y = ?d ! y \<or> w ! y = ?d[i := x] ! y" if y: "a \<le> y" "y < b" for y
  proof -
    obtain u where u: "u \<in> set (versions (put_data f (?d[i := x])))" "y < length u" "w ! y = u ! y"
      using assms(2) y lw unfolding crash_image_def by (meson less_le_trans)
    have "u ! y = ?d ! y" if "agree a b u ?d"
    proof -
      have "sub u a b ! (y - a) = sub ?d a b ! (y - a)" using that by (simp add: agree_def)
      then show ?thesis using y u(2) ld by (simp add: nth_sub)
    qed
    then show ?thesis using v [OF u(1)] u(3) by auto
  qed
  show "agree a b w ?d \<or> agree a b w (?d[i := x])"
  proof (cases "w ! i = ?d ! i")
    case True
    have "w ! y = ?d ! y" if "a \<le> y" "y < b" for y using nth [OF that] True by (cases "y = i") auto
    then show ?thesis using agreeI_nth lw ld by blast
  next
    case False
    have "w ! y = ?d[i := x] ! y" if "a \<le> y" "y < b" for y
      using nth [OF that] False by (cases "y = i") auto
    then show ?thesis using agreeI_nth [of b w "?d[i := x]" a] lw ld by simp
  qed
qed

lemma rollback_recovers:
  assumes "live_wal E p journal_id j L T old" and "env_ok E" and "page_ok p" and "k < length L"
    and "p \<le> pm_replay_start (fj_marker j)"
  defines "i \<equiv> jr_offset (L ! k) + STATUS_OFFSET"
  shows "wal_recovers E p journal_id (put_data (fj_wal j) ((vf_data (fj_wal j))[i := to_byte t])) (fj_marker j)"
  unfolding wal_recovers_def
proof (intro allI impI)
  let ?d = "vf_data (fj_wal j)" and ?m = "fj_marker j" and ?f = "put_data (fj_wal j) ((vf_data (fj_wal j))[i := to_byte t])"
  let ?L = "L[k := (L ! k)\<lparr>jr_status := t\<rparr>]"
  fix w assume c: "crash_image ?f w"
  note d = live_walD [OF assms(1)]
  have i: "p \<le> i"
    using chain_bounds [OF d(13), of "L ! k"] assms(4,5) by (simp add: i_def)
  have k0: "keeps 0 p ?d (fj_wal j)" using d(1) by (simp add: super_ok_def)
  have "agree 0 p (?d[i := to_byte t]) ?d" using i by (simp add: agree_update)
  then have a0: "agree 0 p w ?d" "p \<le> length w"
    using crash_byte [OF k0 c] agree_trans by blast+
  have sb: "read_superblock E w = Inr (p, journal_id)"
  proof (rule superblock_agree [OF _ agree_sym [OF a0(1)]])
    show "read_superblock E ?d = Inr (p, journal_id)" "96 \<le> p"
      using d(1) assms(3) by (simp_all add: super_ok_def page_ok_def)
  qed
  note pu = published_set_status [OF d(2) assms(2,4), of t, folded i_def]
  have "published_in E p w ?m L \<or> published_in E p w ?m ?L"
    using crash_byte(2) [OF d(9) c] published_in_agree [OF d(2)] published_in_agree [OF pu] d(3) agree_sym by metis
  moreover have "?d \<in> set (versions ?f)" "?d[i := to_byte t] \<in> set (versions ?f)" by simp_all
  ultimately show "read_superblock E w = Inr (p, journal_id) \<and> p \<le> length w \<and> jb_end (pm_boundary ?m) \<le> length w \<and>
      (\<exists>L. published_in E p w ?m L \<and> (\<exists>v\<in>set (versions ?f). published_in E p v ?m L))"
    using sb a0(2) crash_byte(1) [OF d(9) c] d(2,3) pu by metis
qed

lemma mk_ok_page: "mk_ok E p mk m \<Longrightarrow> p \<le> pm_replay_start m"
  by (auto simp: mk_ok_def slot_holds_def marker_shape_def)

lemma rollback_inv:
  assumes inv: "journal_inv E p journal_id s"
  shows "journal_inv E p journal_id (s\<lparr>sy_j := fst (mark_rolled_back io (sy_j s) n)\<rparr>)"
proof (cases "fj_poisoned (sy_j s) \<or> fj_appended_end (sy_j s) \<noteq> fj_published_end (sy_j s) \<or>
    length (records (sy_j s)) \<le> n")
  case True
  then have "fst (mark_rolled_back io (sy_j s) n) = sy_j s" by (auto simp: mark_rolled_back_def)
  then show ?thesis using inv by simp
next
  case ok: False
  let ?j = "sy_j s" and ?d = "vf_data (fj_wal (sy_j s))"
  obtain L T old where l: "live_wal E p journal_id ?j L T old" "live_pub s T" "live_prunes s L old"
    "sy_pending s = None" "mk_ok E p (fj_mk ?j) (fj_marker ?j)" using live_healthy [OF inv] ok by blast
  have base: "env_ok E" "page_ok p" using inv by (simp_all add: journal_inv_def base_def)
  note d = live_walD [OF l(1)] and pr = published_records [OF l(1)]
  have T: "T = []" using chain_empty [OF d(4)] ok by simp
  have pub: "sy_pub s = None" using l(2) T by (cases "sy_pub s") (auto simp: live_pub_def)
  define k where "k = length old + n"
  have n: "n < length (fj_records ?j)" using ok pr T by simp
  have k: "k < length L" and Lk: "L ! k = fj_records ?j ! n" using n pr(1) T by (auto simp: k_def)
  define i where "i = jr_offset (L ! k) + STATUS_OFFSET"
  have "i < length ?d" using d(14) [of "L ! k"] k
    by (auto simp: stored_def stored_as_def read_exact_at_Some i_def STATUS_OFFSET_def)
  note wb = write_at_byte [OF this]
  note rec = rollback_recovers [OF l(1) base k mk_ok_page [OF l(5)], of RolledBack, folded i_def]
  let ?w = "bind_s (vf_write io 0 (fj_wal ?j) [to_byte RolledBack] i) (\<lambda>f _. vf_sync io 1 f)"
  have cases: "(\<exists>e. ?w = (put_data (fj_wal ?j) ?d, Inl e)) \<or>
      (\<exists>e. ?w = (put_data (fj_wal ?j) (?d[i := to_byte RolledBack]), Inl e)) \<or>
      ?w = (synced_file (?d[i := to_byte RolledBack]), Inr ())"
  proof (cases "io 0")
    case None
    then show ?thesis by (cases "io 1") (simp_all add: vf_write_def vf_sync_def wb)
  next
    case (Some c)
    moreover have "write_at ?d [] i = ?d" by (simp add: write_at_def)
    ultimately show ?thesis by (cases c) (simp_all add: vf_write_def wb)
  qed
  have same: "wal_recovers E p journal_id (put_data (fj_wal ?j) ?d) (fj_marker ?j)"
    using live_recovers [OF l(1) base(2)]
    by (simp add: wal_recovers_def crash_image_def insert_absorb)
  have dead: "journal_inv E p journal_id (s\<lparr>sy_j := ?j\<lparr>fj_wal := f, fj_poisoned := True\<rparr>\<rparr>)"
    if "wal_recovers E p journal_id f (fj_marker ?j)" for f
    using that inv l(4,5) pub by (simp add: journal_inv_def base_def dead_def)
  show ?thesis
    using cases
  proof (elim disjE exE)
    fix e assume "?w = (put_data (fj_wal ?j) ?d, Inl e)"
    then have "fst (mark_rolled_back io ?j n) = ?j\<lparr>fj_wal := put_data (fj_wal ?j) ?d, fj_poisoned := True\<rparr>"
      using ok by (simp add: mark_rolled_back_def Lk [symmetric] i_def Let_def)
    then show ?thesis using dead [OF same] by simp
  next
    fix e assume "?w = (put_data (fj_wal ?j) (?d[i := to_byte RolledBack]), Inl e)"
    then have "fst (mark_rolled_back io ?j n) =
        ?j\<lparr>fj_wal := put_data (fj_wal ?j) (?d[i := to_byte RolledBack]), fj_poisoned := True\<rparr>"
      using ok by (simp add: mark_rolled_back_def Lk [symmetric] i_def Let_def)
    then show ?thesis using dead [OF rec] by simp
  next
    let ?d' = "?d[i := to_byte RolledBack]" and ?L = "L[k := (L ! k)\<lparr>jr_status := RolledBack\<rparr>]"
    assume w: "?w = (synced_file ?d', Inr ())"
    let ?j' = "fst (mark_rolled_back io ?j n)"
    have j': "?j' = ?j\<lparr>fj_wal := synced_file ?d', fj_records := (fj_records ?j)[n := (L ! k)\<lparr>jr_status := RolledBack\<rparr>],
        fj_needs_replay := True\<rparr>"
      using ok w by (simp add: mark_rolled_back_def Lk [symmetric] i_def Let_def)
    have "p \<le> i" using chain_bounds [OF d(13), of "L ! k"] k mk_ok_page [OF l(5)] by (simp add: i_def)
    then have sb: "agree 0 p ?d ?d'" by (intro agree_sym [OF agree_update]) simp
    have "read_superblock E ?d' = Inr (p, journal_id)"
      by (rule superblock_agree [OF _ sb]) (use d(1) base(2) in \<open>simp_all add: super_ok_def page_ok_def\<close>)
    then have "super_ok E p journal_id (synced_file ?d')"
      using d(1) by (simp add: super_ok_def keeps_def)
    moreover have "published_in E p ?d' (fj_marker ?j) ?L"
      using published_set_status [OF d(2) base(1) k, of RolledBack] by (simp add: i_def)
    moreover have "?L = old @ (fj_records ?j)[n := (L ! k)\<lparr>jr_status := RolledBack\<rparr>]"
      using d(7) T by (simp add: k_def list_update_append)
    ultimately have "live_wal E p journal_id ?j' ?L [] old"
      using d T unfolding live_wal_def j' by (simp add: keeps_def)
    moreover have "live_prunes (s\<lparr>sy_j := ?j'\<rparr>) ?L old"
    proof -
      have "jr_offset (?L ! x) = jr_offset (L ! x)" for x using k by (cases "x = k") auto
      then show ?thesis using l(3) by (simp add: live_prunes_def j')
    qed
    ultimately have "live E p journal_id (s\<lparr>sy_j := ?j'\<rparr>)"
      using l(4,5) pub unfolding live_def by (auto simp: j' live_pub_def)
    then show ?thesis using inv by (simp add: journal_inv_def base_def j')
  qed
qed

section \<open>Pruning preserves the invariant\<close>

lemma prune_count_less: "0 < n \<Longrightarrow> prune_count rs keep n f < n"
  by (induction rs keep n f rule: prune_count.induct) (auto simp: less_Suc_eq)

lemma prepare_inv:
  assumes inv: "journal_inv E p journal_id s" and pp: "prepare_prune (sy_j s) keep = (j, r)"
  shows "journal_inv E p journal_id
    (s\<lparr>sy_j := j, sy_prunes := (case r of Inr (Some q) \<Rightarrow> q # sy_prunes s | _ \<Rightarrow> sy_prunes s)\<rparr>)"
proof -
  let ?j = "sy_j s" and ?c = "prune_count (records (sy_j s)) keep (length (records (sy_j s))) 0"
  show ?thesis
  proof (cases "fj_poisoned ?j \<or> ?c = 0")
    case True
    then have "j = ?j" "r = Inr None \<or> (\<exists>e. r = Inl e)" using pp
      by (auto simp: prepare_prune_def Let_def split: if_splits)
    then show ?thesis using inv by auto
  next
    case ok: False
    obtain L T old where l: "live_wal E p journal_id ?j L T old" "live_pub s T" "live_prunes s L old"
      "sy_pending s = None" "mk_ok E p (fj_mk ?j) (fj_marker ?j)" using live_healthy [OF inv] ok by blast
    note d = live_walD [OF l(1)] and pr = published_records [OF l(1)]
    let ?q = "\<lparr>pr_replay_start = jr_offset (records ?j ! ?c), pr_count = ?c\<rparr>" and ?old = "old @ take ?c (fj_records ?j)"
    have jr: "j = ?j\<lparr>fj_records := drop ?c (fj_records ?j)\<rparr>" "r = Inr (Some ?q)"
      using pp ok by (auto simp: prepare_prune_def Let_def)
    have c: "?c < length L - length old"
    proof -
      have "0 < length (records ?j)" using ok by (cases "length (records ?j)") auto
      from prune_count_less [OF this] show ?thesis by (simp add: pr(2))
    qed
    have len: "length ?old = length old + ?c" using c pr(1) by simp
    have "live_wal E p journal_id j L T ?old"
    proof -
      have "L @ T = ?old @ drop ?c (fj_records ?j)" using d(7) by simp
      moreover have "length ?old < length L" using len c by linarith
      ultimately show ?thesis using d unfolding live_wal_def jr by simp
    qed
    moreover have "live_prunes (s\<lparr>sy_j := j, sy_prunes := ?q # sy_prunes s\<rparr>) L ?old"
    proof -
      have new: "length old + ?c \<le> length ?old" "length old + ?c < length L"
        "jr_offset (L ! (length old + ?c)) = pr_replay_start ?q"
        using c len pr(2) by (simp_all only: order_refl) auto
      have old: "length old \<le> length ?old" using len by linarith
      have mk: "fj_marker j = fj_marker ?j" by (simp add: jr)
      show ?thesis unfolding live_prunes_def
      proof
        fix q assume "q \<in> set (sy_prunes (s\<lparr>sy_j := j, sy_prunes := ?q # sy_prunes s\<rparr>))"
        then consider "q = ?q" | "q \<in> set (sy_prunes s)" by auto
        then show "pr_replay_start q \<le> pm_replay_start (fj_marker (sy_j (s\<lparr>sy_j := j, sy_prunes := ?q # sy_prunes s\<rparr>))) \<or>
            (\<exists>k\<le>length ?old. k < length L \<and> jr_offset (L ! k) = pr_replay_start q)"
        proof cases
          case 1
          then show ?thesis using new by blast
        next
          case 2
          then have "pr_replay_start q \<le> pm_replay_start (fj_marker ?j) \<or>
              (\<exists>k\<le>length old. k < length L \<and> jr_offset (L ! k) = pr_replay_start q)"
            using l(3) unfolding live_prunes_def by blast
          then show ?thesis
          proof
            assume "pr_replay_start q \<le> pm_replay_start (fj_marker ?j)"
            then show ?thesis using mk by simp
          next
            assume "\<exists>k\<le>length old. k < length L \<and> jr_offset (L ! k) = pr_replay_start q"
            then show ?thesis using old by (meson le_trans)
          qed
        qed
      qed
    qed
    ultimately have "live E p journal_id (s\<lparr>sy_j := j, sy_prunes := ?q # sy_prunes s\<rparr>)"
    proof (intro liveI [where L = L and T = T and old = ?old])
      show "live_pub (s\<lparr>sy_j := j, sy_prunes := ?q # sy_prunes s\<rparr>) T"
        using l(2) unfolding live_pub_def by (simp add: jr)
    qed (use l(4,5) in \<open>simp_all add: jr\<close>)
    then show ?thesis using inv jr by (simp add: journal_inv_def base_def)
  qed
qed

lemma chain_drop: "chain a L b \<Longrightarrow> k < length L \<Longrightarrow> chain (jr_offset (L ! k)) (drop k L) b"
  by (induction L arbitrary: a k) (auto simp: nth_Cons drop_Cons split: nat.splits)

lemma chain_nth_mono:
  assumes "chain a L b" and "jr_offset (L ! k) < jr_offset (L ! x)" and "k < length L" and "x < length L"
  shows "k < x"
  using chain_disjoint [OF assms(1), of x k] assms by (cases "x = k"; cases "x < k") auto

lemma published_drop:
  assumes "published_in E p d m L" and "k < length L"
  shows "published_in E p d (advanced m (jr_offset (L ! k))) (drop k L)"
  using assms chain_drop [of "pm_replay_start m" L _ k] set_drop_subset [of k L]
  by (auto simp: published_in_def advanced_def last_boundary_def last_drop durable_def split: if_splits)

lemma advanced_follows:
  assumes "mk_ok E p mk m" and "published_in E p d m L" and "k < length L" and "pm_generation m + 1 < 2 ^ 64"
    and "pm_replay_start m \<le> jr_offset (L ! k)" and "jr_offset (L ! k) \<le> jb_offset (pm_boundary m)"
  shows "follows p (advanced m (jr_offset (L ! k))) m"
proof -
  have m: "wf_marker m" "marker_shape p (pm_generation m mod 2) m" using assms(1) by (auto simp: mk_ok_def slot_holds_def)
  have ch: "chain (pm_replay_start m) L (jb_end (pm_boundary m))" and st: "\<forall>r\<in>set L. stored E p d r"
    using assms(2) by (auto simp: published_in_def)
  have k: "L ! k \<in> set L" using assms(3) by simp
  have "jr_offset (L ! k) mod p = 0"
  proof (rule chain_aligned(2) [OF ch _ _ k])
    show "pm_replay_start m mod p = 0" using m(2) by (simp add: marker_shape_def)
    show "\<forall>r\<in>set L. jr_span r mod p = 0" using st stored_span by blast
  qed
  moreover have "jr_offset (L ! k) < jb_end (pm_boundary m)"
    using chain_bounds [OF ch k] chain_span [OF ch k] by linarith
  moreover have "jb_end (pm_boundary m) < 2 ^ 64" using m(1) by (simp add: wf_marker_def wf_boundary_def)
  ultimately show ?thesis
    using m assms(4-6)
    by (auto simp: follows_def advanced_def wf_marker_def marker_shape_def extends_def durable_def)
qed

text \<open>The marker write of a pruning: it succeeds, does nothing, or leaves a torn marker.\<close>

lemma advance_cases:
  assumes live: "live_wal E p journal_id j L T old" and mk: "mk_ok E p (fj_mk j) (fj_marker j)" and "env_ok E"
    and "page_ok p" and k: "k < length L" "k \<le> length old" and "jr_offset (L ! k) = start"
    and "pm_replay_start (fj_marker j) \<le> start" and "start \<le> jb_offset (pm_boundary (fj_marker j))"
    and np: "\<not> fj_poisoned j" and adv: "advance_marker E io x j start = (j', r)"
  obtains (ok) f where "r = Inr ()" "j' = j\<lparr>fj_mk := f, fj_marker := advanced (fj_marker j) start\<rparr>"
      "live_wal E p journal_id j' (drop k L) T (drop k old)" "mk_ok E p (fj_mk j') (fj_marker j')"
    | (none) e where "r = Inl e" "j' = j"
    | (torn) e f where "r = Inl e" "j' = j\<lparr>fj_mk := f, fj_poisoned := True\<rparr>"
      "mk_torn E p f (fj_marker j) (advanced (fj_marker j) start)"
      "wal_recovers E p journal_id (fj_wal j) (fj_marker j)"
      "wal_recovers E p journal_id (fj_wal j) (advanced (fj_marker j) start)"
proof (cases "pm_generation (fj_marker j) + 1 < 2 ^ 64")
  case False
  then show ?thesis using none adv by (auto simp: advance_marker_def not_less)
next
  case True
  let ?m = "fj_marker j" and ?n = "advanced (fj_marker j) start"
  note d = live_walD [OF live]
  have pn: "published_in E p (vf_data (fj_wal j)) ?n (drop k L)" using published_drop [OF d(2) k(1)] assms(7) by simp
  have keeps: "keeps (pm_replay_start ?n) (jb_end (pm_boundary ?n)) (vf_data (fj_wal j)) (fj_wal j)"
    using keeps_mono [OF d(9)] d(3) assms(8) by (simp add: advanced_def)
  have fol: "follows p ?n ?m" using advanced_follows [OF mk d(2) k(1) True] assms(7-9) by simp
  obtain f u where w: "write_publication_marker E io x (fj_mk j) ?n = (f, u)" by (metis surj_pair)
  note ok' = write_marker_ok [OF mk fol assms(3) w]
  show ?thesis
  proof (cases u)
    case (Inl e)
    then have "r = Inl e" "j' = j\<lparr>fj_mk := f, fj_poisoned := True\<rparr>"
      using adv True w by (auto simp: advance_marker_def advanced_def)
    then show ?thesis
      using torn ok' Inl live_recovers [OF live assms(4)] keeps_published [OF pn keeps d(1) assms(4)] by simp
  next
    case (Inr y)
    then have j': "r = Inr ()" "j' = j\<lparr>fj_mk := f, fj_marker := ?n\<rparr>"
      using adv True w by (auto simp: advance_marker_def advanced_def)
    have "drop k L @ T = drop k (L @ T)" using k by simp
    also have "\<dots> = drop k old @ fj_records j" unfolding d(7) using k(2) by simp
    finally have "live_wal E p journal_id j' (drop k L) T (drop k old)"
      using d pn keeps k np unfolding live_wal_def j'
      by (simp add: advanced_def) auto
    then show ?thesis using ok [of f] j' ok' Inr by simp
  qed
qed

lemma punch_live:
  assumes live: "live_wal E p journal_id j L T old" and "page_ok p" and "p \<le> a"
    and "a \<le> b" and "b \<le> pm_replay_start (fj_marker j)" and "\<not> fj_poisoned j"
    and ph: "punch_hole io x j a b = (j', r)"
  shows "live_wal E p journal_id j' L T old \<and> j' = j\<lparr>fj_wal := fj_wal j'\<rparr>"
proof (cases "io x")
  case (Some n)
  then have "j' = j" using ph by (cases n) (auto simp: punch_hole_def)
  then show ?thesis using live by simp
next
  case None
  let ?d = "vf_data (fj_wal j)" and ?z = "replicate (b - a) (0 :: u8)"
  let ?d' = "write_at ?d ?z a" and ?e = "fj_published_end j"
  note d = live_walD [OF live]
  have j': "j' = j\<lparr>fj_wal := put_data (fj_wal j) ?d'\<rparr>" using None ph by (simp add: punch_hole_def)
  have be: "b \<le> ?e" using chain_le [OF d(13)] assms(5) by simp
  have le: "?e \<le> length ?d" using chain_le [OF d(4)] d(11) by simp
  have len: "length ?d' = length ?d" using be le assms(4) by auto
  have a0: "agree 0 p ?d' ?d" using d(10) le assms(3) by (intro agree_write_before) auto
  have hi: "agree x y ?d' ?d" if "b \<le> x" for x y
    using that be le assms(4) by (intro agree_write_after) auto
  have "super_ok E p journal_id (fj_wal j')"
  proof (rule super_ok_range [OF d(1)])
    show "keeps 0 p ?d (fj_wal j')" using d(1) keeps_put [of 0 p ?d "fj_wal j" ?d'] a0 len
      by (simp add: j' super_ok_def keeps_def)
    show "has_range 0 p ?d (fj_wal j')" using a0 len d(10) le by (simp add: has_range_def j')
    show "96 \<le> p" using assms(2) by (simp add: page_ok_def)
  qed
  moreover have "published_in E p ?d' (fj_marker j) L"
    by (rule published_in_agree [OF d(2)]) (rule agree_sym [OF hi [OF assms(5)]])
  moreover have "stored E p ?d' r" if "r \<in> set T" for r
    by (rule stored_agree [OF d(6) [OF that] agree_sym [OF hi [OF order_refl]]])
      (use chain_bounds [OF d(4) that] be in auto)
  moreover have "keeps (pm_replay_start (fj_marker j)) ?e ?d' (put_data (fj_wal j) ?d')"
  proof -
    have "keeps (pm_replay_start (fj_marker j)) ?e ?d (put_data (fj_wal j) ?d')"
      by (rule keeps_put [OF d(9)]) (use len le hi [OF assms(5)] in auto)
    from keeps_rebase [OF this] show ?thesis
      using len le hi [OF assms(5)] by (simp add: has_range_def)
  qed
  ultimately show ?thesis using d assms(6) len unfolding live_wal_def j' by (simp add: len)
qed

lemma live_prunes_drop:
  assumes "live_prunes s L old" and "live_wal E p journal_id (sy_j s) L T old" and "k < length L" and "k \<le> length old"
    and "pm_replay_start (fj_marker j) = jr_offset (L ! k)"
    and "sy_prunes s' = sy_prunes s" and "sy_j s' = j" and "pm_replay_start (fj_marker (sy_j s)) \<le> jr_offset (L ! k)"
  shows "live_prunes s' (drop k L) (drop k old)"
  unfolding live_prunes_def assms(6,7)
proof
  fix q assume "q \<in> set (sy_prunes s)"
  then consider "pr_replay_start q \<le> pm_replay_start (fj_marker (sy_j s))"
    | x where "x \<le> length old" "x < length L" "jr_offset (L ! x) = pr_replay_start q"
    using assms(1) by (auto simp: live_prunes_def)
  then show "pr_replay_start q \<le> pm_replay_start (fj_marker j) \<or>
      (\<exists>x\<le>length (drop k old). x < length (drop k L) \<and> jr_offset (drop k L ! x) = pr_replay_start q)"
  proof cases
    case 1
    then show ?thesis using assms(5,8) by simp
  next
    case 2
    show ?thesis
    proof (cases "k \<le> x")
      case True
      then show ?thesis using 2 assms(3) by (intro disjI2 exI [of _ "x - k"]) auto
    next
      case False
      then show ?thesis using chain_disjoint [OF live_walD(13) [OF assms(2)], of x k] 2 assms(3,5) by auto
    qed
  qed
qed

lemma finish_inv:
  assumes inv: "journal_inv E p journal_id s" and pub: "sy_pub s = None" and q: "q \<in> set (sy_prunes s)"
    and fin: "prune_finish E io (sy_j s) q = (j, r)"
  shows "journal_inv E p journal_id (s\<lparr>sy_j := j, sy_pending :=
    if fj_poisoned j \<and> \<not> fj_poisoned (sy_j s) then Some (advanced (fj_marker j) (pr_replay_start q)) else sy_pending s\<rparr>)"
proof -
  let ?j = "sy_j s" and ?start = "pr_replay_start q"
  let ?next = "\<lambda>j. s\<lparr>sy_j := j, sy_pending :=
    if fj_poisoned j \<and> \<not> fj_poisoned (sy_j s) then Some (advanced (fj_marker j) ?start) else sy_pending s\<rparr>"
  show ?thesis
  proof (cases "fj_poisoned ?j \<or> ?start \<le> pm_replay_start (fj_marker ?j) \<or> ?start > jb_offset (pm_boundary (fj_marker ?j))")
    case True
    then have "j = ?j" using fin by (auto simp: prune_finish_def split: if_splits)
    then show ?thesis using inv by simp
  next
    case ok: False
    then have np: "\<not> fj_poisoned ?j" by simp
    obtain L T old where l: "live_wal E p journal_id ?j L T old" "live_pub s T" "live_prunes s L old"
      "sy_pending s = None" "mk_ok E p (fj_mk ?j) (fj_marker ?j)" using live_healthy [OF inv np] by blast
    have base: "env_ok E" "page_ok p" using inv by (simp_all add: journal_inv_def base_def)
    obtain k where k: "k < length L" "k \<le> length old" "jr_offset (L ! k) = ?start"
      using l(3) q ok by (auto simp: live_prunes_def)
    have lv: "journal_inv E p journal_id (?next j1)"
      if "live_wal E p journal_id j1 (drop k L) T (drop k old)" "mk_ok E p (fj_mk j1) (fj_marker j1)" "\<not> fj_poisoned j1"
        "pm_replay_start (fj_marker j1) = ?start" "same_ids (?j\<lparr>fj_marker := fj_marker j1, fj_mk := fj_mk j1\<rparr>) j1"
        "jb_journal_id (pm_boundary (fj_marker j1)) = jb_journal_id (pm_boundary (fj_marker ?j))" for j1
    proof -
      have "live_prunes (?next j1) (drop k L) (drop k old)"
        by (rule live_prunes_drop [OF l(3,1) k(1,2)]) (use that(4) k(3) ok in auto)
      then have "live E p journal_id (?next j1)"
        unfolding live_def using that(1-3) l(4) pub by (auto simp: live_pub_def)
      then show ?thesis using inv that(5,6) by (simp add: journal_inv_def base_def same_ids_def)
    qed
    have dd: "journal_inv E p journal_id (?next (j1\<lparr>fj_mk := f, fj_poisoned := True\<rparr>))"
      if "mk_torn E p f (fj_marker j1) (advanced (fj_marker j1) ?start)"
        "wal_recovers E p journal_id (fj_wal j1) (fj_marker j1)"
        "wal_recovers E p journal_id (fj_wal j1) (advanced (fj_marker j1) ?start)"
        "fj_page_size j1 = fj_page_size ?j" "fj_journal_id j1 = fj_journal_id ?j"
        "jb_journal_id (pm_boundary (fj_marker j1)) = jb_journal_id (pm_boundary (fj_marker ?j))" for j1 f
      using that inv pub np by (simp add: journal_inv_def base_def dead_def)
    obtain j1 r1 where a1: "advance_marker E io 0 ?j ?start = (j1, r1)" by (metis surj_pair)
    have start: "pm_replay_start (fj_marker ?j) \<le> ?start" "?start \<le> jb_offset (pm_boundary (fj_marker ?j))" using ok by auto
    from l(1,5) base k start np a1 show ?thesis
    proof (cases rule: advance_cases)
      case (none e)
      then have "j = ?j" using fin ok a1 by (auto simp: prune_finish_def Let_def)
      then show ?thesis using inv by simp
    next
      case (torn e f)
      then have j: "j = ?j\<lparr>fj_mk := f, fj_poisoned := True\<rparr>" using fin ok a1 by (auto simp: prune_finish_def Let_def)
      show ?thesis unfolding j by (rule dd [OF torn(3-5)]) simp_all
    next
      case one: (ok f)
      let ?L = "drop k L" and ?old = "drop k old"
      obtain j2 r2 where a2: "advance_marker E io 2 j1 ?start = (j2, r2)" by (metis surj_pair)
      have k0: "0 < length ?L" "0 \<le> length ?old" "jr_offset (?L ! 0) = ?start" using k by auto
      have m1: "pm_replay_start (fj_marker j1) \<le> ?start" "?start \<le> jb_offset (pm_boundary (fj_marker j1))"
        "\<not> fj_poisoned j1" "pm_replay_start (fj_marker j1) = ?start"
        using one(2) start np by (simp_all add: advanced_def)
      from one(3,4) base k0 m1(1-3) a2 show ?thesis
      proof (cases rule: advance_cases)
        case (none e)
        then have j: "j = j1" using fin ok a1 a2 one(1) by (auto simp: prune_finish_def Let_def)
        show ?thesis unfolding j by (rule lv [OF one(3,4) m1(3,4)]) (simp_all add: one(2) same_ids_def advanced_def)
      next
        case (torn e g)
        then have j: "j = j1\<lparr>fj_mk := g, fj_poisoned := True\<rparr>"
          using fin ok a1 a2 one(1) by (auto simp: prune_finish_def Let_def)
        show ?thesis unfolding j by (rule dd [OF torn(3-5)]) (simp_all add: one(2) advanced_def)
      next
        case two: (ok g)
        obtain j3 r3 where a3: "punch_hole io 4 j2 (pm_replay_start (fj_marker ?j)) ?start = (j3, r3)" by (metis surj_pair)
        have j: "j = j3"
          using fin ok a1 a2 a3 one(1) two(1) by (cases r3) (auto simp: prune_finish_def Let_def)
        have m2: "pm_replay_start (fj_marker j2) = ?start" "\<not> fj_poisoned j2"
          using two(2) m1 by (simp_all add: advanced_def)
        have "live_wal E p journal_id j2 ?L T ?old" using two(3) by simp
        from punch_live [OF this base(2) mk_ok_page [OF l(5)] start(1) _ m2(2) a3] m2(1)
        have p3: "live_wal E p journal_id j3 ?L T ?old" "j3 = j2\<lparr>fj_wal := fj_wal j3\<rparr>" by auto
        have f3: "fj_mk j3 = fj_mk j2" "fj_marker j3 = fj_marker j2" "fj_poisoned j3 = fj_poisoned j2"
          "fj_page_size j3 = fj_page_size ?j" "fj_journal_id j3 = fj_journal_id ?j" "fj_epoch j3 = fj_epoch ?j"
          "jb_journal_id (pm_boundary (fj_marker j3)) = jb_journal_id (pm_boundary (fj_marker ?j))"
          by (subst p3(2), simp add: two(2) one(2) advanced_def)+
        show ?thesis unfolding j
          by (rule lv [OF p3(1)]) (use two(4) f3 m2 in \<open>simp_all add: same_ids_def\<close>)
      qed
    qed
  qed
qed

section \<open>Every reachable state recovers\<close>

theorem journal_step_inv:
  assumes "journal_step E s s'" and "journal_inv E p journal_id s"
  shows "journal_inv E p journal_id s'"
  using assms
proof (cases rule: journal_step.cases)
  case (append e pf io h rows)
  then show ?thesis using append_inv [OF assms(2)] by simp
next
  case (begin_publish b)
  then show ?thesis using begin_inv [OF assms(2)] by simp
next
  case (flush_ok b io j)
  then show ?thesis using flush_ok_inv [OF assms(2)] by simp
next
  case (flush_fail b io j err)
  then show ?thesis using flush_fail_inv [OF assms(2)] by simp
next
  case (mark_ok b io j)
  then show ?thesis using mark_inv [OF assms(2) mark_ok(2,3)] by simp
next
  case (mark_fail b io j err)
  then show ?thesis using mark_inv [OF assms(2) mark_fail(2,3)] by simp
next
  case (discard io)
  then show ?thesis using discard_inv [OF assms(2)] by simp
next
  case (roll_back io i)
  then show ?thesis using rollback_inv [OF assms(2)] by simp
next
  case (prepare keep j r)
  then show ?thesis using prepare_inv [OF assms(2) prepare(2)] by simp
next
  case (finish q io j r)
  then show ?thesis using finish_inv [OF assms(2) finish(2-4)] by simp
next
  case (crash w c sysconf fresh dir dir' j)
  have "fj_journal_id (sy_j s) = journal_id" using assms(2) by (simp add: journal_inv_def base_def)
  then have d: "checksums_detect E journal_id (sy_pending s) (fj_mk (sy_j s)) c" using crash(4) by simp
  show ?thesis using inv_recovers [OF assms(2) crash(2,3) d, of sysconf fresh dir] crash(1,5) by auto
qed

section \<open>Initialization\<close>

text \<open>The file after some records have been imported.\<close>

definition imported :: "'h journal_env \<Rightarrow> nat \<Rightarrow> bytes \<Rightarrow> vfile \<Rightarrow> JournalBoundary \<Rightarrow> 'h JournalRecord list \<Rightarrow> bool" where
  "imported E p journal_id f b L \<longleftrightarrow>
     p \<le> jb_end b \<and> chain p L (jb_end b) \<and> (\<forall>r\<in>set L. stored E p (vf_data f) r) \<and>
     last_boundary L journal_id 0 p = b \<and> length (vf_data f) = jb_end b \<and>
     read_superblock E (vf_data f) = Inr (p, journal_id)"

lemma superblock_written:
  assumes "env_ok E" and "page_ok p" and "length journal_id = 32"
  shows "read_superblock E (write_at (set_len_bytes [] p) (superblock_bytes E p journal_id) 0) = Inr (p, journal_id)"
    and "length (write_at (set_len_bytes [] p) (superblock_bytes E p journal_id) 0) = p"
proof -
  let ?body = "WAL_MAGIC @ le64 p @ journal_id @ replicate 16 0"
  have len: "length (e_sha E ?body) = 32" "length ?body = 64" using assms by (simp_all add: env_ok_def)
  have p: "96 \<le> p" "p < 2 ^ 64" using assms(2) by (auto simp: page_ok_def)
  have sb: "length (superblock_bytes E p journal_id) = 96" using len by (simp add: superblock_bytes_def)
  show "length (write_at (set_len_bytes [] p) (superblock_bytes E p journal_id) 0) = p" using sb p by auto
  have "read_exact_at (write_at (set_len_bytes [] p) (superblock_bytes E p journal_id) 0) 96 0 =
      Some (superblock_bytes E p journal_id)"
    using read_written [of 0 "set_len_bytes [] p" "superblock_bytes E p journal_id"] sb
    by (cases "superblock_bytes E p journal_id = []") auto
  then show "read_superblock E (write_at (set_len_bytes [] p) (superblock_bytes E p journal_id) 0) = Inr (p, journal_id)"
    using assms(2,3) p len
    by (simp add: read_superblock_def superblock_bytes_def Let_def sub_def rd64_def page_ok_def)
qed

lemma stored_status_byte:
  assumes "stored E p d r" and "env_ok E"
  shows "d ! (jr_offset r + STATUS_OFFSET) = to_byte (jr_status r)"
proof -
  obtain v w where s: "stored_as E p v w d r" using assms(1) by (auto simp: stored_def)
  let ?h = "record_header v (jr_status r) (jr_span r) (length w) (jr_checksum r)"
  have h: "length ?h = 64" "?h ! 10 = to_byte (jr_status r)"
    using s assms(2) header_fields(1,4) [of "jr_checksum r" "jr_span r" "length w"]
    by (auto simp: stored_as_def env_ok_def MAX_RECORD_BYTES_def)
  have img: "jr_offset r + (64 + length w + 8) \<le> length d"
    "?h @ w @ RECORD_TRAILER = sub d (jr_offset r) (jr_offset r + (64 + length w + 8))"
    using s unfolding stored_as_def read_exact_at_Some record_image_def by blast+
  have "sub d (jr_offset r) (jr_offset r + (64 + length w + 8)) ! 10 = d ! (jr_offset r + 10)"
    using img(1) by (intro nth_sub) auto
  then show ?thesis using h unfolding img(2) [symmetric] by (simp add: STATUS_OFFSET_def nth_append)
qed

lemma import_step:
  assumes im: "imported E p journal_id f b L" and "env_ok E" and "page_ok p" and wf: "wf_entry (jr_entry leg)"
    and "import_record E p journal_id (f, b) leg = Inr (f', b')"
  shows "\<exists>r. imported E p journal_id f' b' (L @ [r]) \<and> jr_entry r = jr_entry leg \<and> jr_status r = jr_status leg"
proof -
  note i = im [unfolded imported_def]
  obtain w g r where w: "encode_entry (jr_entry leg) = Inr w"
    and g: "write_record E no_faults f p (jb_end b) (jr_entry leg) None w LEGACY_RECORD_VERSION = (g, Inr r)"
    and f': "f' = (if jr_status leg = RolledBack
                 then fst (vf_write no_faults 0 g [to_byte RolledBack] (jr_offset r + STATUS_OFFSET)) else g)"
    and b': "b' = record_boundary r journal_id 0"
  proof -
    obtain w where w: "encode_entry (jr_entry leg) = Inr w" using assms(5) by (auto simp: import_record_def)
    obtain g u where g: "write_record E no_faults f p (jb_end b) (jr_entry leg) None w LEGACY_RECORD_VERSION = (g, u)"
      by (metis surj_pair)
    show thesis using assms(5) w g that by (cases u) (auto simp: import_record_def)
  qed
  have dec: "decode_payload E LEGACY_RECORD_VERSION w = Inr (jr_entry leg, None)"
    using decode_encode_entry [OF wf w] by (simp add: decode_payload_def)
  have le: "jb_end b \<le> length (vf_data f)" using i by simp
  note s = write_record_stored [OF g assms(2) _ dec le]
  have tw: "tail_write (jb_end b) f g" using tail_write_record [of "jb_end b" "jb_end b" f E no_faults p "jr_entry leg" None w LEGACY_RECORD_VERSION] g by simp
  have v: "valid_version LEGACY_RECORD_VERSION" by (simp add: valid_version_def)
  let ?r = "r\<lparr>jr_status := jr_status leg\<rparr>" and ?i = "jr_offset r + STATUS_OFFSET"
  have il: "?i < length (vf_data g)" using s(1) [OF v]
    by (auto simp: stored_def stored_as_def read_exact_at_Some STATUS_OFFSET_def)
  have data: "vf_data f' = (vf_data g)[?i := to_byte (jr_status leg)]"
  proof (cases "jr_status leg")
    case Forward
    then show ?thesis
      using stored_status_byte [OF s(1) [OF v] assms(2)] s(3) [OF v] list_update_id [of "vf_data g" ?i]
      by (simp add: f')
  next
    case RolledBack
    then show ?thesis by (simp add: f' vf_write_def no_faults_def write_at_byte [OF il])
  qed
  have st: "stored E p (vf_data f') ?r" using stored_set_status [OF s(1) [OF v] assms(2), of "jr_status leg"] data by simp
  have off: "jr_offset r = jb_end b" "0 < jr_span r" "length (vf_data g) = jb_end b + jr_span r"
    using s(2,4,7) [OF v] by simp_all
  have ag: "agree 0 (jb_end b) (vf_data f) (vf_data f')"
  proof -
    have "agree 0 (jb_end b) (vf_data g) (vf_data f)" using tw le by (simp add: tail_write_def has_range_def)
    moreover have "agree 0 (jb_end b) (vf_data f') (vf_data g)" unfolding data by (rule agree_update) (simp add: off(1))
    ultimately show ?thesis by (blast intro: agree_sym agree_trans)
  qed
  have old: "stored E p (vf_data f') x" if "x \<in> set L" for x
    using stored_agree [OF _ ag] chain_bounds [of p L "jb_end b" x] i that by blast
  have sb: "read_superblock E (vf_data f') = Inr (p, journal_id)"
  proof (rule superblock_agree [OF _ agree_mono [OF ag, of 0 p]])
    show "96 \<le> p" using assms(3) by (simp add: page_ok_def)
  qed (use i in auto)
  have "imported E p journal_id f' b' (L @ [?r])"
    unfolding imported_def using i off st old sb
    by (auto simp: b' record_boundary_def chain_append last_boundary_def data)
  moreover have "jr_entry ?r = jr_entry leg" using s(5) [OF v] by simp
  ultimately show ?thesis by (intro exI [of _ ?r]) simp
qed

lemma import_fold:
  assumes "fold_r (import_record E p journal_id) (f, b) legacy = Inr (f', b')" and "imported E p journal_id f b L"
    and "env_ok E" and "page_ok p" and "\<forall>r\<in>set legacy. wf_entry (jr_entry r)"
  shows "\<exists>N. imported E p journal_id f' b' (L @ N) \<and>
    map (\<lambda>r. (jr_entry r, jr_status r)) N = map (\<lambda>r. (jr_entry r, jr_status r)) legacy"
  using assms(1,2,5)
proof (induction legacy arbitrary: f b L)
  case Nil
  then show ?case by (auto intro: exI [of _ "[]"])
next
  case (Cons leg legacy)
  obtain f1 b1 where s: "import_record E p journal_id (f, b) leg = Inr (f1, b1)"
    and rest: "fold_r (import_record E p journal_id) (f1, b1) legacy = Inr (f', b')"
    using Cons.prems(1) by (auto split: prod.splits)
  obtain r where r: "imported E p journal_id f1 b1 (L @ [r])" "jr_entry r = jr_entry leg" "jr_status r = jr_status leg"
    using import_step [OF Cons.prems(2) assms(3,4) _ s] Cons.prems(3) by auto
  obtain N where "imported E p journal_id f' b' ((L @ [r]) @ N)"
    "map (\<lambda>r. (jr_entry r, jr_status r)) N = map (\<lambda>r. (jr_entry r, jr_status r)) legacy"
    using Cons.IH [OF rest r(1)] Cons.prems(3) by auto
  with r show ?case by (intro exI [of _ "r # N"]) simp
qed

lemma read_record_wf: "read_record E d p x y = Inr q \<Longrightarrow> wf_entry (jr_entry q) \<and> 0 < jr_span q"
  using decode_payload_wf read_record_span_pos [of E d p x y q]
  by (auto simp: read_record_def Let_def split: prod.splits)

lemma scan_legacy_wf:
  "scan_legacy E sysconf d a = Inr rs \<Longrightarrow> r \<in> set rs \<Longrightarrow> wf_entry (jr_entry r)"
proof (induction "length d - a" arbitrary: a rs rule: less_induct)
  case less
  have ih: "wf_entry (jr_entry r)" if "scan_legacy E sysconf d a' = Inr rs'" "r \<in> set rs'" "a < a'" "a < length d" for a' rs'
    using less(1) [of a' rs'] that by auto
  have pg: "a < a + page_size sysconf" by simp
  have ihs: "wf_entry (jr_entry r)" if "scan_legacy E sysconf d (a + n) = Inr rs'" "r \<in> set rs'" "0 < n" "a < length d" for n rs'
    using ih [OF that(1,2) _ that(4)] that(3) by simp
  show ?case
  proof (cases "a < length d")
    case False
    then show ?thesis using less(2,3) by (subst (asm) scan_legacy.simps) simp
  next
    case True
    then show ?thesis using less(2,3)
      by (subst (asm) scan_legacy.simps)
        (auto split: if_splits option.splits sum.splits simp del: page_size_pos
          intro: ih [OF _ _ pg True] ih [OF _ _ _ True] ihs [OF _ _ _ True] dest!: read_record_wf)
  qed
qed

lemma initial_markers:
  fixes b :: JournalBoundary
  assumes "env_ok E" and "page_ok p" and "wf_boundary b"
    and "\<And>g. marker_shape p (g mod 2) \<lparr>pm_generation = g, pm_replay_start = p, pm_boundary = b\<rparr>"
  defines "m \<equiv> \<lambda>g. \<lparr>pm_generation = g, pm_replay_start = p, pm_boundary = b\<rparr>"
  defines "mk1 \<equiv> fst (write_publication_marker E no_faults 0 (synced_file (set_len_bytes [] (PUBLICATION_SLOT_SIZE * 2))) (m 0))"
  shows "mk_ok E p (fst (write_publication_marker E no_faults 0 mk1 (m 1))) (m 1)"
proof -
  let ?z = "set_len_bytes [] (PUBLICATION_SLOT_SIZE * 2)" and ?e = "encode_publication_marker E (m 0)"
  have wf: "wf_marker (m g)" if "g \<le> 1" for g
    using that assms(2,3) by (simp add: m_def wf_marker_def page_ok_def)
  have le: "length ?e = 172" by (rule marker_encoding [OF wf assms(1)]) simp
  have lz: "8192 \<le> length ?z" by (simp add: PUBLICATION_SLOT_SIZE_def)
  have mk1: "mk1 = synced_file (write_at ?z ?e 0)"
    by (simp add: mk1_def write_publication_marker_def vf_write_def vf_sync_def no_faults_def m_def)
  have s0: "slot_of (vf_data mk1) 0 = Some ?e" using write_slot_same [OF lz le, of 0] by (simp add: mk1)
  have "slot_of (vf_data mk1) 1 = slot_of ?z 1" using write_slot_other [OF lz, of ?e 0] le by (simp add: mk1)
  also have "\<dots> = Some (replicate 172 0)"
    by (simp add: slot_of_def read_exact_at_def PUBLICATION_SLOT_SIZE_def set_len_bytes_def sub_def)
  finally have s1: "slot_of (vf_data mk1) 1 = Some (replicate 172 0)" .
  have "\<not> slot_valid E journal_id (replicate 172 0)" for journal_id
  proof
    assume "slot_valid E journal_id (replicate 172 0)"
    then have "PUBLICATION_MAGIC = replicate 8 0" by (simp add: slot_valid_def sub_def)
    then have "hd PUBLICATION_MAGIC = 0" by (metis hd_replicate zero_neq_numeral)
    then show False by (simp add: PUBLICATION_MAGIC_def ascii_def)
  qed
  then have "mk_ok E p mk1 (m 0)"
    using s0 s1 wf [of 0] assms(4) [of 0] lz
    by (simp add: mk_ok_def slot_holds_def slot_stale_def m_def) (simp add: mk1 le)
  moreover have "follows p (m 1) (m 0)"
    using wf [of 1] assms(4) [of 1] by (simp add: follows_def extends_def m_def durable_def)
  ultimately show ?thesis
    using write_marker_ok [of E p mk1 "m 0" "m 1" no_faults 0] assms(1)
    by (simp add: write_publication_marker_def vf_write_def vf_sync_def no_faults_def)
qed

lemma imported_boundary:
  assumes "imported E p journal_id f b L" and "env_ok E" and "page_ok p" and "length journal_id = 32"
  shows "wf_boundary b" and "marker_shape p (g mod 2) \<lparr>pm_generation = g, pm_replay_start = p, pm_boundary = b\<rparr>"
    and "published_in E p (vf_data f) \<lparr>pm_generation = g, pm_replay_start = p, pm_boundary = b\<rparr> L"
    and "jb_journal_id b = journal_id"
proof -
  note i = assms(1) [unfolded imported_def]
  have b: "b = last_boundary L journal_id 0 p" using i by simp
  have st: "\<And>r. r \<in> set L \<Longrightarrow> stored E p (vf_data f) r" and ch: "chain p L (jb_end b)" using i by auto
  have lastL: "L \<noteq> [] \<Longrightarrow> last L \<in> set L" by simp
  show "wf_boundary b"
    using stored_wf_boundary [OF st [OF lastL] assms(2,4)] assms(3,4)
    by (cases "L = []") (auto simp: b last_boundary_def empty_boundary_def wf_boundary_def page_ok_def)
  show id: "jb_journal_id b = journal_id"
    by (simp add: b last_boundary_def empty_boundary_def record_boundary_def)
  have sp: "\<forall>r\<in>set L. jr_span r mod p = 0" using st stored_span by blast
  note al = chain_aligned [OF ch _ sp]
  have "p \<le> jb_offset b \<and> jb_offset b < jb_end b \<and> jb_offset b mod p = 0" if "p < jb_end b"
  proof -
    have L: "L \<noteq> []" using ch that by auto
    then have "jb_offset b = jr_offset (last L)" by (simp add: b last_boundary_def record_boundary_def)
    then show ?thesis
      using al(2) [OF _ lastL [OF L]] chain_bounds [OF ch lastL [OF L]] chain_span [OF ch lastL [OF L]] by auto
  qed
  then show "marker_shape p (g mod 2) \<lparr>pm_generation = g, pm_replay_start = p, pm_boundary = b\<rparr>"
    using al(1) i by (auto simp: marker_shape_def not_less)
  show "published_in E p (vf_data f) \<lparr>pm_generation = g, pm_replay_start = p, pm_boundary = b\<rparr> L"
    using ch st id by (auto simp: published_in_def durable_def b last_boundary_def empty_boundary_def record_boundary_def)
qed

lemma initialize_opens:
  fixes E :: "'h journal_env"
  assumes "env_ok E" and p: "page_ok (page_size sysconf)" and "length journal_id = 32"
    and legacy: "(case jd_wal dir of Some f \<Rightarrow> vf_data f | None \<Rightarrow> []) = d" "read_exact_at d 8 0 \<noteq> Some WAL_MAGIC"
    and "jd_published dir = None \<or> jd_initialize dir \<noteq> None"
    and "scan_legacy E sysconf d 0 = Inr rs"
    and fold: "fold_r (import_record E (page_size sysconf) journal_id)
      (synced_file (write_at (set_len_bytes [] (page_size sysconf)) (superblock_bytes E (page_size sysconf) journal_id) 0),
       empty_boundary journal_id 0 (page_size sysconf)) rs = Inr (f, b)"
  shows "\<exists>dir' j. ForestJournal_open E sysconf journal_id dir = Inr (dir', j) \<and>
    map (\<lambda>r. (jr_entry r, jr_status r)) (fj_records j) = map (\<lambda>r. (jr_entry r, jr_status r)) rs \<and>
    journal_inv E (page_size sysconf) journal_id (fresh_sys j) \<and>
    pm_generation (fj_marker j) = 1 \<and> fj_appended_end j = jb_end b"
proof -
  let ?p = "page_size sysconf"
  let ?m = "\<lambda>g. \<lparr>pm_generation = g, pm_replay_start = ?p, pm_boundary = b\<rparr>"
  note sb = superblock_written [OF assms(1) p assms(3)]
  have "imported E ?p journal_id (synced_file (write_at (set_len_bytes [] ?p) (superblock_bytes E ?p journal_id) 0))
      (empty_boundary journal_id 0 ?p) []"
    using sb by (simp add: imported_def empty_boundary_def last_boundary_def)
  from import_fold [OF fold this assms(1) p] scan_legacy_wf [OF assms(7)]
  obtain L where L: "imported E ?p journal_id f b L"
    "map (\<lambda>r. (jr_entry r, jr_status r)) L = map (\<lambda>r. (jr_entry r, jr_status r)) rs" by auto
  note ib = imported_boundary [OF L(1) assms(1) p assms(3)]
  define mk where "mk = fst (write_publication_marker E no_faults 0 (fst (write_publication_marker E no_faults 0
      (synced_file (set_len_bytes [] (PUBLICATION_SLOT_SIZE * 2))) (?m 0))) (?m 1))"
  have mk: "mk_ok E ?p mk (?m 1)" unfolding mk_def by (rule initial_markers [OF assms(1) p ib(1,2)])
  have mks: "mk = synced_file (vf_data mk)" using mk by (cases mk) (simp add: mk_ok_def synced_file_def)
  have mk': "mk_ok E ?p (synced_file (vf_data mk)) (?m 1)" using mk mks by simp
  have len: "length (vf_data f) = jb_end b" and sbf: "read_superblock E (vf_data f) = Inr (?p, journal_id)"
    using L(1) by (simp_all add: imported_def)
  have dur: "durable (?m 1) = ?m 1"
    using L(1) by (auto simp: durable_def imported_def last_boundary_def empty_boundary_def record_boundary_def)
  have rm: "read_publication_marker E (vf_data mk) journal_id ?p = Inr (?m 1)"
    using mk_ok_read [OF mk' assms(1)] ib(4) dur by simp
  have sc: "scan_published E (vf_data f) ?p (?m 1) = Inr L"
    using scan_published_in [OF ib(3) assms(1), of 1] dur by simp
  obtain dir1 clean where t: "take_clean_shutdown_marker dir = (dir1, clean)" by (metis surj_pair)
  have d1: "jd_wal dir1 = jd_wal dir" "jd_published dir1 = jd_published dir" "jd_initialize dir1 = jd_initialize dir"
    using t by (auto simp: take_clean_shutdown_marker_def split: option.splits)
  have d: "vf_data (case jd_wal dir1 of Some f \<Rightarrow> f | None \<Rightarrow> synced_file []) = d"
    using legacy(1) d1(1) by (simp split: option.splits)
  have init: "initialize_journal E sysconf journal_id dir1 d =
      Inr (dir1\<lparr>jd_wal := Some (synced_file (vf_data f)), jd_published := Some mk, jd_initialize := None\<rparr>)"
    using assms(7) fold by (simp add: initialize_journal_def Let_def mk_def)
  let ?j = "reopened ?p journal_id (vf_data f) (vf_data mk) (?m 1) L (\<not> clean)"
  have "\<exists>dir'. ForestJournal_open E sysconf journal_id dir = Inr (dir', ?j)"
    unfolding ForestJournal_open_def t Let_def prod.case d
    using legacy(2) assms(6) d1 init sbf rm sc len dur mks by (simp add: reopened_def Let_def)
  moreover have "journal_inv E ?p journal_id (fresh_sys ?j)"
    by (rule reopened_live [OF mk' ib(3) sbf _ assms(1) p assms(3)]) (use len ib(4) in auto)
  moreover have "fj_records ?j = L" "pm_generation (fj_marker ?j) = 1" "fj_appended_end ?j = jb_end b"
    by (simp_all add: reopened_def Let_def)
  ultimately show ?thesis using L(2) by auto
qed

end
