(* ===== verification/Persistence.thy ===== *)
theory Persistence
  imports Header_Index Chain_View Window_Apply Journal_Recovery
begin

text \<open>
  The persistence worker of \<open>src/src/prover.rs\<close>: the only writer of the steady-state stores. A window
  of blocks is published in the journal, then its proofs, headers, index entries and forest changes
  are stored, in that order, and the height is committed; barriers sync, resize, repair and roll
  back; and a start-up recovers all stores from the journal. The channels and the thread that carry
  the commands, the timing counters and the test hooks are not modelled.
\<close>

section \<open>State\<close>

text \<open>The external code of all the stores.\<close>

record ('h, 'd, 'x, 's) stores_env =
  se_journal :: "'h journal_env"
  se_forest :: "'d forest_env"
  se_index :: "'x index_db"
  se_kv :: "'s kv_ops"

abbreviation se_hdr :: "('h, 'd, 'x, 's) stores_env \<Rightarrow> 'h header_ops" where
  "se_hdr P \<equiv> e_hdr (se_journal P)"

abbreviation se_cons :: "('h, 'd, 'x, 's) stores_env \<Rightarrow> consensus" where
  "se_cons P \<equiv> e_cons (se_journal P)"

record 'h PersistenceBlock =
  pb_entry :: JournalEntry
  pb_header :: 'h
  pb_proof :: CompactBlockProof
  pb_proof_forest_rows :: u8

text \<open>\<open>ps_notified\<close> is what was sent to the block notification channel.\<close>

record ('h, 'd, 'x, 's) PersistenceState =
  ps_forest :: "'d SteadyStateForest"
  ps_journal :: "'h ForestJournal"
  ps_dir :: journal_dir
  ps_proof_file :: ProofFile
  ps_proof_index :: 's
  ps_header_index :: "'x HeaderIndex"
  ps_notified :: "bytes list"
  ps_height :: u32
  ps_tip_hash :: bytes
  ps_bootstrap_height :: u32

record DurableTip =
  dt_height :: u32
  dt_hash :: bytes
  dt_leaves :: u64
  dt_roots :: "bytes list"

datatype PersistenceBarrier = Sync bool | Resize u64 | DiscardUnpublished | Rollback u32 bytes | Repair OutPoint u64

text \<open>What may go wrong in one call, store by store. \<open>io_torn\<close> is what an application of a window that
  stopped in the middle leaves of the forest.\<close>

record 'd persist_io =
  io_publish :: faults
  io_append :: faults
  io_proof_sync :: faults
  io_header :: "nat \<Rightarrow> faults"
  io_header_sync :: faults
  io_journal :: faults
  io_prune :: faults
  io_truncate :: faults
  io_torn :: "'d SteadyStateForest \<Rightarrow> 'd SteadyStateForest"

text \<open>An operation of one store, inside the whole state.\<close>

definition on_store :: "('p \<Rightarrow> 'st \<Rightarrow> 'st) \<Rightarrow> 'st \<Rightarrow> 'p \<times> 'a res \<Rightarrow> 'st \<times> 'a res" where
  "on_store upd s m = (upd (fst m) s, snd m)"

abbreviation set_journal where "set_journal \<equiv> (\<lambda>x s. s\<lparr>ps_journal := x\<rparr>)"
abbreviation set_proof_file where "set_proof_file \<equiv> (\<lambda>x s. s\<lparr>ps_proof_file := x\<rparr>)"
abbreviation set_proof_index where "set_proof_index \<equiv> (\<lambda>x s. s\<lparr>ps_proof_index := x\<rparr>)"
abbreviation set_header_index where "set_header_index \<equiv> (\<lambda>x s. s\<lparr>ps_header_index := x\<rparr>)"
abbreviation set_forest where "set_forest \<equiv> (\<lambda>x s. s\<lparr>ps_forest := x\<rparr>)"

text \<open>A forest operation: on an error the forest is what \<open>torn\<close> says.\<close>

definition forest_step :: "'d SteadyStateForest \<Rightarrow> 'd SteadyStateForest \<Rightarrow> 'd SteadyStateForest res \<Rightarrow> 'd SteadyStateForest \<times> unit res" where
  "forest_step torn s m = (case m of Inl e \<Rightarrow> (torn, Inl e) | Inr s' \<Rightarrow> (s', Inr ()))"

section \<open>Persisting a window\<close>

fun extends_tip :: "u32 \<Rightarrow> bytes \<Rightarrow> 'h PersistenceBlock list \<Rightarrow> bool" where
  "extends_tip height hash [] = True"
| "extends_tip height hash (b # bs) \<longleftrightarrow>
     je_height (pb_entry b) = height + 1 \<and> je_previous_block_hash (pb_entry b) = hash \<and>
     extends_tip (je_height (pb_entry b)) (je_block_hash (pb_entry b)) bs"

fun append_proofs :: "consensus \<Rightarrow> faults \<Rightarrow> nat \<Rightarrow> ProofFile \<Rightarrow> 'h PersistenceBlock list \<Rightarrow> ProofFile \<times> (BlockIndex \<times> bytes) list res" where
  "append_proofs C io i pf [] = (pf, Inr [])"
| "append_proofs C io i pf (b # bs) =
     bind_s (append_proof C io i pf (pb_proof b)) (\<lambda>pf index.
       if get_proof C pf index \<noteq> Some (pb_proof b) then (pf, bail ''failed to read back compact proof'')
       else bind_s (append_proofs C io (i + 1) pf bs) (\<lambda>pf indexes.
         (pf, Inr ((index\<lparr>bi_proof_forest_rows := Some (pb_proof_forest_rows b)\<rparr>, je_block_hash (pb_entry b)) # indexes))))"

fun put_headers :: "'x index_db \<Rightarrow> 'h header_ops \<Rightarrow> (nat \<Rightarrow> faults) \<Rightarrow> nat \<Rightarrow> 'x HeaderIndex \<Rightarrow> 'h PersistenceBlock list \<Rightarrow> 'x HeaderIndex \<times> unit res" where
  "put_headers D H io i ix [] = (ix, Inr ())"
| "put_headers D H io i ix (b # bs) =
     bind_s (HeaderIndex_put D H (io i) ix (je_height (pb_entry b)) (pb_header b)) (\<lambda>ix _.
       put_headers D H io (i + 1) ix bs)"

text \<open>Pruning keeps 144 forward records; a failure to reclaim the space is only logged.\<close>

definition prune_journal :: "'h journal_env \<Rightarrow> faults \<Rightarrow> 'h ForestJournal \<Rightarrow> 'h ForestJournal \<times> unit res" where
  "prune_journal E io j =
     bind_s (prepare_prune j 144) (\<lambda>j prune.
       (case prune of Some p \<Rightarrow> fst (prune_finish E io j p) | None \<Rightarrow> j, Inr ()))"

text \<open>The stores that follow the publication, and the commit of the height.\<close>

definition persist_stores ::
  "('h, 'd, 'x, 's) stores_env \<Rightarrow> 'd persist_io \<Rightarrow> ('h, 'd, 'x, 's) PersistenceState \<Rightarrow> 'h PersistenceBlock list \<Rightarrow>
   ('h, 'd, 'x, 's) PersistenceState \<times> unit res" where
  "persist_stores P io s blocks =
     bind_s (on_store set_proof_file s (append_proofs (se_cons P) (io_append io) 0 (ps_proof_file s) blocks)) (\<lambda>s indexes.
     bind_s (on_store set_proof_file s (ProofFile_sync (io_proof_sync io) 0 (ps_proof_file s))) (\<lambda>s _.
     bind_s (on_store set_header_index s (put_headers (se_index P) (se_hdr P) (io_header io) 0 (ps_header_index s) blocks)) (\<lambda>s _.
     bind_s (on_store set_header_index s (HeaderIndex_sync (se_index P) (io_header_sync io) (ps_header_index s))) (\<lambda>s _.
     bind_s (on_store set_proof_index s (append_batch (se_kv P) (ps_proof_index s) indexes)) (\<lambda>s _.
     bind_s (on_store set_forest s (forest_step (io_torn io (ps_forest s)) (ps_forest s)
               (apply_forward_batch (se_forest P) (ps_forest s) (map pb_entry blocks)))) (\<lambda>s _.
     bind_s (on_store set_forest s (forest_step (ps_forest s) (ps_forest s) (sync (se_forest P) (ps_forest s)))) (\<lambda>s _.
     on_store set_proof_index s (update_height (se_kv P) (ps_proof_index s)
       (ucast (je_height (pb_entry (last blocks))))))))))))"

definition persist ::
  "('h, 'd, 'x, 's) stores_env \<Rightarrow> 'd persist_io \<Rightarrow> ('h, 'd, 'x, 's) PersistenceState \<Rightarrow> 'h PersistenceBlock list \<Rightarrow> JournalBoundary \<Rightarrow>
   ('h, 'd, 'x, 's) PersistenceState \<times> nat res" where
  "persist P io s blocks bnd =
     (if blocks = [] then (s, bail ''empty persistence batch'')
      else if \<not> extends_tip (ps_height s) (ps_tip_hash s) blocks
      then (s, bail ''persistence batch does not extend the durable tip'')
      else
        bind_s (on_store set_journal s (publish (se_journal P) (io_publish io) (ps_journal s) bnd)) (\<lambda>s _.
        bind_s (persist_stores P io s blocks) (\<lambda>s _.
        let s = s\<lparr>ps_height := je_height (pb_entry (last blocks)), ps_tip_hash := je_block_hash (pb_entry (last blocks))\<rparr> in
        bind_s (on_store set_journal s (prune_journal (se_journal P) (io_prune io) (ps_journal s))) (\<lambda>s _.
          (s\<lparr>ps_notified := ps_notified s @ map (\<lambda>b. je_block_hash (pb_entry b)) blocks\<rparr>, Inr (length blocks))))))"

text \<open>After an error the in-memory allocators of the databases are sealed; the error is reported.\<close>

definition finish_failed ::
  "('h, 'd, 'x, 's) stores_env \<Rightarrow> 'd persist_io \<Rightarrow> ('h, 'd, 'x, 's) PersistenceState \<Rightarrow> ('h, 'd, 'x, 's) PersistenceState" where
  "finish_failed P io s =
     (let s = fst (on_store set_forest s (forest_step (ps_forest s) (ps_forest s) (sync (se_forest P) (ps_forest s))))
      in fst (on_store set_header_index s (HeaderIndex_sync (se_index P) (io_header_sync io) (ps_header_index s))))"

section \<open>Barriers\<close>

definition journal_flush :: "faults \<Rightarrow> 'h ForestJournal \<Rightarrow> 'h ForestJournal \<times> unit res" where
  "journal_flush io j = (case vf_sync io 0 (fj_wal j) of (f, r) \<Rightarrow> (j\<lparr>fj_wal := f\<rparr>, r))"

definition saturating_sub_one :: "u32 \<Rightarrow> u32" where
  "saturating_sub_one h = (if h = 0 then 0 else h - 1)"

text \<open>The rollback of the newest block, once the journal has marked it.\<close>

definition rollback_stores ::
  "('h, 'd, 'x, 's) stores_env \<Rightarrow> 'd persist_io \<Rightarrow> ('h, 'd, 'x, 's) PersistenceState \<Rightarrow> JournalEntry \<Rightarrow>
   ('h, 'd, 'x, 's) PersistenceState \<times> unit res" where
  "rollback_stores P io s entry =
     bind_s (on_store set_forest s (forest_step (io_torn io (ps_forest s)) (ps_forest s)
               (apply_backward (se_forest P) (ps_forest s) entry))) (\<lambda>s _.
     bind_s (on_store set_forest s (forest_step (ps_forest s) (ps_forest s) (sync (se_forest P) (ps_forest s)))) (\<lambda>s _.
     bind_s (on_store set_header_index s (HeaderIndex_remove (se_index P) (se_hdr P) (io_header io 0) (ps_header_index s)
               (je_height entry) (je_block_hash entry))) (\<lambda>s _.
     bind_s (on_store set_header_index s (HeaderIndex_sync (se_index P) (io_header_sync io) (ps_header_index s))) (\<lambda>s _.
     bind_s (on_store set_proof_index s (index_remove (se_kv P) (ps_proof_index s) (je_block_hash entry))) (\<lambda>s _.
     let previous_height = saturating_sub_one (je_height entry) in
     bind_s (s, if ps_bootstrap_height s < previous_height
                then bind_r (get_index (se_kv P) (ps_proof_index s) (je_previous_block_hash entry)) (\<lambda>i.
                  bind_r (ok_or i ''proof index is missing rollback destination'') (\<lambda>i. Inr (Some i)))
                else Inr None) (\<lambda>s previous_index.
     bind_s (on_store set_proof_file s (truncate_after (io_truncate io) 0 (ps_proof_file s) previous_index)) (\<lambda>s _.
     bind_s (on_store set_proof_index s (update_height (se_kv P) (ps_proof_index s) (ucast previous_height))) (\<lambda>s _.
       (s\<lparr>ps_height := previous_height, ps_tip_hash := je_previous_block_hash entry\<rparr>, Inr ())))))))))"

fun barrier_operation ::
  "('h, 'd, 'x, 's) stores_env \<Rightarrow> 'd persist_io \<Rightarrow> ('h, 'd, 'x, 's) PersistenceState \<Rightarrow> PersistenceBarrier \<Rightarrow>
   ('h, 'd, 'x, 's) PersistenceState \<times> unit res" where
  "barrier_operation P io s (Sync clean) =
     bind_s (on_store set_forest s (forest_step (ps_forest s) (ps_forest s) (sync (se_forest P) (ps_forest s)))) (\<lambda>s _.
     bind_s (on_store set_journal s (journal_flush (io_journal io) (ps_journal s))) (\<lambda>s _.
     bind_s (on_store set_proof_file s (ProofFile_sync (io_proof_sync io) 0 (ps_proof_file s))) (\<lambda>s _.
     bind_s (on_store set_header_index s (HeaderIndex_sync (se_index P) (io_header_sync io) (ps_header_index s))) (\<lambda>s _.
       on_store set_proof_index s (update_height (se_kv P) (ps_proof_index s) (ucast (ps_height s)))))))"
| "barrier_operation P io s DiscardUnpublished =
     on_store set_journal s (discard_unpublished (io_journal io) (ps_journal s))"
| "barrier_operation P io s (Resize leaves) =
     on_store set_forest s (forest_step (io_torn io (ps_forest s)) (ps_forest s)
       (bind_r (ensure_leaf_capacity (ps_forest s) leaves) (\<lambda>(f, _). Inr f)))"
| "barrier_operation P io s (Repair outpoint position) =
     on_store set_forest s (forest_step (io_torn io (ps_forest s)) (ps_forest s)
       (repair_leaf_position (se_forest P) (ps_forest s) outpoint position))"
| "barrier_operation P io s (Rollback height hash) =
     (if (height, hash) \<noteq> (ps_height s, ps_tip_hash s) then (s, bail ''rollback does not match the durable tip'')
      else
        case latest_forward (ps_journal s) of
          None \<Rightarrow> (s, bail ''reorg exceeds retained journal; rebuild from a newer bootstrap'')
        | Some (index, record) \<Rightarrow>
            if (je_height (jr_entry record), je_block_hash (jr_entry record)) \<noteq> (height, hash)
            then (s, bail ''rollback journal does not match the durable tip'')
            else
              bind_s (on_store set_journal s (mark_rolled_back (io_journal io) (ps_journal s) index)) (\<lambda>s _.
                rollback_stores P io s (jr_entry record)))"

definition barrier ::
  "('h, 'd, 'x, 's) stores_env \<Rightarrow> 'd persist_io \<Rightarrow> ('h, 'd, 'x, 's) PersistenceState \<Rightarrow> PersistenceBarrier \<Rightarrow>
   ('h, 'd, 'x, 's) PersistenceState \<times> DurableTip res" where
  "barrier P io s operation =
     bind_s (barrier_operation P io s operation) (\<lambda>s _.
     bind_s (s, roots (se_forest P) (ps_forest s)) (\<lambda>s rs.
     let tip = \<lparr>dt_height = ps_height s, dt_hash = ps_tip_hash s, dt_leaves = sf_leaves (ps_forest s), dt_roots = rs\<rparr> in
     if operation = Sync True
     then bind_s (s, mark_clean_shutdown (ps_dir s) (ps_journal s)) (\<lambda>s dir. (s\<lparr>ps_dir := dir\<rparr>, Inr tip))
     else (s, Inr tip)))"


section \<open>The stores, one by one\<close>

lemma on_store_simps [simp]: "fst (on_store upd s m) = upd (fst m) s" "snd (on_store upd s m) = snd m"
  by (simp_all add: on_store_def)

lemma bind_s_Inr:
  "bind_s m k = (s', Inr y) \<longleftrightarrow> (\<exists>s x. m = (s, Inr x) \<and> k s x = (s', Inr y))"
  by (auto simp: bind_s_def split: prod.splits sum.splits)

lemma on_store_Inr: "on_store upd s m = (s', Inr y) \<longleftrightarrow> (\<exists>p. m = (p, Inr y) \<and> s' = upd p s)"
  by (cases m) (auto simp: on_store_def)

lemma forest_step_Inr: "forest_step torn s m = (f, Inr ()) \<longleftrightarrow> m = Inr f"
  by (auto simp: forest_step_def split: sum.splits)

text \<open>The proof file: the writer is at or past the end.\<close>

definition pf_ok :: "ProofFile \<Rightarrow> bool" where
  "pf_ok pf \<longleftrightarrow> length (vf_data (pf_file pf)) \<le> unat (pf_writer_pos pf)"

lemma get_proof_rows [simp]: "get_proof C pf (i\<lparr>bi_proof_forest_rows := x\<rparr>) = get_proof C pf i"
  by (simp add: get_proof_def contains_def)

lemma get_proof_same_range:
  assumes "\<And>a b. b \<le> length d \<Longrightarrow> sub d' a b = sub d a b" and "length d \<le> length d'"
    and "vf_data (pf_file pf) = d" and "vf_data (pf_file pf') = d'" and "get_proof C pf i = Some q"
  shows "get_proof C pf' i = Some q"
proof -
  have c: "contains pf i" using assms(5) by (auto simp: get_proof_def split: if_splits)
  then obtain e where e: "checked_add (bi_offset i) (bi_size i) = Some e" "unat e \<le> length d"
    using assms(3) by (auto simp: contains_def split: option.splits)
  then have r: "unat (bi_offset i) + unat (bi_size i) \<le> length d" using checked_add_Some [OF e(1)] by simp
  have "contains pf' i" using c assms(2-4) by (auto simp: contains_def split: option.splits)
  moreover have "read_exact_at d' (unat (bi_size i)) (unat (bi_offset i)) = read_exact_at d (unat (bi_size i)) (unat (bi_offset i))"
    using r assms(1,2) by (simp add: read_exact_at_def)
  ultimately show ?thesis using assms(3-5) c by (simp add: get_proof_def)
qed

lemma append_proof_keeps:
  assumes "pf_ok pf" and "append_proof C io k pf p = (pf', r)"
  shows "pf_ok pf'" and "get_proof C pf i = Some q \<Longrightarrow> get_proof C pf' i = Some q"
proof -
  let ?d = "vf_data (pf_file pf)" and ?pos = "unat (pf_writer_pos pf)" and ?b = "fst (CompactBlockProof_encode C p)"
  have "pf' = pf \<or> (\<exists>n. vf_data (pf_file pf') = write_at ?d (take n ?b) ?pos \<and> unat (pf_writer_pos pf') = ?pos + length ?b)"
  proof (cases "reserve C pf p")
    case (Pair pf1 r1)
    show ?thesis
    proof (cases r1)
      case (Inl e)
      then have "pf1 = pf" using Pair by (auto simp: reserve_def Let_def split: if_splits option.splits)
      then show ?thesis using assms(2) Pair Inl by (simp add: append_proof_def)
    next
      case (Inr x)
      then have b: "x = (?b, pf_writer_pos pf)" "length ?b \<le> MAX_COMPACT_PROOF_BYTES" "pf_file pf1 = pf_file pf"
        and c: "checked_add (pf_writer_pos pf) (of_nat (length ?b)) = Some (pf_writer_pos pf1)"
        using Pair by (auto simp: reserve_def Let_def split: if_splits option.splits)
      have "unat (of_nat (length ?b) :: u64) = length ?b"
        using b(2) by (intro unat_of_nat_small) (simp add: MAX_COMPACT_PROOF_BYTES_def)
      then have pos: "unat (pf_writer_pos pf1) = ?pos + length ?b" using checked_add_Some [OF c] by simp
      obtain n where "vf_data (fst (vf_write io k (pf_file pf) ?b ?pos)) = write_at ?d (take n ?b) ?pos"
        by (cases "io k") (auto simp: vf_write_def put_data_def intro: that [of "length ?b"] that)
      then show ?thesis using assms(2) Pair Inr b pos
        by (auto simp: append_proof_def write_reserved_def split: prod.splits)
    qed
  qed
  then show "pf_ok pf'" and "get_proof C pf i = Some q \<Longrightarrow> get_proof C pf' i = Some q"
  proof -
    assume a: "pf' = pf \<or> (\<exists>n. vf_data (pf_file pf') = write_at ?d (take n ?b) ?pos \<and> unat (pf_writer_pos pf') = ?pos + length ?b)"
    then show "pf_ok pf'" using assms(1) by (auto simp: pf_ok_def)
    show "get_proof C pf' i = Some q" if "get_proof C pf i = Some q"
      using a
    proof
      assume "\<exists>n. vf_data (pf_file pf') = write_at ?d (take n ?b) ?pos \<and> unat (pf_writer_pos pf') = ?pos + length ?b"
      then obtain n where d': "vf_data (pf_file pf') = write_at ?d (take n ?b) ?pos" by blast
      show ?thesis
      proof (rule get_proof_same_range [OF _ _ refl refl that])
        show "sub (vf_data (pf_file pf')) a b = sub ?d a b" if "b \<le> length ?d" for a b
          unfolding d' using that assms(1) by (intro sub_write_other) (auto simp: pf_ok_def)
      qed (simp add: d')
    qed (use that in simp)
  qed
qed

lemma append_proofs_spec:
  assumes "pf_ok pf" and "append_proofs C io i pf blocks = (pf', Inr indexes)"
  shows "pf_ok pf' \<and> (\<forall>j q. get_proof C pf j = Some q \<longrightarrow> get_proof C pf' j = Some q) \<and>
    list_all2 (\<lambda>b (index, hash). hash = je_block_hash (pb_entry b) \<and> get_proof C pf' index = Some (pb_proof b) \<and>
      bi_proof_forest_rows index = Some (pb_proof_forest_rows b)) blocks indexes"
  using assms
proof (induction blocks arbitrary: pf i indexes)
  case Nil
  then show ?case by simp
next
  case (Cons b bs)
  obtain pf1 index where a: "append_proof C io i pf (pb_proof b) = (pf1, Inr index)"
    using Cons.prems(2) by (auto simp: bind_s_Inr)
  have rb: "get_proof C pf1 index = Some (pb_proof b)" using Cons.prems(2) a by (auto split: if_splits)
  obtain ixs where rest: "append_proofs C io (i + 1) pf1 bs = (pf', Inr ixs)"
    and ix: "indexes = (index\<lparr>bi_proof_forest_rows := Some (pb_proof_forest_rows b)\<rparr>, je_block_hash (pb_entry b)) # ixs"
    using Cons.prems(2) a rb by (auto simp: bind_s_Inr)
  note keep = append_proof_keeps [OF Cons.prems(1) a]
  from Cons.IH [OF keep(1) rest] keep(2) rb show ?case by (simp add: ix)
qed

text \<open>The header index.\<close>

definition batch_heights_ok :: "'h header_ops \<Rightarrow> (u32 \<Rightarrow> 'h option) \<Rightarrow> 'h PersistenceBlock list \<Rightarrow> bool" where
  "batch_heights_ok H c blocks \<longleftrightarrow>
     distinct (map (\<lambda>b. hash_key (h_block_hash H (pb_header b))) blocks) \<and>
     (\<forall>b\<in>set blocks. key_free H (je_height (pb_entry b)) (pb_header b) c \<and> h_enc H (pb_header b) \<noteq> replicate 80 0)"

lemma put_headers_spec:
  assumes "index_db_ok D" and "header_ok H" and "consistent D H ix" and "batch_heights_ok H (chain_of H ix) blocks"
    and "put_headers D H io i ix blocks = (ix', Inr ())"
  shows "consistent D H ix' \<and> chain_of H ix' = fold (\<lambda>b c. c(je_height (pb_entry b) \<mapsto> pb_header b)) blocks (chain_of H ix)"
  using assms(3-5)
proof (induction blocks arbitrary: ix i)
  case Nil
  then show ?case by simp
next
  case (Cons b bs)
  obtain ix1 where p: "HeaderIndex_put D H (io i) ix (je_height (pb_entry b)) (pb_header b) = (ix1, Inr ())"
    and rest: "put_headers D H io (i + 1) ix1 bs = (ix', Inr ())"
    using Cons.prems(3) by (auto simp: bind_s_Inr)
  have inv: "consistent D H ix1" "chain_of H ix1 = (chain_of H ix)(je_height (pb_entry b) \<mapsto> pb_header b)"
    using put_consistent [OF assms(1,2) Cons.prems(1) _ _ p] Cons.prems(2) by (simp_all add: batch_heights_ok_def)
  have "batch_heights_ok H (chain_of H ix1) bs"
    using Cons.prems(2) unfolding batch_heights_ok_def inv(2) key_free_def by (auto split: if_splits)
  from Cons.IH [OF inv(1) this rest] show ?case unfolding inv(2) by simp
qed

lemma fold_heights_last:
  assumes "distinct (map f blocks)" and "b \<in> set blocks"
  shows "fold (\<lambda>b c. c(f b \<mapsto> g b)) blocks c (f b) = Some (g b)"
proof -
  have other: "fold (\<lambda>b c. c(f b \<mapsto> g b)) bs c k = c k" if "k \<notin> f ` set bs" for bs c k
    using that by (induction bs arbitrary: c) auto
  show ?thesis using assms
  proof (induction blocks arbitrary: c)
    case (Cons x xs)
    show ?case
    proof (cases "b \<in> set xs")
      case True
      then show ?thesis using Cons by simp
    next
      case False
      then have "b = x" "f b \<notin> f ` set xs" using Cons.prems by auto
      then show ?thesis using other [of "f b" xs "c(f b \<mapsto> g b)"] by (simp del: fun_upd_apply add: fun_upd_same)
    qed
  qed simp
qed


text \<open>The index of the proofs.\<close>

lemma kv_flush_view: "kv_ok K \<Longrightarrow> kv_view K (fst (kv_flush K s b)) = kv_view K s"
  unfolding kv_ok_def by blast

lemma set_indexes_spec:
  assumes "kv_ok K" and "set_indexes K px indexes = (px', Inr ())" and "distinct (map snd indexes)"
  shows "(\<forall>b. b \<noteq> ''index'' \<longrightarrow> kv_view K px' b = kv_view K px b) \<and>
    (\<forall>h. h \<notin> snd ` set indexes \<longrightarrow> kv_view K px' ''index'' h = kv_view K px ''index'' h) \<and>
    (\<forall>(index, h)\<in>set indexes. \<exists>raw. kv_view K px' ''index'' h = Some raw \<and> from_raw_value raw = Inr (Index index))"
  using assms(2,3)
proof (induction indexes arbitrary: px)
  case Nil
  then show ?case by simp
next
  case (Cons x xs)
  obtain index h where x: "x = (index, h)" by fastforce
  obtain raw px1 where raw: "to_raw_value (Index index) = Inr raw" and s: "kv_set K px ''index'' h raw = (px1, Inr ())"
    and rest: "set_indexes K px1 xs = (px', Inr ())"
    using Cons.prems(1) unfolding x by (auto simp: bind_s_Inr simp del: to_raw_value.simps)
  have v: "kv_view K px1 = (kv_view K px)(''index'' := (kv_view K px ''index'')(h \<mapsto> raw))" using kv_set_view [OF assms(1) s] .
  have "h \<notin> snd ` set xs" using Cons.prems(2) x by simp
  then show ?case using Cons.IH [OF rest] Cons.prems(2) v from_raw_to_raw [OF raw] by (auto simp: x)
qed

lemma append_batch_spec:
  assumes "kv_ok K" and "append_batch K px indexes = (px', Inr ())" and "distinct (map snd indexes)" and "(index, h) \<in> set indexes"
  shows "\<exists>raw. kv_view K px' ''index'' h = Some raw \<and> from_raw_value raw = Inr (Index index)"
proof -
  obtain px1 where "set_indexes K px indexes = (px1, Inr ())" and f: "kv_flush K px1 ''index'' = (px', Inr ())"
    using assms(2) by (auto simp: append_batch_def bind_s_Inr)
  moreover have "kv_view K px' = kv_view K px1" using kv_flush_view [OF assms(1), of px1 "''index''"] f by simp
  ultimately show ?thesis using set_indexes_spec [OF assms(1) _ assms(3)] assms(4) by fastforce
qed

lemma update_height_spec:
  assumes "kv_ok K" and "update_height K px height = (px', Inr ())"
  shows "kv_view K px' ''index'' = kv_view K px ''index''" and "load_height K px' = Inr r \<Longrightarrow> r = height"
proof -
  obtain px1 where s: "kv_set K px ''meta'' (ascii ''height'') (be_bytes 8 height) = (px1, Inr ())"
    and f: "kv_flush K px1 ''meta'' = (px', Inr ())"
    using assms(2) by (auto simp: update_height_def bind_s_Inr)
  have v: "kv_view K px' = (kv_view K px)(''meta'' := (kv_view K px ''meta'')(ascii ''height'' \<mapsto> be_bytes 8 height))"
    using kv_flush_view [OF assms(1), of px1 "''meta''"] f kv_set_view [OF assms(1) s] by simp
  then show "kv_view K px' ''index'' = kv_view K px ''index''" by simp
  assume "load_height K px' = Inr r"
  then show "r = height" using v kv_get_view [OF assms(1), of px' "''meta''" "ascii ''height''"]
    by (auto simp: load_height_def split: option.splits)
qed

section \<open>A persisted window is stored everywhere\<close>

lemma extends_tip_heights:
  "extends_tip height hash blocks \<Longrightarrow> map (\<lambda>b. je_height (pb_entry b)) blocks = map (\<lambda>i. height + of_nat (i + 1)) [0..<length blocks]"
proof (induction blocks arbitrary: height hash)
  case Nil
  then show ?case by simp
next
  case (Cons b bs)
  have "map (\<lambda>b. je_height (pb_entry b)) bs = map (\<lambda>i. height + 1 + of_nat (i + 1)) [0..<length bs]"
    using Cons.IH [of "height + 1" "je_block_hash (pb_entry b)"] Cons.prems by fastforce
  moreover have "map (\<lambda>i. height + of_nat (i + 1)) [0..<Suc n] = (height + 1) # map (\<lambda>i. height + 1 + of_nat (i + 1)) [0..<n]" for n
    by (rule nth_equalityI) (auto simp: nth_Cons nth_append less_Suc_eq algebra_simps split: nat.splits)
  ultimately show ?case using Cons.prems by (simp del: upt_Suc)
qed

lemma extends_tip_distinct:
  assumes "extends_tip height hash blocks" and "length blocks < 2 ^ 32"
  shows "distinct (map (\<lambda>b. je_height (pb_entry b)) blocks)"
proof -
  have "inj_on (\<lambda>i. height + of_nat (i + 1)) {0..<length blocks}"
  proof (rule inj_onI)
    fix x y assume "x \<in> {0..<length blocks}" "y \<in> {0..<length blocks}" "height + of_nat (x + 1) = height + (of_nat (y + 1) :: u32)"
    then have "unat (of_nat x :: u32) = unat (of_nat y :: u32)" "x < 2 ^ 32" "y < 2 ^ 32" using assms(2) by simp_all
    then show "x = y" using unat_of_nat_small [where 'a = 32] by simp
  qed
  then show ?thesis unfolding extends_tip_heights [OF assms(1)] by (simp add: distinct_map)
qed

text \<open>What it means that a block is in the stores: its header under its height, and its proof, with
  the forest rows it was made for, under its hash.\<close>

definition in_stores :: "('h, 'd, 'x, 's) stores_env \<Rightarrow> ('h, 'd, 'x, 's) PersistenceState \<Rightarrow> 'h PersistenceBlock \<Rightarrow> bool" where
  "in_stores P s b \<longleftrightarrow>
     get_by_height (se_hdr P) (ps_header_index s) (je_height (pb_entry b)) = Inr (Some (pb_header b)) \<and>
     (\<forall>r. get_index (se_kv P) (ps_proof_index s) (je_block_hash (pb_entry b)) = Inr r \<longrightarrow>
        (\<exists>index. r = Some index \<and> get_proof (se_cons P) (ps_proof_file s) index = Some (pb_proof b) \<and>
           bi_proof_forest_rows index = Some (pb_proof_forest_rows b)))"

definition stores_ok :: "('h, 'd, 'x, 's) stores_env \<Rightarrow> ('h, 'd, 'x, 's) PersistenceState \<Rightarrow> bool" where
  "stores_ok P s \<longleftrightarrow> index_db_ok (se_index P) \<and> header_ok (se_hdr P) \<and> kv_ok (se_kv P) \<and>
     consistent (se_index P) (se_hdr P) (ps_header_index s) \<and> pf_ok (ps_proof_file s)"

lemma header_sync_spec:
  assumes "index_db_ok D" and "HeaderIndex_sync D io ix = (ix', r)" and "consistent D H ix"
  shows "consistent D H ix' \<and> chain_of H ix' = chain_of H ix" and "r = Inr () \<Longrightarrow> \<exists>d. hi_heights ix' = Some d"
proof -
  have "vf_data (hi_headers ix') = vf_data (hi_headers ix) \<and> index_view D ix' = index_view D ix"
    using assms(2)
    by (auto simp: HeaderIndex_sync_def available_heights_def ok_or_def bind_s_def vf_sync_def synced_file_def index_view_def
        idb_sync [OF assms(1)] split: option.splits prod.splits)
  then show "consistent D H ix' \<and> chain_of H ix' = chain_of H ix" using maintenance_consistent [OF assms(1)] assms(3) by blast
  show "r = Inr () \<Longrightarrow> \<exists>d. hi_heights ix' = Some d" using assms(2)
    by (auto simp: HeaderIndex_sync_def available_heights_def ok_or_def bind_s_def split: option.splits prod.splits)
qed

lemma get_by_height_chain:
  assumes "header_ok H" and "consistent D H ix" and "hi_heights ix = Some d"
  shows "get_by_height H ix h = Inr (chain_of H ix h)"
  using assms by (simp add: get_by_height_def available_heights_def consistent_def read_header_eq chain_of_def)

lemma persist_stores_spec:
  assumes ok: "stores_ok P s" and run: "persist_stores P io s blocks = (s', Inr ())" and "blocks \<noteq> []"
    and "distinct (map (\<lambda>b. je_height (pb_entry b)) blocks)" and "distinct (map (\<lambda>b. je_block_hash (pb_entry b)) blocks)"
    and "batch_heights_ok (se_hdr P) (chain_of (se_hdr P) (ps_header_index s)) blocks"
  shows "stores_ok P s'" and "\<forall>b\<in>set blocks. in_stores P s' b"
    and "load_height (se_kv P) (ps_proof_index s') = Inr r \<Longrightarrow> r = ucast (je_height (pb_entry (last blocks)))"
    and "\<exists>f. apply_forward_batch (se_forest P) (ps_forest s) (map pb_entry blocks) = Inr f \<and> sync (se_forest P) f = Inr (ps_forest s')"
    and "ps_journal s' = ps_journal s \<and> ps_notified s' = ps_notified s"
    and "\<forall>j q. get_proof (se_cons P) (ps_proof_file s) j = Some q \<longrightarrow> get_proof (se_cons P) (ps_proof_file s') j = Some q"
    and "chain_of (se_hdr P) (ps_header_index s') = fold (\<lambda>b c. c(je_height (pb_entry b) \<mapsto> pb_header b)) blocks (chain_of (se_hdr P) (ps_header_index s))"
proof -
  have db: "index_db_ok (se_index P)" and hd: "header_ok (se_hdr P)" and kv: "kv_ok (se_kv P)"
    and cons: "consistent (se_index P) (se_hdr P) (ps_header_index s)" and pf: "pf_ok (ps_proof_file s)"
    using ok by (simp_all add: stores_ok_def)
  obtain pf1 indexes pf2 ix1 ix2 px1 f1 f2 px2 where
    a1: "append_proofs (se_cons P) (io_append io) 0 (ps_proof_file s) blocks = (pf1, Inr indexes)" and
    a2: "ProofFile_sync (io_proof_sync io) 0 pf1 = (pf2, Inr ())" and
    a3: "put_headers (se_index P) (se_hdr P) (io_header io) 0 (ps_header_index s) blocks = (ix1, Inr ())" and
    a4: "HeaderIndex_sync (se_index P) (io_header_sync io) ix1 = (ix2, Inr ())" and
    a5: "append_batch (se_kv P) (ps_proof_index s) indexes = (px1, Inr ())" and
    a6: "apply_forward_batch (se_forest P) (ps_forest s) (map pb_entry blocks) = Inr f1" and
    a7: "sync (se_forest P) f1 = Inr f2" and
    a8: "update_height (se_kv P) px1 (ucast (je_height (pb_entry (last blocks)))) = (px2, Inr ())" and
    s': "s' = s\<lparr>ps_proof_file := pf2, ps_header_index := ix2, ps_proof_index := px2, ps_forest := f2\<rparr>"
    using run by (auto simp: persist_stores_def bind_s_Inr on_store_Inr forest_step_Inr)
  note p = append_proofs_spec [OF pf a1]
  have pf2: "vf_data (pf_file pf2) = vf_data (pf_file pf1)" "pf_writer_pos pf2 = pf_writer_pos pf1"
    using a2 by (auto simp: ProofFile_sync_def vf_sync_def synced_file_def split: option.splits)
  then have g2: "get_proof (se_cons P) pf2 i = get_proof (se_cons P) pf1 i" for i
    by (simp add: get_proof_def contains_def cong: option.case_cong)
  have h1: "consistent (se_index P) (se_hdr P) ix1"
    "chain_of (se_hdr P) ix1 = fold (\<lambda>b c. c(je_height (pb_entry b) \<mapsto> pb_header b)) blocks (chain_of (se_hdr P) (ps_header_index s))"
    using put_headers_spec [OF db hd cons assms(6) a3] by simp_all
  have h2: "consistent (se_index P) (se_hdr P) ix2" "chain_of (se_hdr P) ix2 = chain_of (se_hdr P) ix1" "\<exists>d. hi_heights ix2 = Some d"
    using header_sync_spec [OF db a4 h1(1)] by simp_all
  show "stores_ok P s'" using db hd kv h2(1) p pf2 by (simp add: stores_ok_def s' pf_ok_def)
  show "load_height (se_kv P) (ps_proof_index s') = Inr r \<Longrightarrow> r = ucast (je_height (pb_entry (last blocks)))"
    using update_height_spec(2) [OF kv a8] by (simp add: s')
  show "\<exists>f. apply_forward_batch (se_forest P) (ps_forest s) (map pb_entry blocks) = Inr f \<and> sync (se_forest P) f = Inr (ps_forest s')"
    using a6 a7 by (simp add: s')
  show "ps_journal s' = ps_journal s \<and> ps_notified s' = ps_notified s" by (simp add: s')
  show "\<forall>j q. get_proof (se_cons P) (ps_proof_file s) j = Some q \<longrightarrow> get_proof (se_cons P) (ps_proof_file s') j = Some q"
    using p g2 by (simp add: s')
  show "chain_of (se_hdr P) (ps_header_index s') = fold (\<lambda>b c. c(je_height (pb_entry b) \<mapsto> pb_header b)) blocks (chain_of (se_hdr P) (ps_header_index s))"
    using h1 h2 by (simp add: s')
  have hashes: "map snd indexes = map (\<lambda>b. je_block_hash (pb_entry b)) blocks"
  proof (rule nth_equalityI)
    show "length (map snd indexes) = length (map (\<lambda>b. je_block_hash (pb_entry b)) blocks)" using p by (auto dest: list_all2_lengthD)
    fix i assume "i < length (map snd indexes)"
    then show "map snd indexes ! i = map (\<lambda>b. je_block_hash (pb_entry b)) blocks ! i"
      using p by (cases "indexes ! i") (auto simp: list_all2_conv_all_nth)
  qed
  show "\<forall>b\<in>set blocks. in_stores P s' b"
  proof
    fix b assume b: "b \<in> set blocks"
    have "chain_of (se_hdr P) ix2 (je_height (pb_entry b)) = Some (pb_header b)"
      unfolding h2(2) h1(2) using assms(4) b by (rule fold_heights_last)
    then have header: "get_by_height (se_hdr P) ix2 (je_height (pb_entry b)) = Inr (Some (pb_header b))"
      using get_by_height_chain [OF hd h2(1)] h2(3) by auto
    obtain i where i: "i < length blocks" "blocks ! i = b" using b by (auto simp: in_set_conv_nth)
    obtain index h where ih: "indexes ! i = (index, h)" by fastforce
    then have idx: "h = je_block_hash (pb_entry b)" "get_proof (se_cons P) pf1 index = Some (pb_proof b)"
      "bi_proof_forest_rows index = Some (pb_proof_forest_rows b)" "(index, h) \<in> set indexes"
      using p i by (auto simp: list_all2_conv_all_nth in_set_conv_nth dest: spec [of _ i])
    obtain raw where raw: "kv_view (se_kv P) px1 ''index'' h = Some raw" "from_raw_value raw = Inr (Index index)"
      using append_batch_spec [OF kv a5 _ idx(4)] hashes assms(5) by auto
    have "get_index (se_kv P) px2 h = Inr r \<Longrightarrow> r = Some index" for r
      using raw update_height_spec(1) [OF kv a8] kv_get_view [OF kv, of px2 "''index''" h]
      by (auto simp: get_index_def split: option.splits)
    then show "in_stores P s' b" using header idx g2 by (auto simp: in_stores_def s')
  qed
qed

end
