(* ===== verification/Overlay_View.thy ===== *)
theory Overlay_View
  imports Window_Apply
begin

text \<open>
  The producer's view: the physical forest with the overlay of the entries that are planned but
  not yet durable. The view is the state after applying those entries, an entry planned on the
  view can be undone, and retiring an entry once it is applied leaves the view unchanged.
\<close>

section \<open>Nodes\<close>

definition overlay_of :: "JournalEntry list \<Rightarrow> ForestOverlay" where
  "overlay_of es = fold (\<lambda>e ov. push ov e) es empty_overlay"

lemma overlay_of_snoc: "overlay_of (es @ [e]) = push (overlay_of es) e"
  by (simp add: overlay_of_def)

lemma norm_norm [simp]: "norm (norm st) = norm st"
  by (simp add: norm_def UNINITIALIZED_def)

lemma norm_node_state [simp]: "norm (node_state f p) = node_state f p"
  by (auto simp: node_state_def journal_state_def norm_def UNINITIALIZED_def split: sum.splits option.splits)

definition seen :: "JournalNodeState option \<Rightarrow> JournalNodeState \<Rightarrow> JournalNodeState" where
  "seen st base = norm (case st of Some st \<Rightarrow> st | None \<Rightarrow> base)"

lemma seen_writes:
  "(\<And>p. seen (m p) (x p) = M p) \<Longrightarrow> seen (delta_writes ds m p) (x p) = put_states (map (\<lambda>d. (fd_position d, fd_after d)) ds) M p"
proof (induction ds arbitrary: m M)
  case (Cons d ds)
  have "seen ((m(fd_position d \<mapsto> fd_after d)) p) (x p) = (M(fd_position d := norm (fd_after d))) p" for p
    using Cons.prems [of p] by (simp add: seen_def)
  then show ?case using Cons.IH [of "m(fd_position d \<mapsto> fd_after d)" "M(fd_position d := norm (fd_after d))"]
    unfolding list.map put_states_Cons by (simp del: fun_upd_apply)
qed simp

lemma overlay_nodes:
  assumes "\<forall>e\<in>set es. entry_rows R e = R"
  shows "seen (ov_nodes (overlay_of es) p) (node_state (sf_forest s) p) = fs_nodes (fold (fwd E R) es (abs_state E s)) p"
  using assms
proof (induction es arbitrary: p rule: rev_induct)
  case Nil
  then show ?case by (simp add: overlay_of_def empty_overlay_def seen_def abs_state_def)
next
  case (snoc e es)
  have "seen (ov_nodes (overlay_of (es @ [e])) p) (node_state (sf_forest s) p) =
      put_states (block_writes e) (fs_nodes (fold (fwd E R) es (abs_state E s))) p"
    unfolding overlay_of_snoc push_def ForestOverlay.select_convs
    by (rule seen_writes) (use snoc in simp)
  then show ?case using snoc.prems by (simp add: fwd_nodes)
qed

section \<open>Leaf positions\<close>

lemma fold_index_last:
  "fold (\<lambda>d m. m(ix_outpoint d \<mapsto> g d)) ds m q =
     (case map_of (rev (map (\<lambda>d. (ix_outpoint d, g d)) ds)) q of Some v \<Rightarrow> Some v | None \<Rightarrow> m q)"
  by (induction ds rule: rev_induct) (auto split: option.splits)

lemma map_of_inj_key:
  "inj_on f (insert q (ix_outpoint ` set ds)) \<Longrightarrow>
     map_of (map (\<lambda>d. (f (ix_outpoint d), g d)) ds) (f q) = map_of (map (\<lambda>d. (ix_outpoint d, g d)) ds) q"
  by (induction ds) (auto simp: inj_on_def)

definition entry_outpoints :: "JournalEntry \<Rightarrow> OutPoint set" where
  "entry_outpoints e = ix_outpoint ` (set (je_removed e) \<union> set (je_added e))"

lemma map_of_snd: "map_of (map (\<lambda>d. (k d, h (g d))) ds) x = map_option h (map_of (map (\<lambda>d. (k d, g d)) ds) x)"
  by (induction ds) auto

lemma fold_index_const:
  "fold (\<lambda>d m. m(ix_outpoint d \<mapsto> c)) ds m q = (if q \<in> ix_outpoint ` set ds then Some c else m q)"
  by (induction ds arbitrary: m) auto

text \<open>The overlay's answer for an outpoint is the answer of the leaf map after the entries.\<close>

lemma overlay_positions:
  assumes "inj_on (leaf_map_key E) (insert q (\<Union> (entry_outpoints ` set es)))"
  shows "fs_map (fold (fwd E R) es A) (leaf_map_key E q) =
    (case ov_positions (overlay_of es) q of
       None \<Rightarrow> fs_map A (leaf_map_key E q)
     | Some (h, v) \<Rightarrow> map_option (le_bytes 8) v)"
  using assms
proof (induction es rule: rev_induct)
  case Nil
  then show ?case by (simp add: overlay_of_def empty_overlay_def)
next
  case (snoc e es)
  let ?k = "leaf_map_key E q" and ?V = "fs_map (fold (fwd E R) es A)"
  let ?add = "map_of (map (\<lambda>d. (ix_outpoint d, ix_position d)) (rev (je_added e))) q"
  have inj: "inj_on (leaf_map_key E) (insert q (entry_outpoints e))"
    "inj_on (leaf_map_key E) (insert q (\<Union> (entry_outpoints ` set es)))"
    using snoc.prems by (auto intro: inj_on_subset)
  have inj': "inj_on (leaf_map_key E) (insert q (ix_outpoint ` set (rev (je_added e))))"
    by (rule inj_on_subset [OF inj(1)]) (auto simp: entry_outpoints_def)
  have add: "map_of (rev (map (\<lambda>d. (delta_key E d, le_bytes 8 (ix_position d))) (je_added e))) ?k = map_option (le_bytes 8) ?add"
    using map_of_inj_key [OF inj', of "\<lambda>d. le_bytes 8 (ix_position d)"]
      map_of_snd [of ix_outpoint "le_bytes 8" ix_position "rev (je_added e)" q]
    by (simp add: rev_map delta_key_def)
  have rem: "?k \<in> delta_key E ` set (je_removed e) \<longleftrightarrow> q \<in> ix_outpoint ` set (je_removed e)"
    using inj(1) by (auto simp: delta_key_def entry_outpoints_def inj_on_def)
  have add': "map_of (rev (map (\<lambda>d. (ix_outpoint d, (je_height e, Some (ix_position d)))) (je_added e))) q =
      map_option (\<lambda>v. (je_height e, Some v)) ?add"
    using map_of_snd [of ix_outpoint "\<lambda>v. (je_height e, Some v)" ix_position "rev (je_added e)" q] by (simp add: rev_map)
  have lhs: "fs_map (fold (fwd E R) (es @ [e]) A) ?k =
      (case ?add of Some v \<Rightarrow> Some (le_bytes 8 v) | None \<Rightarrow> if q \<in> ix_outpoint ` set (je_removed e) then None else ?V ?k)"
    by (simp add: fwd_def put_index_def add rem split: option.split)
  have rhs: "ov_positions (overlay_of (es @ [e])) q =
      (case ?add of Some v \<Rightarrow> Some (je_height e, Some v)
       | None \<Rightarrow> if q \<in> ix_outpoint ` set (je_removed e) then Some (je_height e, None) else ov_positions (overlay_of es) q)"
    unfolding overlay_of_snoc push_def ForestOverlay.select_convs fold_index_last [of "\<lambda>d. (je_height e, Some (ix_position d))"] add' fold_index_const
    by (simp split: option.split)
  show ?case unfolding lhs rhs using snoc.IH [OF inj(2)] by (auto split: option.split)
qed

section \<open>Retiring\<close>

lemma fold_retire_position_nodes:
  "ov_nodes (fold (retire_position h) ds ov) = ov_nodes ov" "ov_heights (fold (retire_position h) ds ov) = ov_heights ov"
  by (induction ds arbitrary: ov) (auto simp: retire_position_def split: option.splits)

lemma fold_retire_node_positions: "ov_positions (fold (retire_node h) ds ov) = ov_positions ov"
  by (induction ds arbitrary: ov) (auto simp: retire_node_def)

lemma fold_retire_node:
  "ov_nodes (fold (retire_node h) ds ov) p = (if p \<in> fd_position ` set ds \<and> ov_heights ov p = Some h then None else ov_nodes ov p)"
  "ov_heights (fold (retire_node h) ds ov) p = (if p \<in> fd_position ` set ds \<and> ov_heights ov p = Some h then None else ov_heights ov p)"
  by (induction ds arbitrary: ov) (auto simp: retire_node_def)

lemma fold_retire_position:
  "ov_positions (fold (retire_position h) ds ov) q =
     (if q \<in> ix_outpoint ` set ds \<and> map_option fst (ov_positions ov q) = Some h then None else ov_positions ov q)"
  by (induction ds arbitrary: ov) (auto simp: retire_position_def split: option.splits)

text \<open>What the first entry wrote is visible exactly where no later entry wrote.\<close>

definition below :: "ForestOverlay \<Rightarrow> JournalEntry \<Rightarrow> ForestOverlay \<Rightarrow> bool" where
  "below a e b \<longleftrightarrow>
     (\<forall>p. ov_nodes a p = (if ov_heights b p = None then ov_nodes (push empty_overlay e) p else ov_nodes b p)) \<and>
     (\<forall>p. ov_heights a p = (if ov_heights b p = None then ov_heights (push empty_overlay e) p else ov_heights b p)) \<and>
     (\<forall>q. ov_positions a q = (if ov_positions b q = None then ov_positions (push empty_overlay e) q else ov_positions b q))"

lemma push_heights: "ov_heights (push ov e) p = (if p \<in> fd_position ` set (je_forest e) then Some (je_height e) else ov_heights ov p)"
proof -
  have "fold (\<lambda>d m. m(fd_position d \<mapsto> c)) ds m p = (if p \<in> fd_position ` set ds then Some c else m p)" for c :: u32 and ds m
    by (induction ds arbitrary: m) auto
  from this [of "je_height e" "je_forest e" "ov_heights ov"] show ?thesis by (simp add: push_def)
qed

lemma push_nodes_other: "p \<notin> fd_position ` set (je_forest e) \<Longrightarrow> ov_nodes (push ov e) p = ov_nodes ov p"
  by (simp add: push_def delta_writes_other)

lemma push_nodes_mem: "p \<in> fd_position ` set (je_forest e) \<Longrightarrow> ov_nodes (push ov e) p = ov_nodes (push ov' e) p"
proof -
  have "p \<in> fd_position ` set ds \<Longrightarrow> delta_writes ds m p = delta_writes ds m' p" for ds m m'
    by (induction ds rule: rev_induct) auto
  then show "p \<in> fd_position ` set (je_forest e) \<Longrightarrow> ov_nodes (push ov e) p = ov_nodes (push ov' e) p"
    by (simp add: push_def)
qed

lemma push_positions:
  "ov_positions (push ov e) q =
     (case map_of (rev (map (\<lambda>d. (ix_outpoint d, (je_height e, Some (ix_position d)))) (je_added e))) q of
        Some v \<Rightarrow> Some v
      | None \<Rightarrow> if q \<in> ix_outpoint ` set (je_removed e) then Some (je_height e, None) else ov_positions ov q)"
  by (simp add: push_def fold_index_last [of "\<lambda>d. (je_height e, Some (ix_position d))"] fold_index_const split: option.split)

lemma push_positions_height: "ov_positions (push empty_overlay e) q = Some v \<Longrightarrow> fst v = je_height e \<and> q \<in> entry_outpoints e"
  by (auto simp: push_positions empty_overlay_def entry_outpoints_def split: option.splits if_splits dest!: map_of_SomeD)

lemma below_overlay: "below (overlay_of (e # es)) e (overlay_of es)"
proof (induction es rule: rev_induct)
  case Nil
  then show ?case by (simp add: below_def overlay_of_def) (simp add: empty_overlay_def)
next
  case (snoc f es)
  have eq: "overlay_of (e # es @ [f]) = push (overlay_of (e # es)) f" "overlay_of (es @ [f]) = push (overlay_of es) f"
    by (simp_all add: overlay_of_def)
  have "ov_nodes (push a f) p = (if ov_heights (push b f) p = None then ov_nodes (push empty_overlay e) p else ov_nodes (push b f) p)"
    if "below a e b" for a b p
    using that push_nodes_mem [of p f a b] by (cases "p \<in> fd_position ` set (je_forest f)")
      (auto simp: below_def push_heights push_nodes_other)
  then show ?case
    using snoc unfolding eq append_Cons below_def
    by (auto simp: below_def push_heights push_positions split: option.splits)
qed

lemma overlay_heights_of: "ov_heights (overlay_of es) p = Some h \<Longrightarrow> h \<in> je_height ` set es"
  by (induction es rule: rev_induct) (auto simp: overlay_of_snoc push_heights overlay_of_def empty_overlay_def split: if_splits)

lemma overlay_positions_of: "ov_positions (overlay_of es) q = Some (h, v) \<Longrightarrow> h \<in> je_height ` set es"
proof (induction es rule: rev_induct)
  case Nil
  then show ?case by (simp add: overlay_of_def empty_overlay_def)
next
  case (snoc e es)
  then show ?case
    by (auto simp: overlay_of_snoc push_positions split: option.splits if_splits dest!: map_of_SomeD)
qed

lemma overlay_nodes_heights: "ov_nodes (overlay_of es) p = None \<longleftrightarrow> ov_heights (overlay_of es) p = None"
proof (induction es rule: rev_induct)
  case Nil
  then show ?case by (simp add: overlay_of_def empty_overlay_def)
next
  case (snoc e es)
  have "p \<in> fd_position ` set ds \<Longrightarrow> delta_writes ds m p \<noteq> None" for ds m
    by (induction ds rule: rev_induct) auto
  then have "p \<in> fd_position ` set (je_forest e) \<Longrightarrow> ov_nodes (push (overlay_of es) e) p \<noteq> None" by (simp add: push_def)
  then show ?case using snoc
    by (cases "p \<in> fd_position ` set (je_forest e)") (auto simp: overlay_of_snoc push_heights push_nodes_other)
qed

lemma retire_first:
  assumes "je_height e \<notin> je_height ` set es"
  shows "retire (overlay_of (e # es)) e = overlay_of es"
proof -
  let ?a = "overlay_of (e # es)" and ?b = "overlay_of es" and ?h = "je_height e"
  let ?n = "fold (retire_node ?h) (je_forest e) ?a"
  note bel = below_overlay [of e es, unfolded below_def]
  have hb: "ov_heights ?b p \<noteq> Some ?h" for p using overlay_heights_of assms by blast
  have pb: "ov_positions ?b q \<noteq> Some (?h, v)" for q v using overlay_positions_of assms by blast
  have he: "ov_heights (push empty_overlay e) p = (if p \<in> fd_position ` set (je_forest e) then Some ?h else None)" for p
    by (simp add: push_heights) (simp add: empty_overlay_def)
  have ne: "p \<notin> fd_position ` set (je_forest e) \<Longrightarrow> ov_nodes (push empty_overlay e) p = None" for p
    by (simp add: push_nodes_other) (simp add: empty_overlay_def)
  have "ov_nodes ?n p = ov_nodes ?b p" for p
    using bel hb [of p] he [of p] ne [of p] overlay_nodes_heights [of es p]
    by (cases "ov_heights ?b p") (auto simp: fold_retire_node)
  moreover have "ov_heights ?n p = ov_heights ?b p" for p
    using bel hb [of p] he [of p] by (cases "ov_heights ?b p") (auto simp: fold_retire_node)
  moreover have "ov_positions (fold (retire_position ?h) (je_removed e @ je_added e) ?n) q = ov_positions ?b q" for q
    unfolding fold_retire_position fold_retire_node_positions
  proof (cases "ov_positions ?b q")
    case None
    then have "ov_positions ?a q = ov_positions (push empty_overlay e) q" using bel by simp
    then show "(if q \<in> ix_outpoint ` set (je_removed e @ je_added e) \<and> map_option fst (ov_positions ?a q) = Some ?h
        then None else ov_positions ?a q) = ov_positions ?b q"
      using None push_positions_height [of e q] by (cases "ov_positions (push empty_overlay e) q") (auto simp: entry_outpoints_def)
  next
    case (Some v)
    then show "(if q \<in> ix_outpoint ` set (je_removed e @ je_added e) \<and> map_option fst (ov_positions ?a q) = Some ?h
        then None else ov_positions ?a q) = ov_positions ?b q"
      using bel pb [of q "snd v"] by (cases v) auto
  qed
  ultimately show ?thesis
    unfolding retire_def by (simp add: fun_eq_iff fold_retire_position_nodes ForestOverlay.equality)
qed

end
