(* ===== verification/Journal_Properties.thy ===== *)
theory Journal_Properties
  imports Journal_Recovery
begin

text \<open>
  What the write-ahead journal promises its clients, over every state that its operations,
  interleaved in any order and failing at any file operation, can reach from a new journal.
\<close>

section \<open>Reachable states\<close>

definition empty_dir :: journal_dir where
  "empty_dir = \<lparr>jd_wal = None, jd_published = None, jd_initialize = None, jd_clean = None, jd_rows = None\<rparr>"

definition reachable :: "'h journal_env \<Rightarrow> int \<Rightarrow> bytes \<Rightarrow> 'h jsys \<Rightarrow> bool" where
  "reachable E sysconf journal_id s \<longleftrightarrow>
     env_ok E \<and> page_ok (page_size sysconf) \<and> length journal_id = 32 \<and>
     (\<exists>dir j. ForestJournal_open E sysconf journal_id empty_dir = Inr (dir, j) \<and>
        (journal_step E)\<^sup>*\<^sup>* (fresh_sys j) s)"

lemma new_journal:
  assumes "env_ok E" and "page_ok (page_size sysconf)" and "length journal_id = 32"
  shows "\<exists>dir j. ForestJournal_open E sysconf journal_id empty_dir = Inr (dir, j) \<and> fj_records j = [] \<and>
    journal_inv E (page_size sysconf) journal_id (fresh_sys j) \<and> pm_generation (fj_marker j) = 1 \<and>
    fj_appended_end j = page_size sysconf"
proof -
  have "scan_legacy E sysconf [] 0 = Inr []" by (simp add: scan_legacy.simps)
  from initialize_opens [OF assms, of empty_dir "[]" "[]"] this show ?thesis
    by (auto simp: empty_dir_def read_exact_at_def empty_boundary_def)
qed

lemma reachable_inv:
  assumes "reachable E sysconf journal_id s"
  shows "journal_inv E (page_size sysconf) journal_id s"
proof -
  obtain dir j where r: "ForestJournal_open E sysconf journal_id empty_dir = Inr (dir, j)"
    "(journal_step E)\<^sup>*\<^sup>* (fresh_sys j) s" "env_ok E" "page_ok (page_size sysconf)" "length journal_id = 32"
    using assms by (auto simp: reachable_def)
  have "journal_inv E (page_size sysconf) journal_id (fresh_sys j)"
    using new_journal [OF r(3-5)] r(1) by auto
  from r(2) this show ?thesis
    by (induction rule: rtranclp_induct) (auto intro: journal_step_inv)
qed

lemma reachable_step:
  "reachable E sysconf journal_id s \<Longrightarrow> journal_step E s s' \<Longrightarrow> reachable E sysconf journal_id s'"
  unfolding reachable_def by (meson rtranclp.rtrancl_into_rtrancl)

section \<open>The published view\<close>

lemma published_in_unique:
  "published_in E p d m L \<Longrightarrow> published_in E p d m L' \<Longrightarrow> env_ok E \<Longrightarrow> L = L'"
  by (metis scan_published_in sum.inject(2))

lemma live_crash:
  assumes "live_wal E p journal_id j L T old" and "crash_image (fj_wal j) w"
  shows "published_in E p w (fj_marker j) L"
proof -
  note d = live_walD [OF assms(1)]
  have "agree (pm_replay_start (fj_marker j)) (jb_end (pm_boundary (fj_marker j))) w (vf_data (fj_wal j))"
    using keeps_crash [OF d(9) assms(2)] d(3) by simp
  from published_in_agree [OF d(2) agree_sym [OF this]] show ?thesis .
qed

lemma reopened_records:
  assumes "published_in E p w m L"
  shows "records (reopened p journal_id w c m L dirty) = L"
proof -
  have "chain (pm_replay_start m) L (jb_end (pm_boundary m))" using assms by (simp add: published_in_def)
  from records_upto_split [OF this, of "[]"] show ?thesis by (simp add: records_def reopened_def Let_def)
qed

text \<open>A crash of a healthy journal keeps exactly the published records.\<close>

lemma healthy_crash:
  assumes inv: "journal_inv E p journal_id s" and np: "\<not> fj_poisoned (sy_j s)"
    and w: "crash_image (fj_wal (sy_j s)) w" and c: "crash_image (fj_mk (sy_j s)) c"
  shows "\<exists>dir' j old. ForestJournal_open E sysconf fresh (crashed_dir dir w c) = Inr (dir', j) \<and>
    fj_records j = old @ records (sy_j s) \<and> records j = fj_records j"
proof -
  obtain L T old where l: "live_wal E p journal_id (sy_j s) L T old" "sy_pending s = None"
    "mk_ok E p (fj_mk (sy_j s)) (fj_marker (sy_j s))" by (rule live_healthy [OF inv np])
  have env: "env_ok E" using inv by (simp add: journal_inv_def base_def)
  have cc: "c = vf_data (fj_mk (sy_j s))" using crash_image_synced [OF c] l(3) by (simp add: mk_ok_def)
  have "checksums_detect E journal_id (sy_pending s) (fj_mk (sy_j s)) c"
    using l(3) cc by (auto simp: checksums_detect_def mk_ok_def versions_def)
  from inv_recovers [OF inv w c this, of sysconf fresh dir] l(2)
  obtain N dir' where N: "ForestJournal_open E sysconf fresh (crashed_dir dir w c) =
      Inr (dir', reopened p journal_id w c (fj_marker (sy_j s)) N (\<not> snd (take_clean_shutdown_marker dir)))"
    and pN: "published_in E p w (fj_marker (sy_j s)) N" by auto
  have "N = L" by (rule published_in_unique [OF pN live_crash [OF l(1) w] env])
  then have "N = old @ records (sy_j s)" using published_records(2,4) [OF l(1)] by simp
  then show ?thesis using N reopened_records [OF pN] by (auto simp: reopened_def Let_def)
qed

section \<open>Crash recovery\<close>

text \<open>C1. Every crash is recoverable. Whatever sequence of appends, publications, rollbacks, discards
  and prunings (each possibly failing at any of its file operations, appends interleaved with a
  publication in flight, and earlier crashes) led to a state, a crash that leaves any byte-wise
  mixture of the unsynced file contents opens again; and the records it recovers are exactly those
  of the durable publication marker, or of the marker whose write was in flight, in one of the
  contents the file had since its last sync. The hypothesis on checksums is that a torn marker
  slot does not have a valid checksum by accident.\<close>

theorem journal_crash_recovery:
  assumes "reachable E sysconf journal_id s"
    and "crash_image (fj_wal (sy_j s)) w" and "crash_image (fj_mk (sy_j s)) c"
    and "checksums_detect E journal_id (sy_pending s) (fj_mk (sy_j s)) c"
  shows "\<exists>dir' j m. ForestJournal_open E sysconf' fresh (crashed_dir dir w c) = Inr (dir', j) \<and>
    (m = fj_marker (sy_j s) \<or> sy_pending s = Some m) \<and>
    (\<exists>v\<in>set (versions (fj_wal (sy_j s))).
       scan_published E v (page_size sysconf) (durable m) = Inr (fj_records j)) \<and>
    records j = fj_records j \<and> fj_published_end j = jb_end (pm_boundary m) \<and> \<not> fj_poisoned j"
proof -
  note inv = reachable_inv [OF assms(1)]
  have env: "env_ok E" using assms(1) by (simp add: reachable_def)
  let ?dirty = "\<not> snd (take_clean_shutdown_marker dir)" and ?p = "page_size sysconf"
  obtain m L dir' v where m: "m = fj_marker (sy_j s) \<or> sy_pending s = Some m"
    "v \<in> set (versions (fj_wal (sy_j s)))" "published_in E ?p v m L" "published_in E ?p w m L"
    "ForestJournal_open E sysconf' fresh (crashed_dir dir w c) = Inr (dir', reopened ?p journal_id w c m L ?dirty)"
    using inv_recovers [OF inv assms(2-4), of sysconf' fresh dir] by blast
  show ?thesis
    using m(1,2,5) scan_published_in [OF m(3) env] reopened_records [OF m(4)]
    by (intro exI [of _ dir'] exI [of _ "reopened ?p journal_id w c m L ?dirty"] exI [of _ m])
      (auto simp: reopened_def Let_def)
qed


section \<open>Publishing\<close>

lemma boundary_published:
  assumes "live_wal E p journal_id j L [] old" and "fj_page_size j = p" and "fj_journal_id j = journal_id"
    and "jb_journal_id (pm_boundary (fj_marker j)) = journal_id"
  shows "boundary j = (pm_boundary (fj_marker j))\<lparr>jb_epoch := fj_epoch j\<rparr>"
proof -
  note d = live_walD [OF assms(1)]
  have lb: "last_boundary L journal_id 0 p = (pm_boundary (fj_marker j))\<lparr>jb_epoch := 0\<rparr>"
    using d(2) assms(4) by (simp add: published_in_def durable_def)
  have e: "last_boundary X journal_id x p = (last_boundary X journal_id 0 p)\<lparr>jb_epoch := x\<rparr>" for X :: "'a JournalRecord list" and x
    by (simp add: last_boundary_def empty_boundary_def record_boundary_def)
  have "last_boundary (fj_records j) journal_id 0 p = last_boundary L journal_id 0 p"
    using d(7,8) by (cases "fj_records j = []") (auto simp: last_boundary_def)
  then show ?thesis using lb e [of "fj_records j" "fj_epoch j"] assms(2,3) by (simp add: boundary_def)
qed

lemma publish_steps:
  assumes inv: "journal_inv E p journal_id s" and np: "\<not> fj_poisoned (sy_j s)" and "sy_pub s = None"
    and "pm_generation (fj_marker (sy_j s)) + 1 < 2 ^ 64"
  shows "\<exists>j. publish E no_faults (sy_j s) (boundary (sy_j s)) = (j, Inr ()) \<and>
    (journal_step E)\<^sup>*\<^sup>* s (s\<lparr>sy_j := j\<rparr>) \<and> \<not> fj_poisoned j \<and>
    fj_records j = fj_records (sy_j s) \<and> fj_published_end j = fj_appended_end (sy_j s)"
proof -
  let ?j = "sy_j s" and ?b = "boundary (sy_j s)"
  obtain L T old where l: "live_wal E p journal_id ?j L T old" using live_healthy [OF inv np] by blast
  note d = live_walD [OF l]
  have b: "env_ok E" "fj_page_size ?j = p" "fj_journal_id ?j = journal_id"
    "jb_journal_id (pm_boundary (fj_marker ?j)) = journal_id"
    using inv by (simp_all add: journal_inv_def base_def)
  show ?thesis
  proof (cases "T = []")
    case True
    have eq: "?b = (pm_boundary (fj_marker ?j))\<lparr>jb_epoch := fj_epoch ?j\<rparr>"
      by (rule boundary_published [OF l [unfolded True] b(2-4)])
    have e: "fj_appended_end ?j = jb_end (pm_boundary (fj_marker ?j))" using d(5) True by simp
    have "publish_check E ?j ?b = Inr True" using np b e by (simp add: publish_check_def eq)
    then have "publish E no_faults ?j ?b = (?j, Inr ())" by (simp add: publish_def)
    then show ?thesis using np e d(3) by (intro exI [of _ ?j]) auto
  next
    case False
    then have rs: "fj_records ?j \<noteq> []" using published_records(1) [OF l] by simp
    have lT: "last (fj_records ?j) = last T" using published_records(1) [OF l] False by simp
    let ?r = "last T"
    have r: "?r \<in> set T" using False by simp
    have bd: "?b = record_boundary ?r journal_id (fj_epoch ?j)"
      using rs lT b(2,3) by (simp add: boundary_def last_boundary_def)
    have end': "jb_end ?b = fj_appended_end ?j" using chain_last [OF d(4) False] by (simp add: bd record_boundary_def)
    have "jb_end (pm_boundary (fj_marker ?j)) < jb_end ?b"
      using chain_bounds [OF d(5) r] chain_span [OF d(5) r] by (simp add: bd record_boundary_def)
    moreover have "validate_boundary E (vf_data (fj_wal ?j)) p ?b = Inr ()"
      unfolding bd by (rule validate_stored [OF d(6) [OF r] b(1)])
    ultimately have ck: "publish_check E ?j ?b = Inr False"
      using np b end' by (simp add: publish_check_def) (simp add: bd record_boundary_def)
    let ?j1 = "?j\<lparr>fj_wal := synced_file (vf_data (fj_wal ?j))\<rparr>"
    have f1: "publish_flush no_faults ?j = (?j1, Inr ())" by (simp add: publish_flush_def vf_sync_def no_faults_def)
    let ?mk = "fst (write_publication_marker E no_faults 1 (fj_mk ?j) (next_marker ?j ?b))"
    let ?j2 = "?j1\<lparr>fj_mk := ?mk, fj_marker := next_marker ?j ?b, fj_published_end := jb_end ?b\<rparr>"
    have f2: "publish_mark E no_faults ?j1 ?b = (?j2, Inr ())"
      using assms(4) by (simp add: publish_mark_def write_publication_marker_def vf_write_def vf_sync_def no_faults_def
          next_marker_def)
    have pub: "publish E no_faults ?j ?b = (?j2, Inr ())"
      by (simp add: publish_def ck f1 f2 poison_on_error_def)
    have iss: "issued ?j ?b" unfolding issued_def bd b(3)
      using rs lT last_in_set [of "fj_records ?j"] by auto
    have s1: "journal_step E s (s\<lparr>sy_pub := Some (?b, False)\<rparr>)" (is "journal_step E s ?s1")
      by (rule journal_step.begin_publish [OF assms(3) iss ck])
    have s2: "journal_step E ?s1 (?s1\<lparr>sy_j := ?j1, sy_pub := Some (?b, True)\<rparr>)" (is "journal_step E ?s1 ?s2")
      by (rule journal_step.flush_ok [where io = no_faults]) (simp_all add: f1)
    have s3: "journal_step E ?s2 (?s2\<lparr>sy_j := ?j2, sy_pub := None\<rparr>)" (is "journal_step E ?s2 ?s3")
      by (rule journal_step.mark_ok [where io = no_faults]) (use f2 in simp_all)
    have "(journal_step E)\<^sup>*\<^sup>* s ?s3"
      by (rule converse_rtranclp_into_rtranclp, rule s1, rule converse_rtranclp_into_rtranclp, rule s2,
          rule r_into_rtranclp, rule s3)
    moreover have "?s3 = s\<lparr>sy_j := ?j2\<rparr>" using assms(3) by (cases s) simp
    ultimately have "(journal_step E)\<^sup>*\<^sup>* s (s\<lparr>sy_j := ?j2\<rparr>)" by (simp only:)
    then show ?thesis using pub np end' by (intro exI [of _ ?j2]) simp
  qed
qed

lemma inv_steps:
  assumes "(journal_step E)\<^sup>*\<^sup>* s s'" and "journal_inv E p journal_id s"
  shows "journal_inv E p journal_id s'"
  using assms by (induction rule: rtranclp_induct) (auto intro: journal_step_inv)

lemma all_published:
  assumes "journal_inv E p journal_id s" and "\<not> fj_poisoned (sy_j s)"
    and "fj_published_end (sy_j s) = fj_appended_end (sy_j s)"
  shows "records (sy_j s) = fj_records (sy_j s)"
proof -
  obtain L T old where l: "live_wal E p journal_id (sy_j s) L T old" using live_healthy [OF assms(1,2)] by blast
  have "T = []" using chain_empty [OF live_walD(4) [OF l]] assms(3) by simp
  then show ?thesis using published_records(1,2) [OF l] by simp
qed

text \<open>C6. Publication makes the whole journal durable: publishing the current boundary of a healthy
  journal with no publication in flight succeeds, leaves the records as they are, makes all of
  them visible, and after any crash of the resulting files reopening recovers them all.\<close>

theorem publish_durable:
  assumes "reachable E sysconf journal_id s" and "\<not> fj_poisoned (sy_j s)" and "sy_pub s = None"
    and "pm_generation (fj_marker (sy_j s)) + 1 < 2 ^ 64"
  shows "\<exists>j. publish E no_faults (sy_j s) (boundary (sy_j s)) = (j, Inr ()) \<and>
    records j = fj_records (sy_j s) \<and>
    (\<forall>w c. crash_image (fj_wal j) w \<and> crash_image (fj_mk j) c \<longrightarrow>
       (\<exists>dir' j' old. ForestJournal_open E sysconf' fresh (crashed_dir dir w c) = Inr (dir', j') \<and>
          fj_records j' = old @ fj_records (sy_j s)))"
proof -
  note inv = reachable_inv [OF assms(1)]
  obtain j where j: "publish E no_faults (sy_j s) (boundary (sy_j s)) = (j, Inr ())"
    "(journal_step E)\<^sup>*\<^sup>* s (s\<lparr>sy_j := j\<rparr>)" "\<not> fj_poisoned j" "fj_records j = fj_records (sy_j s)"
    "fj_published_end j = fj_appended_end (sy_j s)"
    using publish_steps [OF inv assms(2-4)] by blast
  note inv' = inv_steps [OF j(2) inv]
  have np: "\<not> fj_poisoned (sy_j (s\<lparr>sy_j := j\<rparr>))" using j(3) by simp
  have "fj_appended_end j = fj_appended_end (sy_j s)"
    using j(1) by (auto simp: publish_def poison_on_error_def publish_flush_def publish_mark_def vf_sync_def
        bind_s_def split: sum.splits bool.splits option.splits if_splits prod.splits)
  then have r: "records j = fj_records (sy_j s)" using all_published [OF inv' np] j(4,5) by simp
  show ?thesis
    using j(1) r healthy_crash [OF inv' np, of _ _ sysconf' fresh dir] by auto blast
qed

section \<open>Appending, discarding and rolling back\<close>

text \<open>C10. Appending publishes nothing: a successful append adds exactly one record, with the given
  entry and replay payload, at the end of the journal, returns its boundary, and leaves the
  published records as they were; and the failure of an append at any file operation leaves the
  records and the append position unchanged.\<close>

theorem append_extends:
  assumes "reachable E sysconf journal_id s" and "wf_entry e" and "wf_proof pf"
    and "append_block E io (sy_j s) e h pf rows = (j, r)"
  shows "case r of
      Inl _ \<Rightarrow> fj_records j = fj_records (sy_j s) \<and> fj_appended_end j = fj_appended_end (sy_j s)
    | Inr b \<Rightarrow> \<exists>q. fj_records j = fj_records (sy_j s) @ [q] \<and> records j = records (sy_j s) \<and>
        jr_entry q = e \<and> jr_status q = Forward \<and>
        jr_replay q = Some \<lparr>rp_header = h, rp_proof = pf, rp_proof_forest_rows = rows\<rparr> \<and>
        b = record_boundary q journal_id (fj_epoch j) \<and> jb_end b = fj_appended_end j"
proof -
  let ?j = "sy_j s" and ?rp = "\<lparr>rp_header = h, rp_proof = pf, rp_proof_forest_rows = rows\<rparr>"
  note inv = reachable_inv [OF assms(1)]
  have b: "env_ok E" "fj_page_size ?j = page_size sysconf" "fj_journal_id ?j = journal_id"
    using inv by (simp_all add: journal_inv_def base_def)
  show ?thesis
  proof (cases r)
    case (Inl err)
    then show ?thesis using assms(4)
      by (auto simp: append_block_def append_payload_def bind_s_def Let_def
          split: if_splits sum.splits prod.splits)
  next
    case (Inr bd)
    obtain w k where w: "replay_payload E e ?rp = Inr w" "je_forest_rows e \<noteq> None" "rows \<le> 63" "header_matches E h e"
      and ap: "append_payload E io ?j e (Some ?rp) w RECORD_VERSION = (j, Inr k)" and bd: "bd = boundary j"
      using assms(4) Inr
      by (auto simp: append_block_def bind_s_def Let_def not_less split: if_splits sum.splits prod.splits)
    have np: "\<not> fj_poisoned ?j" using ap by (auto simp: append_payload_def)
    obtain L T old where l: "live_wal E (page_size sysconf) journal_id ?j L T old" by (rule live_healthy [OF inv np])
    note d = live_walD [OF l]
    obtain g q where g: "write_record E io (fj_wal ?j) (page_size sysconf) (fj_appended_end ?j) e (Some ?rp) w RECORD_VERSION
        = (g, Inr q)"
      and j: "j = ?j\<lparr>fj_wal := g, fj_records := fj_records ?j @ [q],
               fj_appended_end := jr_offset q + jr_span q, fj_needs_replay := True\<rparr>"
      using ap np b(2) by (auto simp: append_payload_def Let_def split: sum.splits prod.splits)
    have dec: "decode_payload E RECORD_VERSION w = Inr (e, Some ?rp)"
      by (rule replay_payload_decodes [OF w(1) b(1) assms(2)]) (use w assms(3) in auto)
    have v: "valid_version RECORD_VERSION" by (simp add: valid_version_def)
    note st = write_record_stored [OF g b(1) v dec d(11)]
    obtain a where ch: "chain a (drop (length old) L) (fj_published_end ?j)" using published_records(3) [OF l] by blast
    have "chain (fj_published_end ?j) (T @ [q]) (fj_appended_end ?j + jr_span q)"
      using d(4) st(2,7) by (auto simp: chain_append)
    from records_upto_split [OF ch this] have "records j = records ?j"
      using published_records(1,2) [OF l] by (simp add: records_def j)
    then show ?thesis using st(2,3,5,6) j b(3) Inr bd by (simp add: boundary_def last_boundary_def record_boundary_def)
  qed
qed


text \<open>C8. A rollback is durable before it returns: after \<open>mark_rolled_back\<close> succeeds, any crash
  recovers the published records with that one marked rolled back and all the others
  unchanged.\<close>

theorem rollback_durable:
  assumes "reachable E sysconf journal_id s" and "mark_rolled_back io (sy_j s) i = (j, Inr ())"
    and "crash_image (fj_wal j) w" and "crash_image (fj_mk j) c"
  shows "\<exists>dir' j' old. ForestJournal_open E sysconf' fresh (crashed_dir dir w c) = Inr (dir', j') \<and>
    fj_records j' = old @ (records (sy_j s))[i := (records (sy_j s) ! i)\<lparr>jr_status := RolledBack\<rparr>] \<and>
    i < length (records (sy_j s))"
proof -
  let ?j = "sy_j s"
  note inv = reachable_inv [OF assms(1)]
  have ok: "\<not> fj_poisoned ?j" "fj_appended_end ?j = fj_published_end ?j" "i < length (records ?j)"
    using assms(2) by (auto simp: mark_rolled_back_def split: if_splits)
  have all: "records ?j = fj_records ?j" using all_published [OF inv ok(1)] ok(2) by simp
  have j: "fj_records j = (fj_records ?j)[i := (fj_records ?j ! i)\<lparr>jr_status := RolledBack\<rparr>]" "\<not> fj_poisoned j"
    "fj_appended_end j = fj_appended_end ?j" "fj_published_end j = fj_published_end ?j"
    using assms(2) ok by (auto simp: mark_rolled_back_def Let_def split: sum.splits prod.splits)
  have "journal_step E s (s\<lparr>sy_j := j\<rparr>)" using journal_step.roll_back [of E s io i] assms(2) by simp
  note inv' = journal_step_inv [OF this inv]
  have "records j = fj_records j" using all_published [OF inv'] j ok(2) by simp
  then show ?thesis using healthy_crash [OF inv', of w c sysconf' fresh dir] assms(3,4) j all ok(3) by auto
qed

section \<open>Pruning\<close>

lemma prune_count_forward:
  assumes "0 < prune_count rs keep n f" and "n \<le> length rs" and "f < max keep 1"
  defines "c \<equiv> prune_count rs keep n f"
  shows "f + length (filter (\<lambda>r. jr_status r = Forward) (drop c (take n rs))) = max keep 1"
  unfolding c_def using assms(1-3)
proof (induction rs keep n f rule: prune_count.induct)
  case (2 rs keep i f)
  have t: "take (Suc i) rs = take i rs @ [rs ! i]" using 2(4) by (simp add: take_Suc_conv_app_nth)
  have less: "prune_count rs keep i g < i" if "0 < prune_count rs keep i g" for g
    using prune_count_less [of i rs keep g] that by (cases i) auto
  show ?case
  proof (cases "jr_status (rs ! i) = Forward")
    case False
    with 2(3) have pos: "0 < prune_count rs keep i f" by simp
    then show ?thesis using 2(2) [OF False] 2(4,5) False less [OF pos] t by simp
  next
    case fwd: True
    show ?thesis
    proof (cases "f + 1 \<ge> max keep 1")
      case True
      then show ?thesis using fwd 2(4,5) t by simp
    next
      case False
      then have pos: "0 < prune_count rs keep i (f + 1)" using 2(3) fwd by simp
      then show ?thesis using 2(1) [OF fwd False pos] 2(4) fwd False less [OF pos] t by simp
    qed
  qed
qed simp

text \<open>C11. Pruning keeps what recovery needs: what remains visible after a pruning is prepared is a
  suffix of the published records that starts with a forward record and has exactly the requested
  number of forward records (at least one), and the durable replay floor is to move to the start
  of that first record.\<close>

theorem prune_retains:
  assumes "reachable E sysconf journal_id s" and "prepare_prune (sy_j s) keep = (j, Inr (Some q))"
  shows "\<exists>k. 0 < k \<and> k < length (records (sy_j s)) \<and> records j = drop k (records (sy_j s)) \<and>
    length (filter (\<lambda>r. jr_status r = Forward) (records j)) = max keep 1 \<and>
    pr_replay_start q = jr_offset (hd (records j)) \<and> pr_count q = k"
proof -
  let ?j = "sy_j s" and ?c = "prune_count (records (sy_j s)) keep (length (records (sy_j s))) 0"
  note inv = reachable_inv [OF assms(1)]
  have c: "\<not> fj_poisoned ?j" "0 < ?c" "j = ?j\<lparr>fj_records := drop ?c (fj_records ?j)\<rparr>"
    "q = \<lparr>pr_replay_start = jr_offset (records ?j ! ?c), pr_count = ?c\<rparr>"
    using assms(2) by (auto simp: prepare_prune_def Let_def split: if_splits)
  obtain L T old where l: "live_wal E (page_size sysconf) journal_id ?j L T old" by (rule live_healthy [OF inv c(1)])
  note pr = published_records [OF l]
  have less: "?c < length (records ?j)"
    using prune_count_less [of "length (records ?j)" "records ?j" keep 0] c(2) by (cases "length (records ?j)") auto
  obtain a where ch: "chain a (drop (length old) L) (fj_published_end ?j)" using pr(3) by blast
  have "fj_records j = drop ?c (drop (length old) L) @ T" using c(3) pr(1,2) less by simp
  moreover have "records j = records_upto (fj_published_end ?j) (fj_records j)" by (simp add: records_def c(3))
  ultimately have "records j = drop ?c (records ?j)"
    using records_upto_split [OF chain_drop [OF ch] live_walD(4) [OF l], of ?c] less pr(2) by simp
  moreover have "length (filter (\<lambda>r. jr_status r = Forward) (drop ?c (records ?j))) = max keep 1"
    using prune_count_forward [OF c(2)] by simp
  ultimately show ?thesis using c(2,4) less by (intro exI [of _ ?c]) (simp add: hd_drop_conv_nth)
qed

section \<open>Opening\<close>

text \<open>C13. The clean-shutdown marker is consumed exactly once: a successful open leaves no marker, and
  skips the replay only if the file it found was the exact marker. Together with the refusal of
  \<open>mark_clean_shutdown\<close> to write it over an unpublished tail or after a failed publication, an
  interrupted run always replays.\<close>

theorem clean_marker_consumed:
  assumes "ForestJournal_open E sysconf fresh dir = Inr (dir', j)"
  shows "jd_clean dir' = None \<and> (fj_needs_replay j \<longleftrightarrow> jd_clean dir \<noteq> Some CLEAN_SHUTDOWN_MARKER) \<and>
    (\<forall>j dir''. mark_clean_shutdown dir' j = Inr dir'' \<longrightarrow>
       fj_appended_end j = fj_published_end j \<and> \<not> fj_poisoned j \<and> jd_clean dir'' = Some CLEAN_SHUTDOWN_MARKER)"
proof -
  have i: "initialize_journal E sysconf fresh d x = Inr d' \<Longrightarrow> jd_clean d' = jd_clean d" for d d' x
    by (auto simp: initialize_journal_def Let_def split: prod.splits)
  obtain d1 cl where t: "take_clean_shutdown_marker dir = (d1, cl)" by (metis surj_pair)
  have d1: "jd_clean d1 = None" "cl \<longleftrightarrow> jd_clean dir = Some CLEAN_SHUTDOWN_MARKER"
    using t by (auto simp: take_clean_shutdown_marker_def split: option.splits)
  obtain fl dir2 where d2: "(if read_exact_at (vf_data fl) 8 0 = Some WAL_MAGIC then Inr (d1\<lparr>jd_wal := Some fl\<rparr>)
      else if jd_published d1 \<noteq> None \<and> jd_initialize d1 = None
      then bail ''publication journal is missing its initialization header''
      else initialize_journal E sysconf fresh d1 (vf_data fl)) = Inr dir2"
    "jd_clean dir' = jd_clean dir2" "fj_needs_replay j \<longleftrightarrow> \<not> cl"
    using assms by (auto simp: ForestJournal_open_def t Let_def split: prod.splits split del: if_split)
  have "jd_clean dir2 = jd_clean d1" using d2(1) i by (auto split: if_splits)
  then have "jd_clean dir' = None \<and> (fj_needs_replay j \<longleftrightarrow> jd_clean dir \<noteq> Some CLEAN_SHUTDOWN_MARKER)"
    using d1 d2(2,3) by simp
  then show ?thesis by (auto simp: mark_clean_shutdown_def split: if_splits)
qed

lemma read_legacy:
  assumes "read_record E d p a e = Inr r" and "read_exact_at d 64 a = Some header" and "rd16 header 8 = LEGACY_RECORD_VERSION"
  shows "\<exists>w. encode_entry (jr_entry r) = Inr w \<and> length w \<le> MAX_RECORD_BYTES \<and>
    align_up (64 + length w + 8) p = Some (jr_span r) \<and> a + jr_span r \<le> e"
proof -
  have h: "read_record_header d p a e = Inr header"
    using assms(1,2) by (auto simp: read_record_def read_record_header_def Let_def split: prod.splits)
  then have g: "rd64 header 24 \<le> MAX_RECORD_BYTES" "align_up (64 + rd64 header 24 + 8) p = Some (rd64 header 16)"
    "a + rd64 header 16 \<le> e"
    by (auto simp: read_record_header_def Let_def)
  obtain w where w: "read_exact_at d (rd64 header 24) (a + 64) = Some w" "decode_entry w = Inr (jr_entry r)"
    "jr_span r = rd64 header 16"
    using assms(1,3) h by (auto simp: read_record_def Let_def decode_payload_def)
  have "length w = rd64 header 24" using w(1) by (auto simp: read_exact_at_Some)
  then show ?thesis using g w decode_entry_sound [OF w(2)] by auto
qed

lemma scan_legacy_cases:
  assumes "scan_legacy E sysconf d a = Inr rs"
  obtains (stop) "rs = []"
    | (skip) n where "0 < n" "a < length d" "scan_legacy E sysconf d (a + n) = Inr rs"
    | (rec) header r rs' where "rs = r # rs'" "a < length d" "read_exact_at d 64 a = Some header"
        "read_record E d (page_size sysconf) a (length d) = Inr r" "rd16 header 8 = LEGACY_RECORD_VERSION"
        "scan_legacy E sysconf d (a + jr_span r) = Inr rs'"
proof -
  note e = assms [unfolded scan_legacy.simps [of E sysconf d a]]
  show thesis
  proof (cases "a < length d")
    case False
    then show thesis using e stop by simp
  next
    case a: True
    show thesis
    proof (cases "read_exact_at d 64 a")
      case None
      then show thesis using e a stop by simp
    next
      case h: (Some header)
      consider "sub header 0 8 = replicate 8 0" | "sub header 0 8 \<noteq> replicate 8 0" "sub header 0 8 = PRUNED_MAGIC"
        | "sub header 0 8 \<noteq> replicate 8 0" "sub header 0 8 \<noteq> PRUNED_MAGIC" by blast
      then show thesis
      proof cases
        case 1
        then show thesis using e a h skip [OF page_size_pos a, of sysconf] by simp
      next
        case 2
        then show thesis using e a h stop skip [of "rd64 header 16"] by (auto split: if_splits)
      next
        case 3
        then show thesis using e a h stop rec [OF _ a h] by (auto split: if_splits sum.splits)
      qed
    qed
  qed
qed

lemma scan_legacy_sizes:
  assumes "scan_legacy E sysconf d a = Inr rs"
  shows "(\<forall>r\<in>set rs. \<exists>w. encode_entry (jr_entry r) = Inr w \<and> length w \<le> MAX_RECORD_BYTES \<and>
      align_up (64 + length w + 8) (page_size sysconf) = Some (jr_span r)) \<and>
    sum_list (map jr_span rs) \<le> length d - a"
  using assms
proof (induction "length d - a" arbitrary: a rs rule: less_induct)
  case less
  let ?P = "\<lambda>rs a. (\<forall>r\<in>set rs. \<exists>w. encode_entry (jr_entry r) = Inr w \<and> length w \<le> MAX_RECORD_BYTES \<and>
      align_up (64 + length w + 8) (page_size sysconf) = Some (jr_span r)) \<and> sum_list (map jr_span rs) \<le> length d - a"
  have ih: "?P rs' a'" if "scan_legacy E sysconf d a' = Inr rs'" "a < a'" "a < length d" for a' rs'
    using less(1) [OF _ that(1)] that(2,3) by auto
  have mono: "?P rs' a" if "?P rs' a'" "a < a'" for rs' a' using that by auto
  from less(2) show ?case
  proof (cases rule: scan_legacy_cases)
    case stop
    then show ?thesis by simp
  next
    case (skip n)
    then have "a < a + n" by simp
    then show ?thesis using mono ih [OF skip(3)] skip(2) by blast
  next
    case (rec header r rs')
    note rl = read_legacy [OF rec(4,3,5)]
    have "0 < jr_span r" using read_record_wf [OF rec(4)] by simp
    then have "?P rs' (a + jr_span r)" using ih [OF rec(6)] rec(2) by simp
    then show ?thesis using rl rec(1) by auto
  qed
qed

lemma import_succeeds:
  assumes "\<forall>r\<in>set rs. \<exists>w. encode_entry (jr_entry r) = Inr w \<and> length w \<le> MAX_RECORD_BYTES \<and>
      align_up (64 + length w + 8) p = Some (jr_span r)"
    and "jb_end b + sum_list (map jr_span rs) < 2 ^ 64"
  shows "\<exists>f' b'. fold_r (import_record E p journal_id) (f, b) rs = Inr (f', b')"
  using assms
proof (induction rs arbitrary: f b)
  case (Cons r rs)
  obtain w where w: "encode_entry (jr_entry r) = Inr w" "length w \<le> MAX_RECORD_BYTES"
    "align_up (64 + length w + 8) p = Some (jr_span r)" using Cons.prems(1) by auto
  have "\<not> jb_end b + jr_span r \<ge> 2 ^ 64" using Cons.prems(2) by simp
  then obtain f1 b1 where s: "import_record E p journal_id (f, b) r = Inr (f1, b1)" "jb_end b1 = jb_end b + jr_span r"
    using w by (simp add: import_record_def write_record_def Let_def vf_set_len_def vf_write_def no_faults_def record_boundary_def)
  then show ?case using Cons.IH [of b1 f1] Cons.prems by (auto simp: add.assoc)
qed simp


section \<open>Concrete runs\<close>

text \<open>A checksum that adds the bytes up.\<close>

definition example_env :: "u8 journal_env" where
  "example_env = \<lparr>e_sha = (\<lambda>b. replicate 32 (sum_list b)), e_cons = std_consensus, e_hdr = example_headers\<rparr>"

definition example_id :: bytes where
  "example_id = replicate 32 5"

definition example_entry :: "u8 \<Rightarrow> JournalEntry" where
  "example_entry h =
     \<lparr>je_height = ucast h, je_block_hash = replicate 32 h, je_num_leaves = 0,
      je_previous_block_hash = replicate 32 (h - 1), je_forest = [], je_removed = [], je_added = [],
      je_forest_rows = Some 2\<rparr>"

definition example_empty_proof :: CompactBlockProof where
  "example_empty_proof = \<lparr>cp_proof = \<lparr>bp_targets = [], bp_hashes = []\<rparr>, cp_leaves = []\<rparr>"

lemma example_env_ok: "env_ok example_env" "page_ok (page_size 4096)" "length example_id = 32"
proof -
  show "env_ok example_env"
    by (simp add: env_ok_def example_env_def std_consensus_ok example_header_ok)
  have "(\<exists>k<64. (4096 :: nat) = 2 ^ k)" by (intro exI [of _ 12]) simp
  then show "page_ok (page_size 4096)" by (simp add: page_ok_def page_size_def)
qed (simp add: example_id_def)

lemma example_wf: "wf_entry (example_entry h)" "wf_proof example_empty_proof"
  by (simp_all add: wf_entry_def example_entry_def wf_proof_def example_empty_proof_def)

lemma example_payload:
  "\<exists>w. replay_payload example_env (example_entry h)
      \<lparr>rp_header = h, rp_proof = example_empty_proof, rp_proof_forest_rows = 2\<rparr> = Inr w \<and> length w < 1000"
  by (simp add: replay_payload_def example_env_def example_headers_def example_entry_def encode_entry_def push_len_def
      example_empty_proof_def CompactBlockProof_encode_bytes std_consensus_def std_varint_enc_def)

definition good_sys :: "nat \<Rightarrow> u8 jsys \<Rightarrow> bool" where
  "good_sys n s \<longleftrightarrow> reachable example_env 4096 example_id s \<and> \<not> fj_poisoned (sy_j s) \<and> sy_pub s = None \<and>
     pm_generation (fj_marker (sy_j s)) < 10 \<and> fj_epoch (sy_j s) = 0 \<and> fj_appended_end (sy_j s) < 10000 * (n + 1) \<and>
     length (fj_records (sy_j s)) = n \<and> (\<forall>r\<in>set (fj_records (sy_j s)). jr_status r = Forward)"

lemma open_healthy:
  "ForestJournal_open E sysconf fresh dir = Inr (dir', j) \<Longrightarrow> \<not> fj_poisoned j \<and> fj_epoch j = 0"
  by (auto simp: ForestJournal_open_def Let_def split: prod.splits)

lemma example_new: "\<exists>s. good_sys 0 s"
proof -
  obtain dir j where j: "ForestJournal_open example_env 4096 example_id empty_dir = Inr (dir, j)" "fj_records j = []"
    "pm_generation (fj_marker j) = 1" "fj_appended_end j = page_size 4096"
    using new_journal [OF example_env_ok] by blast
  have "reachable example_env 4096 example_id (fresh_sys j)"
    using j(1) example_env_ok unfolding reachable_def by blast
  then show ?thesis using open_healthy [OF j(1)] j
    by (intro exI [of _ "fresh_sys j"]) (simp add: good_sys_def fresh_sys_def page_size_def)
qed

lemma example_append:
  assumes "good_sys n s" and "n < 100"
  shows "\<exists>j b. append_block example_env no_faults (sy_j s) (example_entry 1) 1 example_empty_proof 2 = (j, Inr b) \<and>
    good_sys (n + 1) (s\<lparr>sy_j := j\<rparr>)"
proof -
  let ?E = example_env and ?j = "sy_j s" and ?rp = "\<lparr>rp_header = 1, rp_proof = example_empty_proof, rp_proof_forest_rows = 2\<rparr>"
  note g = assms(1) [unfolded good_sys_def]
  obtain w where w: "replay_payload ?E (example_entry 1) ?rp = Inr w" "length w < 1000" using example_payload by blast
  have pg: "fj_page_size ?j = 4096"
    using g reachable_inv [of ?E 4096 example_id s] by (simp add: journal_inv_def base_def page_size_def)
  obtain span where sp: "align_up (64 + length w + 8) 4096 = Some span" using w(2) by (auto simp: align_up_def)
  have span: "span < 10000" using align_up_Some [OF sp] w(2) by simp
  have "fj_appended_end ?j < 1010000" using g assms(2) by auto
  then have off: "\<not> fj_appended_end ?j + span \<ge> 2 ^ 64" using span by simp
  obtain f r where wr: "write_record ?E no_faults (fj_wal ?j) 4096 (fj_appended_end ?j) (example_entry 1) (Some ?rp) w RECORD_VERSION
      = (f, Inr r)" and r: "jr_status r = Forward" "jr_offset r + jr_span r = fj_appended_end ?j + span"
    using w(2) sp off by (simp add: write_record_def Let_def vf_set_len_def vf_write_def no_faults_def MAX_RECORD_BYTES_def)
  let ?j' = "?j\<lparr>fj_wal := f, fj_records := fj_records ?j @ [r], fj_appended_end := jr_offset r + jr_span r, fj_needs_replay := True\<rparr>"
  have ab: "append_block ?E no_faults ?j (example_entry 1) 1 example_empty_proof 2 = (?j', Inr (boundary ?j'))"
    using g w(1) wr pg
    by (simp add: append_block_def append_payload_def Let_def header_matches_def)
      (simp add: example_entry_def example_env_def example_headers_def)
  have "reachable ?E 4096 example_id (s\<lparr>sy_j := ?j'\<rparr>)"
    using reachable_step [OF _ journal_step.append [OF example_wf, of ?E s no_faults 1 1 2]] g ab by simp
  then show ?thesis using ab g r span unfolding good_sys_def by auto
qed

lemma reachable_steps:
  "reachable E sysconf journal_id s \<Longrightarrow> (journal_step E)\<^sup>*\<^sup>* s s' \<Longrightarrow> reachable E sysconf journal_id s'"
  unfolding reachable_def by (meson rtranclp_trans)

definition published_sys :: "nat \<Rightarrow> u8 jsys \<Rightarrow> bool" where
  "published_sys n s \<longleftrightarrow> reachable example_env 4096 example_id s \<and> \<not> fj_poisoned (sy_j s) \<and> sy_pub s = None \<and>
     length (records (sy_j s)) = n \<and> (\<forall>r\<in>set (records (sy_j s)). jr_status r = Forward) \<and>
     fj_appended_end (sy_j s) = fj_published_end (sy_j s)"

lemma example_publish:
  assumes "good_sys n s"
  shows "\<exists>s'. published_sys n s'"
proof -
  note g = assms [unfolded good_sys_def]
  obtain j where j: "publish example_env no_faults (sy_j s) (boundary (sy_j s)) = (j, Inr ())"
    "(journal_step example_env)\<^sup>*\<^sup>* s (s\<lparr>sy_j := j\<rparr>)" "\<not> fj_poisoned j" "fj_records j = fj_records (sy_j s)"
    "fj_published_end j = fj_appended_end (sy_j s)"
    using publish_steps [OF reachable_inv [of example_env 4096 example_id s]] g by auto
  have r: "reachable example_env 4096 example_id (s\<lparr>sy_j := j\<rparr>)" using reachable_steps j(2) g by blast
  have ae: "fj_appended_end j = fj_appended_end (sy_j s)"
    using j(1) by (auto simp: publish_def poison_on_error_def publish_flush_def publish_mark_def vf_sync_def
        bind_s_def split: sum.splits bool.splits option.splits if_splits prod.splits)
  have "records j = fj_records j"
    using all_published [OF reachable_inv [OF r]] j(3,5) ae by simp
  then show ?thesis using r g j ae by (intro exI [of _ "s\<lparr>sy_j := j\<rparr>"]) (simp add: published_sys_def)
qed

lemma example_published: "\<exists>s. published_sys 2 s"
proof -
  obtain s0 where "good_sys 0 s0" using example_new by blast
  then obtain s1 where "good_sys (0 + 1) s1" using example_append [of 0 s0] by auto
  then obtain s2 where "good_sys (0 + 1 + 1) s2" using example_append [of "0 + 1" s1] by auto
  then have "good_sys 2 s2" by (simp only: add_0_left one_add_one)
  then show ?thesis by (rule example_publish)
qed

lemma example_appended: "\<exists>s. good_sys 1 s"
proof -
  obtain s0 where "good_sys 0 s0" using example_new by blast
  then show ?thesis using example_append [of 0 s0] by auto
qed

lemma crash_self: "crash_image f (vf_data f)"
  by (auto simp: crash_image_def versions_def)

lemma detect_self: "vf_past f = [] \<Longrightarrow> checksums_detect E journal_id n f (vf_data f)"
  by (auto simp: checksums_detect_def versions_def)

theorem journal_crash_recovery_witness:
  "\<exists>s dir' j. published_sys 2 s \<and>
     ForestJournal_open example_env 4096 [] (crashed_dir empty_dir (vf_data (fj_wal (sy_j s))) (vf_data (fj_mk (sy_j s))))
       = Inr (dir', j) \<and> records j = fj_records j \<and> \<not> fj_poisoned j"
proof -
  obtain s where s: "published_sys 2 s" using example_published by blast
  then have r: "reachable example_env 4096 example_id s" "\<not> fj_poisoned (sy_j s)" by (simp_all add: published_sys_def)
  have "vf_past (fj_mk (sy_j s)) = []"
    by (rule live_healthy [OF reachable_inv [OF r(1)] r(2)]) (simp add: mk_ok_def)
  from journal_crash_recovery [OF r(1) crash_self crash_self detect_self [OF this], of 4096 "[]" empty_dir] s
  show ?thesis by blast
qed


theorem publish_durable_witness:
  "\<exists>s j. good_sys 1 s \<and> publish example_env no_faults (sy_j s) (boundary (sy_j s)) = (j, Inr ()) \<and>
     records j = fj_records (sy_j s)"
proof -
  obtain s where s: "good_sys 1 s" using example_appended by blast
  then have r: "reachable example_env 4096 example_id s" "\<not> fj_poisoned (sy_j s)" "sy_pub s = None"
    "pm_generation (fj_marker (sy_j s)) + 1 < 2 ^ 64" by (auto simp: good_sys_def)
  from publish_durable [OF r, of 4096 "[]" empty_dir] s show ?thesis by blast
qed

theorem append_extends_witness:
  "\<exists>s j b q. good_sys 0 s \<and>
     append_block example_env no_faults (sy_j s) (example_entry 1) 1 example_empty_proof 2 = (j, Inr b) \<and>
     fj_records j = fj_records (sy_j s) @ [q] \<and> records j = records (sy_j s) \<and> jr_entry q = example_entry 1"
proof -
  obtain s where s: "good_sys 0 s" using example_new by blast
  then obtain j b where j: "append_block example_env no_faults (sy_j s) (example_entry 1) 1 example_empty_proof 2 = (j, Inr b)"
    using example_append [of 0 s] by auto
  have r: "reachable example_env 4096 example_id s" using s by (simp add: good_sys_def)
  from append_extends [OF r example_wf j] s j show ?thesis by auto
qed


theorem rollback_durable_witness:
  "\<exists>s j dir' j' old. published_sys 2 s \<and> mark_rolled_back no_faults (sy_j s) 1 = (j, Inr ()) \<and>
     ForestJournal_open example_env 4096 [] (crashed_dir empty_dir (vf_data (fj_wal j)) (vf_data (fj_mk j))) = Inr (dir', j') \<and>
     fj_records j' = old @ (records (sy_j s))[1 := (records (sy_j s) ! 1)\<lparr>jr_status := RolledBack\<rparr>]"
proof -
  obtain s where s: "published_sys 2 s" using example_published by blast
  then obtain j where j: "mark_rolled_back no_faults (sy_j s) 1 = (j, Inr ())"
    by (simp add: published_sys_def mark_rolled_back_def vf_write_def vf_sync_def no_faults_def Let_def)
  have r: "reachable example_env 4096 example_id s" using s by (simp add: published_sys_def)
  from rollback_durable [OF r j crash_self crash_self, of 4096 "[]" empty_dir] s j show ?thesis by blast
qed

theorem prune_retains_witness:
  "\<exists>s j q k. published_sys 2 s \<and> prepare_prune (sy_j s) 1 = (j, Inr (Some q)) \<and> 0 < k \<and>
     records j = drop k (records (sy_j s)) \<and> pr_count q = k"
proof -
  obtain s where s: "published_sys 2 s" using example_published by blast
  then have st: "jr_status (records (sy_j s) ! 1) = Forward" and l: "length (records (sy_j s)) = 2"
    and np: "\<not> fj_poisoned (sy_j s)" by (auto simp: published_sys_def)
  have "prune_count (records (sy_j s)) 1 2 0 = 1" using st by (simp add: numeral_2_eq_2)
  then obtain j q where j: "prepare_prune (sy_j s) 1 = (j, Inr (Some q))"
    using np l by (simp add: prepare_prune_def Let_def)
  have r: "reachable example_env 4096 example_id s" using s by (simp add: published_sys_def)
  from prune_retains [OF r j] s j show ?thesis by blast
qed

theorem clean_marker_consumed_witness:
  "\<exists>dir j. ForestJournal_open example_env 4096 example_id empty_dir = Inr (dir, j) \<and>
     jd_clean dir = None \<and> fj_needs_replay j"
proof -
  obtain dir j where j: "ForestJournal_open example_env 4096 example_id empty_dir = Inr (dir, j)"
    using new_journal [OF example_env_ok] by blast
  from clean_marker_consumed [OF j] j show ?thesis by (auto simp: empty_dir_def)
qed


end
