(* ===== verification/Forest_Properties.thy ===== *)
theory Forest_Properties
  imports Overlay_View Journal_Properties
begin

text \<open>
  The correctness of the steady-state forest, stated over its operations: applying and undoing
  entries, replaying a journal onto a torn forest, pruning, the view through the overlay, lookups,
  opening and growing.
\<close>

section \<open>Undo and replay\<close>

text \<open>C23. Undoing a block restores the state before it: for an entry that records the states and
  leaf positions of the forest it was planned on, in this or an older layout, \<open>apply_forward\<close>
  followed by \<open>apply_backward\<close> succeeds and leaves every node, every leaf map key and the leaf
  count as they were.\<close>

theorem forward_backward_inverse:
  assumes "db_ok E" and "wf_steady R s" and "planned_on E R e (abs_state E s)"
  shows "\<exists>s1 s2. apply_forward E s e = Inr s1 \<and> apply_backward E s1 e = Inr s2 \<and>
    abs_state E s2 = abs_state E s \<and> wf_steady R s2"
proof -
  have e: "entry_fits R e" using assms(3) by (simp add: planned_on_def)
  obtain s1 where s1: "apply_forward E s e = Inr s1" "wf_steady R s1" "abs_state E s1 = fwd E R e (abs_state E s)"
    using apply_forward_spec [OF assms(1,2) e] by blast
  obtain s2 where "apply_backward E s1 e = Inr s2" "wf_steady R s2" "abs_state E s2 = bwd E R e (abs_state E s1)"
    using apply_backward_spec [OF assms(1) s1(2) e] by blast
  then show ?thesis using s1 bwd_fwd [OF assms(3)] by auto
qed

text \<open>C24. Replay repairs an interrupted update: let the journal hold a history over the state \<open>A0\<close>
  (blocks planned and appended, the newest of them rolled back and marked, in any number), ending
  in the state \<open>A\<close>; let the forest on disk hold anything at all in the nodes and leaf map keys
  those blocks touch, and \<open>A0\<close> elsewhere. Then \<open>replay_journal\<close> succeeds and the forest holds
  \<open>A\<close>.\<close>

theorem replay_repairs:
  assumes "db_ok E" and "wf_steady R s" and "history E R A0 (status_of (records j)) A"
    and "agree_off E R (map jr_entry (records j)) A0 (abs_state E s)"
    and "records j \<noteq> []" and "fj_needs_replay j"
  shows "\<exists>s'. replay_journal E s j = Inr (s', True) \<and> wf_steady R s' \<and> abs_state E s' = A"
  using assms by (rule replay_spec)

lemma prune_count_at:
  "0 < prune_count rs keep n f \<Longrightarrow> prune_count rs keep n f < n \<and> jr_status (rs ! prune_count rs keep n f) = Forward"
  by (induction rs keep n f rule: prune_count.induct) (auto split: if_splits)

text \<open>C25. Pruning never removes what a replay needs: when the journal holds a history over \<open>A0\<close>
  ending in \<open>A\<close>, the records kept by \<open>prepare_prune\<close> hold a history, ending in the same \<open>A\<close>, over
  the state the first of them was planned on, even when blocks were rolled back in between.\<close>

theorem prune_keeps_history:
  assumes "prepare_prune j keep = (j', Inr (Some q))" and "fj_records j = records j"
    and "history E R A0 (status_of (records j)) A"
  shows "\<exists>A1. history E R A1 (status_of (fj_records j')) A \<and> pr_count q < length (records j) \<and>
    fj_records j' = drop (pr_count q) (records j)"
proof -
  let ?rs = "records j"
  let ?n = "prune_count ?rs keep (length ?rs) 0"
  have n: "?n \<noteq> 0" "fj_records j' = drop ?n ?rs" "pr_count q = ?n"
    using assms(1,2) by (auto simp: prepare_prune_def Let_def split: if_splits)
  have st: "?n < length ?rs \<and> jr_status (?rs ! ?n) = Forward" if "?n \<noteq> 0"
    using prune_count_at [of ?rs keep "length ?rs" 0] that by auto
  have "drop ?n ?rs = ?rs ! ?n # drop (Suc ?n) ?rs" using st n(1) by (simp add: Cons_nth_drop_Suc)
  then have "status_of ?rs = status_of (take ?n ?rs) @ (jr_entry (?rs ! ?n), Forward) # status_of (drop (Suc ?n) ?rs)"
    using st n(1) by (metis (mono_tags, lifting) append_take_drop_id list.simps(9) map_append)
  from history_suffix [OF assms(3) this] show ?thesis
    using n st \<open>drop ?n ?rs = ?rs ! ?n # drop (Suc ?n) ?rs\<close> by auto
qed

section \<open>The view through the overlay\<close>

lemma read_seen:
  assumes "wf_steady R s" and "unat p < 2 ^ (R + 1) - 1"
  shows "read_with_overlay s overlay p =
    (let st = seen (overlay p) (node_state (sf_forest s) p)
     in if jn_ready st then Inr \<lparr>nd_hash = jn_hash st, nd_spent = jn_spent st\<rparr>
        else bail ''forest position is uninitialized'')"
proof -
  have "node (sf_forest s) p = Inr (ff_nodes (sf_forest s) ! unat p)"
    using assms wf_steady_forest [OF assms(1)] by (simp add: node_eq wf_steady_def)
  then show ?thesis
    by (auto simp: read_with_overlay_def seen_def node_state_def journal_state_def try_read_def norm_def Let_def
        UNINITIALIZED_def split: option.splits)
qed

lemma fold_retire:
  "distinct (map je_height (es1 @ es2)) \<Longrightarrow> fold (\<lambda>e ov. retire ov e) es1 (overlay_of (es1 @ es2)) = overlay_of es2"
proof (induction es1)
  case (Cons e es1)
  then have "je_height e \<notin> je_height ` set (es1 @ es2)" by auto
  then have "retire (overlay_of (e # es1 @ es2)) e = overlay_of (es1 @ es2)" by (rule retire_first)
  then show ?case using Cons by simp
qed simp

text \<open>C26. The producer's view does not change when the durability worker catches up: with the pending
  blocks \<open>window @ rest\<close> in the overlay, once the worker has applied the window in one batch and
  the producer has retired its blocks, the overlay is exactly the overlay of the rest, and every
  position of the forest reads the same as before.\<close>

theorem retire_keeps_view:
  assumes "db_ok E" and "wf_steady R s" and "sorted_blocks window"
    and "\<forall>e\<in>set (window @ rest). entry_fits R e \<and> entry_rows R e = R"
    and "distinct (map je_height (window @ rest))" and "unat p < 2 ^ (R + 1) - 1"
  shows "\<exists>s1. apply_forward_batch E s window = Inr s1 \<and>
    fold (\<lambda>e ov. retire ov e) window (overlay_of (window @ rest)) = overlay_of rest \<and>
    read_with_overlay s1 (ov_nodes (overlay_of rest)) p = read_with_overlay s (ov_nodes (overlay_of (window @ rest))) p"
proof -
  obtain s1 where s1: "apply_forward_batch E s window = Inr s1" "wf_steady R s1"
    "abs_state E s1 = fold (fwd E R) window (abs_state E s)"
    using batch_spec [OF assms(1-3)] assms(4) by auto
  have "seen (ov_nodes (overlay_of rest) p) (node_state (sf_forest s1) p) =
      seen (ov_nodes (overlay_of (window @ rest)) p) (node_state (sf_forest s) p)"
    using overlay_nodes [of rest R p s1 E] overlay_nodes [of "window @ rest" R p s E] assms(4) s1(3) by simp
  then show ?thesis
    using s1(1) fold_retire [OF assms(5)] read_seen [OF s1(2) assms(6)] read_seen [OF assms(2,6)] by simp
qed

lemma leaf_value_fetched:
  "fst (leaf_value leaves (v # vs) None) = Inr q \<longleftrightarrow> v = Some (le_bytes 8 q) \<and> q < leaves"
proof (cases v)
  case (Some bs)
  show ?thesis
  proof (cases "length bs = 8")
    case True
    then have "bs = le_bytes 8 (from_le bs :: u64)" by simp
    moreover have "from_le (le_bytes 8 q) = q" by simp
    ultimately have "bs = le_bytes 8 q \<longleftrightarrow> from_le bs = q" by metis
    then show ?thesis using Some True by (auto simp: leaf_value_def Let_def not_le)
  next
    case False
    then have "bs \<noteq> le_bytes 8 q" by auto
    then show ?thesis using Some False by (simp add: leaf_value_def Let_def)
  qed
qed (simp add: leaf_value_def Let_def)

lemma leaf_value_staged: "fst (leaf_value leaves vs (Some (h, v))) = Inr q \<longleftrightarrow> v = Some q \<and> q < leaves"
  by (cases v) (auto simp: leaf_value_def Let_def not_le)

text \<open>C27. Looking up leaf positions through the overlay is exact: when the outpoints in question have
  different leaf map keys, \<open>leaf_positions\<close> answers each outpoint with the position the leaf map
  would hold after the pending blocks, if that is below the leaf count, and with an error
  otherwise (a spent or unknown outpoint, or a position beyond the leaves).\<close>

theorem leaf_lookup_exact:
  assumes "db_ok E" and "inj_on (leaf_map_key E) (set ps \<union> \<Union> (entry_outpoints ` set es))"
  shows "\<exists>rs. leaf_positions E s (overlay_of es) leaves ps = Inr rs \<and> length rs = length ps \<and>
    (\<forall>i<length ps. \<forall>q. rs ! i = Inr q \<longleftrightarrow>
       fs_map (fold (fwd E R) es (abs_state E s)) (leaf_map_key E (ps ! i)) = Some (le_bytes 8 q) \<and> q < leaves)"
proof -
  let ?ov = "overlay_of es" and ?V = "fs_map (fold (fwd E R) es (abs_state E s))"
  have look: "?V (leaf_map_key E p) = (case ov_positions ?ov p of
      None \<Rightarrow> db_view E (sf_map s) (leaf_map_key E p) | Some (h, v) \<Rightarrow> map_option (le_bytes 8) v)" if "p \<in> set ps" for p
  proof -
    have m: "fs_map (abs_state E s) = db_view E (sf_map s)" by (simp add: abs_state_def)
    have "inj_on (leaf_map_key E) (insert p (\<Union> (entry_outpoints ` set es)))"
      by (rule inj_on_subset [OF assms(2)]) (use that in auto)
    from overlay_positions [OF this, of R "abs_state E s"] show ?thesis unfolding m .
  qed
  have le_inj: "a = b" if "le_bytes 8 a = le_bytes 8 b" for a b :: u64
  proof -
    have "from_le (le_bytes 8 a) = a" "from_le (le_bytes 8 b) = b" by simp_all
    then show ?thesis using that by metis
  qed
  let ?vals = "\<lambda>qs. map (\<lambda>p. db_view E (sf_map s) (leaf_map_key E p)) (filter (\<lambda>p. ov_positions ?ov p = None) qs)"
  let ?rs = "\<lambda>qs. leaf_values ?ov leaves qs (?vals qs)"
  have "length (?rs qs) = length qs \<and> (\<forall>i<length qs. \<forall>q. ?rs qs ! i = Inr q \<longleftrightarrow> ?V (leaf_map_key E (qs ! i)) = Some (le_bytes 8 q) \<and> q < leaves)"
    if "set qs \<subseteq> set ps" for qs
    using that
  proof (induction qs)
    case (Cons p qs)
    have hd: "fst (leaf_value leaves (?vals (p # qs)) (ov_positions ?ov p)) = Inr q \<longleftrightarrow>
        ?V (leaf_map_key E p) = Some (le_bytes 8 q) \<and> q < leaves" for q
      using look [of p] Cons.prems
      by (cases "ov_positions ?ov p") (auto simp: leaf_value_fetched leaf_value_staged dest: le_inj)
    have tl: "snd (leaf_value leaves (?vals (p # qs)) (ov_positions ?ov p)) = ?vals qs"
      by (auto simp: leaf_value_def Let_def split: option.splits)
    have eq: "?rs (p # qs) = fst (leaf_value leaves (?vals (p # qs)) (ov_positions ?ov p)) # ?rs qs"
      unfolding leaf_values.simps case_prod_beta tl ..
    have ih: "length (?rs qs) = length qs" "\<And>i q. i < length qs \<Longrightarrow> ?rs qs ! i = Inr q \<longleftrightarrow> ?V (leaf_map_key E (qs ! i)) = Some (le_bytes 8 q) \<and> q < leaves"
      using Cons by auto
    show ?case unfolding eq using hd ih by (auto simp only: nth_Cons' length_Cons split: if_splits)
  qed simp
  from this [of ps] show ?thesis
    using assms(1) by (simp add: leaf_positions_def db_ok_def comp_def)
qed

section \<open>Planning on the view\<close>

text \<open>C28. What the planner journals can be undone and replayed: an entry planned through the overlay of
  the pending blocks, whose deletions carry the positions the leaf map gives them and whose new
  outpoints are not in it, was planned on the state after those blocks. This is the condition
  under which applying it can be undone and under which it extends a history that replay repairs.\<close>

theorem plan_update_undoable:
  assumes "canonical E s (ov_nodes (overlay_of es)) L" and "unat leaves = length L"
    and "length L + length additions \<le> 2 ^ sf_rows s" and "\<forall>p\<in>snd ` set deletions. unat p < length L"
    and "\<forall>e\<in>set es. entry_rows (sf_rows s) e = sf_rows s"
    and "A = fold (fwd E (sf_rows s)) es (abs_state E s)" and "fs_leaves A = leaves"
    and "\<forall>(q, p)\<in>set deletions. fs_map A (leaf_map_key E q) = Some (le_bytes 8 p)"
    and "\<forall>(q, h)\<in>set additions. leaf_map_key E q \<notin> (\<lambda>d. leaf_map_key E (fst d)) ` set deletions \<longrightarrow> fs_map A (leaf_map_key E q) = None"
    and "plan_update_with_overlay E s height bh pbh leaves (ov_nodes (overlay_of es)) deletions additions = Inr e"
  shows "planned_on E (sf_rows s) e A \<and> bwd E (sf_rows s) e (fwd E (sf_rows s) e A) = A"
proof -
  let ?R = "sf_rows s" and ?ov = "ov_nodes (overlay_of es)"
  have R: "?R \<le> 62" "length (ff_nodes (sf_forest s)) = 2 ^ (?R + 1) - 1" using assms(1) by (simp_all add: canonical_def)
  have e: "unat (je_num_leaves e) = length L + length additions"
    "je_removed e = map (\<lambda>(p, position). \<lparr>ix_outpoint = p, ix_position = position\<rparr>) deletions"
    "je_added e = added_entries leaves additions" "je_forest_rows e = Some (of_nat ?R)"
    "sorted_wrt (<) (map fd_position (je_forest e))"
    "\<And>d. d \<in> set (je_forest e) \<Longrightarrow> base_state (sf_forest s, ?ov) (fd_position d) = Inr (fd_before d) \<and>
      unat (fd_position d) < length (ff_nodes (sf_forest s))"
    using plan_update_spec [OF assms(1-3), of deletions height bh pbh] assms(4,10) by auto
  have rows: "entry_rows ?R e = ?R" using e(4) R(1) by (simp add: entry_rows_def unat_of_nat_small)
  have outs: "ix_outpoint ` set (added_entries l as) = fst ` set as" for l as
    by (induction as arbitrary: l) auto
  have "norm (fd_before d) = fs_nodes A (fd_position d)" if "d \<in> set (je_forest e)" for d
  proof -
    have "seen (?ov (fd_position d)) (node_state (sf_forest s) (fd_position d)) = norm (fd_before d)"
      using e(6) [OF that] by (auto simp: base_state_def seen_def node_state_def split: option.splits)
    then show ?thesis using overlay_nodes [OF assms(5), of "fd_position d" s E] assms(6) by simp
  qed
  moreover have "entry_fits ?R e"
    using e(1,3,6) rows R(2) by (simp add: entry_fits_def)
  moreover have "distinct (map fd_position (je_forest e))" using e(5) strict_sorted_iff by blast
  moreover have "\<forall>d\<in>set (je_removed e). fs_map A (delta_key E d) = Some (le_bytes 8 (ix_position d))"
    using assms(8) e(2) by (auto simp: delta_key_def)
  moreover have "\<forall>d\<in>set (je_added e). delta_key E d \<notin> delta_key E ` set (je_removed e) \<longrightarrow> fs_map A (delta_key E d) = None"
  proof (intro ballI impI)
    fix d assume d: "d \<in> set (je_added e)" "delta_key E d \<notin> delta_key E ` set (je_removed e)"
    then obtain h where "(ix_outpoint d, h) \<in> set additions" using outs [of leaves additions] e(3) by force
    moreover have "delta_key E ` set (je_removed e) = (\<lambda>d. leaf_map_key E (fst d)) ` set deletions"
      using e(2) by (force simp: delta_key_def image_iff)
    ultimately show "fs_map A (delta_key E d) = None" using assms(9) d(2) by (auto simp: delta_key_def)
  qed
  moreover have "fs_leaves A = je_num_leaves e - of_nat (length (je_added e))"
    using previous_num_leaves_eq [of e leaves] e(1,3) assms(2,7) by (auto simp: previous_num_leaves_def checked_sub_eq_Some)
  ultimately have "planned_on E ?R e A" using R(1) rows by (simp add: planned_on_def entry_position_same)
  then show ?thesis using bwd_fwd by blast
qed

section \<open>Opening and growing\<close>

text \<open>The binary search finds the boundary between initialized and uninitialized leaves.\<close>

lemma count_leaves_spec:
  assumes "wf_forest f" and "\<And>k. k < unat hi \<Longrightarrow> (\<exists>n. try_read f (of_nat k) = Inr (Some n)) = (k < n)"
    and "\<And>k. k < unat hi \<Longrightarrow> n \<le> k \<Longrightarrow> try_read f (of_nat k) = Inr None"
    and "unat lo \<le> n" and "n \<le> unat hi"
  shows "\<exists>c. count_leaves f lo hi = Inr c \<and> unat c = n"
  using assms(2-5)
proof (induction f lo hi rule: count_leaves.induct)
  case (1 f lo hi)
  show ?case
  proof (cases "lo < hi")
    case False
    then show ?thesis using 1(5,6) by (subst count_leaves.simps) (auto simp: word_less_nat_alt)
  next
    case True
    let ?m = "lo + (hi - lo) div 2"
    have m: "?m < hi" "unat ?m < unat hi" "unat lo \<le> unat ?m"
      using half_word_less [OF True] half_word [OF True] by (simp_all add: word_less_nat_alt)
    have om: "of_nat (unat ?m) = ?m" by simp
    show ?thesis
    proof (cases "unat ?m < n")
      case less: True
      obtain x where x: "try_read f ?m = Inr (Some x)" using 1(3) [OF m(2)] less om by auto
      have "unat (?m + 1) \<le> n" using less unat_plus_one [OF m(1)] by simp
      from 1(1) [OF True refl x _ 1(3,4) this 1(6)] obtain c where "count_leaves f (?m + 1) hi = Inr c" "unat c = n" by auto
      then show ?thesis using True x by (subst count_leaves.simps) (simp add: Let_def)
    next
      case ge: False
      have x: "try_read f ?m = Inr None" using 1(4) [OF m(2)] ge om by auto
      have b: "k < unat hi" if "k < unat ?m" for k using that m(2) by simp
      obtain c where "count_leaves f lo ?m = Inr c" "unat c = n"
        using 1(2) [OF True refl x _ 1(3) [OF b] 1(4) [OF b] 1(5)] ge by auto
      then show ?thesis using True x by (subst count_leaves.simps) (simp add: Let_def)
    qed
  qed
qed

text \<open>C29. Opening finds the leaf count: for a node file of \<open>R\<close> rows without an unfinished resize whose
  first \<open>n\<close> bottom nodes are initialized and whose other bottom nodes are not, opening the forest
  recovers exactly \<open>n\<close> leaves and \<open>R\<close> rows and changes no node.\<close>

theorem open_counts_leaves:
  assumes "length (ff_nodes f) = 2 ^ (R + 1) - 1" and "R \<le> 62" and "ff_marker f = None" and "0 < n" and "n \<le> 2 ^ R"
    and "\<forall>k<2 ^ R. (read_ready_node (ff_nodes f ! k) \<noteq> None) = (k < n)" and "db_opens E"
  shows "\<exists>s. SteadyStateForest_open E (33 * length (ff_nodes f)) f d = Inr s \<and> sf_forest s = f \<and>
    unat (sf_leaves s) = n \<and> sf_rows s = R \<and> db_view E (sf_map s) = db_view E d"
proof -
  have p: "(2 :: nat) ^ (R + 1) \<le> 2 ^ 63" using assms(2) by (intro power_increasing) auto
  have wf: "wf_forest f" using p assms(1) by (simp add: wf_forest_def)
  obtain cap where cap: "checked_shl_one R = Some cap" "unat cap = 2 ^ R" using checked_shl_one_eq assms(2) by blast
  have rd: "try_read f (of_nat k) = Inr (read_ready_node (ff_nodes f ! k))" if "k < unat cap" for k
  proof -
    have "k < 2 ^ 64" "k < length (ff_nodes f)" using that cap(2) p assms(1) by simp_all
    then show ?thesis using wf by (simp add: try_read_def node_eq unat_of_nat_small)
  qed
  have init: "(\<exists>x. try_read f (of_nat k) = Inr (Some x)) = (k < n)" if "k < unat cap" for k
    using rd [OF that] assms(6) that cap(2) by auto
  have none: "try_read f (of_nat k) = Inr None" if "k < unat cap" "n \<le> k" for k
    using rd [OF that(1)] assms(6) that cap(2) by (metis leD not_None_eq)
  obtain c where c: "count_leaves f 0 cap = Inr c" "unat c = n"
    using count_leaves_spec [OF wf init none, of cap 0] assms(5) cap(2) by auto
  obtain d' where d': "db_open_runtime E d = Inr d'" "db_view E d' = db_view E d" using assms(7) unfolding db_opens_def by blast
  have "FlatForest_open (33 * length (ff_nodes f)) f = Inr f"
    using assms(1,3) one_less_power [of "2 :: nat" "R + 1"]
    by (simp add: FlatForest_open_def resume_resize_if_needed_def read_resize_marker_def)
  moreover have "forest_rows_from_node_count (node_count f) = Inr R"
    using forest_rows_from_capacity [OF assms(2)] assms(1) by (simp add: node_count_def)
  moreover have "c \<noteq> 0" using c(2) assms(4) by auto
  ultimately show ?thesis using cap(1) c d' by (simp add: SteadyStateForest_open_def)
qed

lemma canonical_resized:
  assumes "canonical E s Map.empty L" and "relocated (sf_rows s) S (ff_nodes (sf_forest s)) (ff_nodes g)"
    and "sf_rows s \<le> S" and "S \<le> 62"
  shows "canonical E (s\<lparr>sf_forest := g, sf_rows := S\<rparr>) Map.empty L"
proof -
  let ?R = "sf_rows s"
  have n: "length L \<le> 2 ^ ?R" and R: "?R \<le> 63" using assms(1) by (simp_all add: canonical_def)
  have wf: "wf_forest (sf_forest s)" "wf_forest g"
    using wf_base_bound [of "(sf_forest s, Map.empty)" ?R] wf_base_bound [of "(g, Map.empty)" S] assms
    by (simp_all add: canonical_iff wf_base_def relocated_def)
  have "try_read g (posw S r k) = try_read (sf_forest s) (posw ?R r k)" if "pop (length L) r k" for r k
  proof -
    have c: "coord ?R r k" "coord S r k" using pop_coord [OF n that] coord_mono assms(3) by blast+
    have "pos ?R r k < length (ff_nodes (sf_forest s))" "pos S r k < length (ff_nodes g)"
      using coord_pos_less(2) [OF c(1)] coord_pos_less(2) [OF c(2)] assms(1,2) by (simp_all add: canonical_def relocated_def)
    moreover have "ff_nodes g ! pos S r k = ff_nodes (sf_forest s) ! pos ?R r k" using assms(2) c(1) by (simp add: relocated_def)
    ultimately show ?thesis using wf c R assms(4) by (simp add: try_read_def node_eq)
  qed
  moreover have "length L \<le> 2 ^ S" using n power_increasing [OF assms(3), of "2 :: nat"] by linarith
  ultimately show ?thesis using assms by (simp add: canonical_def read_with_overlay_def relocated_def)
qed


section \<open>Concrete instances\<close>

lemma example_wf_steady: "wf_steady 2 example_steady"
  by (simp add: wf_steady_def example_steady_def)

lemma example_node_state: "node_state (sf_forest example_steady) p = UNINITIALIZED"
  by (auto simp: node_state_def journal_state_def try_read_def node_def example_steady_def nth_Cons'
      read_ready_node_def zero_node_def READY_def node_count_def word_less_nat_alt word_le_nat_alt split: sum.splits if_splits)

lemma example_planned: "distinct ps \<Longrightarrow> \<forall>p\<in>set ps. unat p < 7 \<Longrightarrow> planned_on example_fenv 2 (example_block 1 ps) (abs_state example_fenv example_steady)"
proof -
  assume a: "distinct ps" "\<forall>p\<in>set ps. unat p < 7"
  have "fs_nodes (abs_state example_fenv example_steady) p = UNINITIALIZED" for p
    by (simp add: abs_state_def example_node_state)
  moreover have "fs_map (abs_state example_fenv example_steady) k = None" for k
    by (simp add: abs_state_def example_fenv_def example_steady_def)
  moreover have "fs_leaves (abs_state example_fenv example_steady) = 0" by (simp add: abs_state_def example_steady_def)
  ultimately show ?thesis
    using a by (simp add: planned_on_def entry_fits_def entry_rows_def example_block_def comp_def norm_def UNINITIALIZED_def)
qed

theorem forward_backward_inverse_witness:
  "\<exists>s1 s2. apply_forward example_fenv example_steady (example_block 1 [0, 1]) = Inr s1 \<and>
     apply_backward example_fenv s1 (example_block 1 [0, 1]) = Inr s2 \<and>
     abs_state example_fenv s2 = abs_state example_fenv example_steady"
  using forward_backward_inverse [OF example_db_ok(1) example_wf_steady example_planned [of "[0, 1]"]] by auto

definition example_record :: "JournalEntry \<Rightarrow> u8 JournalRecord" where
  "example_record e = \<lparr>jr_entry = e, jr_status = Forward, jr_replay = None, jr_offset = 0, jr_span = 0, jr_checksum = []\<rparr>"

definition example_journal :: "JournalEntry list \<Rightarrow> u8 ForestJournal" where
  "example_journal es =
     \<lparr>fj_wal = synced_file [], fj_mk = synced_file [], fj_page_size = 4096, fj_journal_id = [], fj_records = map example_record es,
      fj_marker = \<lparr>pm_generation = 0, pm_replay_start = 0, pm_boundary = empty_boundary [] 0 4096\<rparr>,
      fj_appended_end = 0, fj_published_end = 0, fj_epoch = 0, fj_poisoned = False, fj_needs_replay = True\<rparr>"

lemma example_journal_records: "records (example_journal es) = map example_record es" "fj_records (example_journal es) = map example_record es"
  by (simp_all add: example_journal_def records_def records_upto_def example_record_def empty_boundary_def filter_map comp_def)

lemma example_history:
  "history example_fenv 2 (abs_state example_fenv example_steady) (status_of (map example_record [example_block 1 [0, 1]]))
     (fwd example_fenv 2 (example_block 1 [0, 1]) (abs_state example_fenv example_steady))"
  using history.extend [OF history.start example_planned [of "[0, 1]"]] by (simp add: example_record_def)

text \<open>A crash left rubbish in node 1, which the journalled block touches.\<close>

theorem replay_repairs_witness:
  "\<exists>s'. replay_journal example_fenv
     (example_steady\<lparr>sf_forest := (sf_forest example_steady)\<lparr>ff_nodes := (replicate 7 zero_node)[1 := \<lparr>fn_hash = replicate 32 9, fn_flags = 3\<rparr>]\<rparr>\<rparr>)
     (example_journal [example_block 1 [0, 1]]) = Inr (s', True) \<and>
     abs_state example_fenv s' = fwd example_fenv 2 (example_block 1 [0, 1]) (abs_state example_fenv example_steady)"
proof -
  let ?f = "(sf_forest example_steady)\<lparr>ff_nodes := (replicate 7 zero_node)[1 := \<lparr>fn_hash = replicate 32 9, fn_flags = 3\<rparr>]\<rparr>"
  let ?s = "example_steady\<lparr>sf_forest := ?f\<rparr>" and ?A = "abs_state example_fenv example_steady"
  have wf: "wf_steady 2 ?s" by (simp add: wf_steady_def example_steady_def)
  have eq: "?f = set_node (sf_forest example_steady) 1 (state_node \<lparr>jn_ready = True, jn_spent = True, jn_hash = replicate 32 9\<rparr>)"
    by (simp add: set_node_def state_node_def example_steady_def READY_def SPENT_def)
  have "node_state ?f p = node_state (sf_forest example_steady) p" if "p \<noteq> 1" for p
    unfolding eq using that node_state_set [OF wf_steady_forest [OF example_wf_steady], of 1] by (simp add: example_steady_def)
  moreover have "1 \<in> touched 2 (example_block 1 [0, 1])"
    by (simp add: touched_def example_block_def entry_position_def entry_rows_def)
  ultimately have ag: "agree_off example_fenv 2 (map jr_entry (records (example_journal [example_block 1 [0, 1]]))) ?A (abs_state example_fenv ?s)"
    by (auto simp: agree_off_def abs_state_def example_journal_records example_record_def) metis
  have "history example_fenv 2 ?A (status_of (records (example_journal [example_block 1 [0, 1]]))) (fwd example_fenv 2 (example_block 1 [0, 1]) ?A)"
    using example_history by (simp add: example_journal_records)
  moreover have "records (example_journal [example_block 1 [0, 1]]) \<noteq> []" "fj_needs_replay (example_journal [example_block 1 [0, 1]])"
    by (simp add: example_journal_records) (simp add: example_journal_def)
  ultimately show ?thesis using replay_repairs [OF example_db_ok(1) wf _ ag] by blast
qed

text \<open>Two blocks, of which the first is pruned.\<close>

definition example_second :: JournalEntry where
  "example_second =
     (example_block 2 [2])\<lparr>je_added := [\<lparr>ix_outpoint = example_outpoint 2, ix_position = 1\<rparr>]\<rparr>"

lemma example_keys: "leaf_map_key example_fenv (example_outpoint i) = replicate 16 i"
  by (simp add: leaf_map_key_def example_fenv_def example_outpoint_def)

lemma example_after_first:
  "fs_nodes (fwd example_fenv 2 (example_block 1 [0, 1]) (abs_state example_fenv example_steady)) 2 = UNINITIALIZED"
  "fs_map (fwd example_fenv 2 (example_block 1 [0, 1]) (abs_state example_fenv example_steady)) (replicate 16 2) = None"
  "fs_leaves (fwd example_fenv 2 (example_block 1 [0, 1]) (abs_state example_fenv example_steady)) = 1"
proof -
  show "fs_nodes (fwd example_fenv 2 (example_block 1 [0, 1]) (abs_state example_fenv example_steady)) 2 = UNINITIALIZED"
    by (subst fwd_nodes_other) (simp_all add: touched_def example_block_def entry_position_def entry_rows_def abs_state_def example_node_state)
  have "replicate 16 (2 :: u8) \<noteq> replicate 16 1" by (simp add: replicate_eq_replicate)
  then show "fs_map (fwd example_fenv 2 (example_block 1 [0, 1]) (abs_state example_fenv example_steady)) (replicate 16 2) = None"
    by (subst fwd_map_other) (simp_all add: touched_keys_def example_block_def delta_key_def example_keys abs_state_def,
        simp add: example_fenv_def example_steady_def)
qed (simp add: fwd_def example_block_def)

lemma example_two_blocks:
  "\<exists>A. history example_fenv 2 (abs_state example_fenv example_steady) (status_of (map example_record [example_block 1 [0, 1], example_second])) A"
proof -
  let ?A = "fwd example_fenv 2 (example_block 1 [0, 1]) (abs_state example_fenv example_steady)"
  have "planned_on example_fenv 2 example_second ?A"
    using example_after_first
    by (simp add: planned_on_def entry_fits_def entry_rows_def example_second_def example_block_def entry_position_def
        delta_key_def example_keys norm_def UNINITIALIZED_def)
  from history.extend [OF example_history this] show ?thesis by (auto simp: example_record_def)
qed

theorem prune_keeps_history_witness:
  "\<exists>j' q A0 A A1. prepare_prune (example_journal [example_block 1 [0, 1], example_second]) 1 = (j', Inr (Some q)) \<and>
     history example_fenv 2 A0 (status_of (records (example_journal [example_block 1 [0, 1], example_second]))) A \<and>
     history example_fenv 2 A1 (status_of (fj_records j')) A \<and> pr_count q = 1"
proof -
  let ?j = "example_journal [example_block 1 [0, 1], example_second]"
  have r: "records ?j = fj_records ?j" "records ?j = [example_record (example_block 1 [0, 1]), example_record example_second]"
    by (simp_all add: example_journal_records)
  have p: "prepare_prune ?j 1 = (?j\<lparr>fj_records := drop 1 (fj_records ?j)\<rparr>, Inr (Some \<lparr>pr_replay_start = 0, pr_count = 1\<rparr>))"
    unfolding prepare_prune_def r(2) by (simp add: Let_def example_record_def numeral_2_eq_2) (simp add: example_journal_def)
  obtain A where A: "history example_fenv 2 (abs_state example_fenv example_steady) (status_of (records ?j)) A"
    using example_two_blocks unfolding example_journal_records by blast
  obtain A1 where "history example_fenv 2 A1 (status_of (fj_records (?j\<lparr>fj_records := drop 1 (fj_records ?j)\<rparr>))) A"
    using prune_keeps_history [OF p r(1) [symmetric] A] by blast
  then show ?thesis using p A by (intro exI conjI) (assumption | simp)+
qed

theorem retire_keeps_view_witness:
  "\<exists>s1. apply_forward_batch example_fenv example_steady [example_block 1 [0, 1]] = Inr s1 \<and>
     read_with_overlay s1 (ov_nodes (overlay_of [example_block 2 [1, 4]])) 1 =
     read_with_overlay example_steady (ov_nodes (overlay_of ([example_block 1 [0, 1]] @ [example_block 2 [1, 4]]))) 1"
proof -
  have so: "sorted_blocks [example_block 1 [0, 1]]" by (simp add: sorted_blocks_def example_block_def)
  have fit: "\<forall>e\<in>set ([example_block 1 [0, 1]] @ [example_block 2 [1, 4]]). entry_fits 2 e \<and> entry_rows 2 e = 2"
    by (simp add: entry_fits_def entry_rows_def example_block_def)
  have hs: "distinct (map je_height ([example_block 1 [0, 1]] @ [example_block 2 [1, 4]]))" by (simp add: example_block_def)
  have p: "unat (1 :: u64) < 2 ^ (2 + 1) - 1" by simp
  from retire_keeps_view [OF example_db_ok(1) example_wf_steady so fit hs p] show ?thesis by blast
qed

theorem leaf_lookup_exact_witness:
  "\<exists>rs. leaf_positions example_fenv example_steady (overlay_of [example_block 1 [0, 1]]) 1 [example_outpoint 1, example_outpoint 2] = Inr rs \<and>
     rs ! 0 = Inr 0 \<and> (\<forall>q. rs ! 1 \<noteq> Inr q)"
proof -
  let ?A = "fold (fwd example_fenv 2) [example_block 1 [0, 1]] (abs_state example_fenv example_steady)"
  have "replicate 16 (2 :: u8) \<noteq> replicate 16 1" by (simp add: replicate_eq_replicate)
  then have inj: "inj_on (leaf_map_key example_fenv)
      (set [example_outpoint 1, example_outpoint 2] \<union> \<Union> (entry_outpoints ` set [example_block 1 [0, 1]]))"
    by (auto simp: entry_outpoints_def example_block_def example_keys)
  from leaf_lookup_exact [OF example_db_ok(1) inj, of example_steady 1 2] obtain rs where
    rs: "leaf_positions example_fenv example_steady (overlay_of [example_block 1 [0, 1]]) 1 [example_outpoint 1, example_outpoint 2] = Inr rs"
    "\<forall>i<2. \<forall>q. rs ! i = Inr q \<longleftrightarrow> fs_map ?A (leaf_map_key example_fenv ([example_outpoint 1, example_outpoint 2] ! i)) = Some (le_bytes 8 q) \<and> q < 1"
    by auto
  have "fs_map ?A (replicate 16 1) = Some (le_bytes 8 (0 :: u64))"
    by (simp add: fwd_def put_index_def example_block_def delta_key_def example_keys)
  moreover have "fs_map ?A (replicate 16 2) = None" using example_after_first(2) by simp
  ultimately show ?thesis using rs by (auto simp: example_keys)
qed

theorem plan_update_undoable_witness:
  "\<exists>e. plan_update_with_overlay example_fenv example_steady 1 [] [] 0 (ov_nodes (overlay_of [])) [] example_additions = Inr e \<and>
     planned_on example_fenv 2 e (abs_state example_fenv example_steady)"
proof -
  have ov: "overlay_of [] = empty_overlay" by (simp add: overlay_of_def)
  obtain e where e: "plan_update_with_overlay example_fenv example_steady 1 [] [] 0 (ov_nodes (overlay_of [])) [] example_additions = Inr e"
    using example_first_block unfolding ov by blast
  have c: "canonical example_fenv example_steady (ov_nodes (overlay_of [])) []"
    by (rule canonical_empty) (simp_all add: example_steady_def)
  have m: "fs_map (abs_state example_fenv example_steady) k = None" for k
    by (simp add: abs_state_def example_fenv_def example_steady_def)
  have "planned_on example_fenv (sf_rows example_steady) e (abs_state example_fenv example_steady) \<and>
      bwd example_fenv (sf_rows example_steady) e (fwd example_fenv (sf_rows example_steady) e (abs_state example_fenv example_steady)) =
      abs_state example_fenv example_steady"
    by (rule plan_update_undoable [OF c _ _ _ _ _ _ _ _ e])
      (use m in \<open>simp_all add: example_additions_def example_steady_def abs_state_def\<close>)
  then show ?thesis using e by (auto simp: example_steady_def)
qed

theorem open_counts_leaves_witness:
  "\<exists>s. SteadyStateForest_open example_fenv (33 * 3) \<lparr>ff_nodes = [example_node 1, zero_node, example_node 3], ff_marker = None\<rparr> Map.empty = Inr s \<and>
     unat (sf_leaves s) = 1 \<and> sf_rows s = 1"
proof -
  let ?f = "\<lparr>ff_nodes = [example_node 1, zero_node, example_node 3], ff_marker = None\<rparr> :: FlatForest"
  have "\<forall>k<2 ^ 1. (read_ready_node (ff_nodes ?f ! k) \<noteq> None) = (k < 1)"
    by (auto simp: less_2_cases_iff read_ready_node_def zero_node_def example_node_def READY_def)
  from open_counts_leaves [of ?f 1 1, OF _ _ _ _ _ this example_db_ok(2), of Map.empty] show ?thesis by auto
qed


end
