(* ===== verification/Persistence_Properties.thy ===== *)
theory Persistence_Properties
  imports Persistence Forest_Properties Journal_Properties
begin

text \<open>
  The properties of the persistence worker of \<open>src/src/prover.rs\<close>: a window that was persisted is in every
  store, nothing is stored before its records are published, and a rollback undoes exactly the
  newest block in every store.
\<close>

section \<open>A persisted window\<close>

text \<open>The header of a block is the one its journal entry names.\<close>

definition header_of_entry :: "'h header_ops \<Rightarrow> 'h PersistenceBlock \<Rightarrow> bool" where
  "header_of_entry H b \<longleftrightarrow> h_block_hash H (pb_header b) = je_block_hash (pb_entry b)"

lemma distinct_hashes:
  assumes "batch_heights_ok H c blocks" and "\<forall>b\<in>set blocks. header_of_entry H b"
  shows "distinct (map (\<lambda>b. je_block_hash (pb_entry b)) blocks)"
proof -
  have "map hash_key (map (\<lambda>b. je_block_hash (pb_entry b)) blocks) = map (\<lambda>b. hash_key (h_block_hash H (pb_header b))) blocks"
    using assms(2) by (simp add: header_of_entry_def)
  then show ?thesis using assms(1) unfolding batch_heights_ok_def by (metis distinct_map)
qed

lemma persist_Inr:
  assumes "persist P io s blocks bnd = (s', Inr n)"
  shows "\<exists>j t j'. blocks \<noteq> [] \<and> extends_tip (ps_height s) (ps_tip_hash s) blocks \<and>
    publish (se_journal P) (io_publish io) (ps_journal s) bnd = (j, Inr ()) \<and>
    persist_stores P io (s\<lparr>ps_journal := j\<rparr>) blocks = (t, Inr ()) \<and>
    prune_journal (se_journal P) (io_prune io) (ps_journal t) = (j', Inr ()) \<and> n = length blocks \<and>
    s' = t\<lparr>ps_height := je_height (pb_entry (last blocks)), ps_tip_hash := je_block_hash (pb_entry (last blocks)),
           ps_journal := j', ps_notified := ps_notified t @ map (\<lambda>b. je_block_hash (pb_entry b)) blocks\<rparr>"
  using assms by (auto simp: persist_def bind_s_Inr on_store_Inr Let_def split: if_splits)

lemma stores_ok_same:
  "ps_header_index t = ps_header_index s \<Longrightarrow> ps_proof_file t = ps_proof_file s \<Longrightarrow> stores_ok P t = stores_ok P s"
  by (simp add: stores_ok_def)

lemma in_stores_same:
  "ps_header_index t = ps_header_index s \<Longrightarrow> ps_proof_file t = ps_proof_file s \<Longrightarrow> ps_proof_index t = ps_proof_index s \<Longrightarrow>
    in_stores P t b = in_stores P s b"
  by (simp add: in_stores_def)



subsection \<open>A concrete worker\<close>

definition example_stores :: "(u8, bytes \<Rightarrow> bytes option, (bytes \<Rightarrow> bytes option) \<times> nat, string \<Rightarrow> bytes \<Rightarrow> bytes option) stores_env" where
  "example_stores = \<lparr>se_journal = example_env, se_forest = example_fenv, se_index = example_index_db, se_kv = example_kv\<rparr>"

definition example_io :: "'d persist_io" where
  "example_io = \<lparr>io_publish = no_faults, io_append = no_faults, io_proof_sync = no_faults, io_header = (\<lambda>_. no_faults),
     io_header_sync = no_faults, io_journal = no_faults, io_prune = no_faults, io_truncate = no_faults, io_torn = (\<lambda>f. f)\<rparr>"

definition example_worker :: "u8 ForestJournal \<Rightarrow>
    (u8, bytes \<Rightarrow> bytes option, (bytes \<Rightarrow> bytes option) \<times> nat, string \<Rightarrow> bytes \<Rightarrow> bytes option) PersistenceState" where
  "example_worker j =
     \<lparr>ps_forest = example_steady, ps_journal = j, ps_dir = empty_dir, ps_proof_file = ProofFile_new None,
      ps_proof_index = (\<lambda>_ _. None), ps_header_index = \<lparr>hi_headers = synced_file [], hi_heights = Some (Map.empty, 4), hi_rest = (Map.empty, 4)\<rparr>,
      ps_notified = [], ps_height = 0, ps_tip_hash = replicate 32 0, ps_bootstrap_height = 0\<rparr>"

definition example_window :: "u8 PersistenceBlock list" where
  "example_window = [\<lparr>pb_entry = example_entry 1, pb_header = 1, pb_proof = example_empty_proof, pb_proof_forest_rows = 2\<rparr>]"

lemma example_worker_ok: "stores_ok example_stores (example_worker j)"
proof -
  have "consistent example_index_db example_headers \<lparr>hi_headers = synced_file [], hi_heights = Some (Map.empty, 4), hi_rest = (Map.empty, 4)\<rparr>"
    by (simp add: consistent_def wf_headers_def index_values_ok_def covers_def index_view_def example_index_db_def synced_file_def
        chain_of_def stored_header_def)
  then show ?thesis
    by (simp add: stores_ok_def example_stores_def example_worker_def example_index_db_ok example_kv_ok pf_ok_def ProofFile_new_def
        synced_file_def) (simp add: example_env_def example_header_ok)
qed

lemma example_window_ok:
  "\<forall>b\<in>set example_window. header_of_entry (se_hdr example_stores) b"
  "batch_heights_ok (se_hdr example_stores) (chain_of (se_hdr example_stores) (ps_header_index (example_worker j))) example_window"
  "extends_tip 0 (replicate 32 0) example_window"
  by (simp_all add: example_window_def header_of_entry_def example_stores_def batch_heights_ok_def key_free_def example_worker_def
      chain_of_def stored_header_def synced_file_def example_env_def example_header_enc)
    (simp_all add: example_headers_def example_entry_def)

lemma example_proof_bytes: "fst (CompactBlockProof_encode std_consensus example_empty_proof) = [0, 0, 0]"
  by (simp add: CompactBlockProof_encode_bytes std_consensus_def std_varint_enc_def example_empty_proof_def)

definition example_proof_file :: ProofFile where
  "example_proof_file = \<lparr>pf_file = \<lparr>vf_data = [0, 0, 0], vf_past = [[]]\<rparr>, pf_writer_pos = 3\<rparr>"

lemma example_append_proofs:
  "append_proofs std_consensus no_faults 0 (ProofFile_new None) example_window =
     (example_proof_file, Inr [(\<lparr>bi_offset = 0, bi_size = 3, bi_proof_forest_rows = Some 2\<rparr>, replicate 32 1)])"
proof -
  have a: "append_proof std_consensus no_faults 0 (ProofFile_new None) example_empty_proof =
      (example_proof_file, Inr \<lparr>bi_offset = 0, bi_size = 3, bi_proof_forest_rows = None\<rparr>)"
    by (simp add: append_proof_def reserve_def write_reserved_def example_proof_bytes MAX_COMPACT_PROOF_BYTES_def ProofFile_new_def
        synced_file_def checked_add_def vf_write_def no_faults_def put_data_def write_at_def set_len_bytes_def example_proof_file_def)
  have "get_proof std_consensus example_proof_file \<lparr>bi_offset = 0, bi_size = 3, bi_proof_forest_rows = None\<rparr> = Some example_empty_proof"
    using get_proof_stored [OF std_consensus_ok example_wf(2) example_proof_bytes [symmetric], of 0 example_proof_file None]
    by (simp add: MAX_COMPACT_PROOF_BYTES_def example_proof_file_def sub_def)
  with a show ?thesis by (simp add: example_window_def example_entry_def)
qed

lemma example_persist_stores:
  "\<exists>t. persist_stores example_stores example_io (example_worker j) example_window = (t, Inr ()) \<and> ps_journal t = j"
proof -
  obtain f where f: "apply_forward_batch example_fenv example_steady [example_entry 1] = Inr f"
    using batch_spec [OF example_db_ok(1) example_wf_steady, of "[example_entry 1]"]
    by (auto simp: sorted_blocks_def entry_fits_def entry_rows_def example_entry_def)
  let ?ix = "ps_header_index (example_worker j)"
  obtain ix d where ix: "HeaderIndex_put example_index_db example_headers no_faults ?ix 1 1 = (ix, Inr ())" "hi_heights ix = Some d"
    using example_put_ok [of ?ix "(Map.empty, 4)" 1 1] by (auto simp: example_worker_def)
  have "\<exists>ix'. HeaderIndex_sync example_index_db no_faults ix = (ix', Inr ())"
    using ix(2) by (simp add: HeaderIndex_sync_def available_heights_def example_index_db_def vf_sync_def no_faults_def)
  then obtain ix' where ix': "HeaderIndex_sync example_index_db no_faults ix = (ix', Inr ())" by blast
  have hd: "put_headers example_index_db example_headers (\<lambda>_. no_faults) 0 ?ix example_window = (ix, Inr ())"
    using ix(1) by (simp add: example_window_def example_entry_def)
  have pf: "append_proofs std_consensus no_faults 0 (ps_proof_file (example_worker j)) example_window =
     (example_proof_file, Inr [(\<lparr>bi_offset = 0, bi_size = 3, bi_proof_forest_rows = Some 2\<rparr>, replicate 32 1)])"
    using example_append_proofs by (simp add: example_worker_def)
  have w: "map pb_entry example_window = [example_entry 1]" "je_height (pb_entry (last example_window)) = 1"
    by (simp_all add: example_window_def example_entry_def)
  show ?thesis using pf hd ix' f w
    by (simp add: persist_stores_def on_store_def example_stores_def example_io_def example_env_def)
      (simp add: ProofFile_sync_def vf_sync_def no_faults_def append_batch_def example_kv_def forest_step_def update_height_def sync_def example_fenv_def
        example_worker_def)
qed



section \<open>Nothing before its publication\<close>

lemma kv_set_other:
  assumes "kv_ok K" and "b \<noteq> c"
  shows "kv_view K (fst (kv_set K px b k v)) c = kv_view K px c"
  using assms(1) [unfolded kv_ok_def, THEN conjunct2, THEN conjunct1, rule_format, of px b k v] assms(2) by (simp split: if_splits)

lemma set_indexes_other:
  assumes "kv_ok K" and "c \<noteq> ''index''"
  shows "kv_view K (fst (set_indexes K px indexes)) c = kv_view K px c"
proof (induction indexes arbitrary: px)
  case (Cons x xs)
  obtain index block where x: "x = (index, block)" by fastforce
  obtain q where q: "to_raw_value (Index index) = q" by simp
  obtain px1 q1 where s: "kv_set K px ''index'' block (projr q) = (px1, q1)" by fastforce
  have "kv_view K px1 c = kv_view K px c" using kv_set_other [OF assms(1), of "''index''" c px block "projr q"] s assms(2) by simp
  then show ?case using Cons q s x by (cases q; cases q1) (auto simp: bind_s_def simp del: to_raw_value.simps)
qed simp

lemma append_batch_other:
  assumes "kv_ok K" and "c \<noteq> ''index''"
  shows "kv_view K (fst (append_batch K px indexes)) c = kv_view K px c"
proof -
  obtain px1 q1 where s: "set_indexes K px indexes = (px1, q1)" by fastforce
  have "kv_view K px1 c = kv_view K px c" using set_indexes_other [OF assms, of px indexes] s by simp
  then show ?thesis using s kv_flush_view [OF assms(1), of px1 "''index''"] by (auto simp: append_batch_def bind_s_def split: sum.splits)
qed

lemma ProofFile_sync_durable: "snd (ProofFile_sync io k pf) = Inr () \<Longrightarrow> vf_past (pf_file (fst (ProofFile_sync io k pf))) = []"
  by (auto simp: ProofFile_sync_def vf_sync_def synced_file_def split: option.splits)

lemma HeaderIndex_sync_durable: "snd (HeaderIndex_sync D io ix) = Inr () \<Longrightarrow> vf_past (hi_headers (fst (HeaderIndex_sync D io ix))) = []"
  by (auto simp: HeaderIndex_sync_def vf_sync_def synced_file_def bind_s_def split: option.splits prod.splits sum.splits)

lemma persist_stores_order:
  assumes "kv_ok (se_kv P)" and "persist_stores P io s blocks = (s', r)"
  shows "(ps_journal s', ps_notified s', ps_height s', ps_tip_hash s') = (ps_journal s, ps_notified s, ps_height s, ps_tip_hash s)"
    and "ps_forest s' \<noteq> ps_forest s \<longrightarrow> vf_past (pf_file (ps_proof_file s')) = [] \<and> vf_past (hi_headers (ps_header_index s')) = []"
    and "kv_view (se_kv P) (ps_proof_index s') ''meta'' \<noteq> kv_view (se_kv P) (ps_proof_index s) ''meta'' \<or> r = Inr () \<longrightarrow>
      (\<exists>f. apply_forward_batch (se_forest P) (ps_forest s) (map pb_entry blocks) = Inr f \<and> sync (se_forest P) f = Inr (ps_forest s'))"
  using assms(2) append_batch_other [OF assms(1), of "''meta''"]
  by (auto simp: persist_stores_def bind_s_def on_store_def forest_step_def ProofFile_sync_durable HeaderIndex_sync_durable
      split: prod.splits sum.splits) (metis Inr_not_Inl)

text \<open>C4. Write-ahead: nothing is stored before the records are published, and nothing is announced
  unless all was stored. A window that is empty, does not extend the tip or whose publication fails
  leaves every other store as it was. In every outcome, the forest has changed only if the
  publication succeeded and the proofs and headers are durable; the committed height has changed only if
  the whole window was applied to the forest and the forest synced; and after an error no block
  is announced and the tip is the old one or, when only the pruning failed, the new one.\<close>

theorem persist_write_ahead:
  assumes "kv_ok (se_kv P)" and "persist P io s blocks bnd = (s', r)"
  shows "(blocks = [] \<or> \<not> extends_tip (ps_height s) (ps_tip_hash s) blocks \<or>
         snd (publish (se_journal P) (io_publish io) (ps_journal s) bnd) \<noteq> Inr () \<longrightarrow>
       (\<exists>e. r = Inl e) \<and> s' = s\<lparr>ps_journal := ps_journal s'\<rparr>) \<and>
     (ps_forest s' \<noteq> ps_forest s \<longrightarrow> snd (publish (se_journal P) (io_publish io) (ps_journal s) bnd) = Inr () \<and>
       vf_past (pf_file (ps_proof_file s')) = [] \<and> vf_past (hi_headers (ps_header_index s')) = []) \<and>
     (kv_view (se_kv P) (ps_proof_index s') ''meta'' \<noteq> kv_view (se_kv P) (ps_proof_index s) ''meta'' \<or> ps_height s' \<noteq> ps_height s \<longrightarrow>
       (\<exists>f. apply_forward_batch (se_forest P) (ps_forest s) (map pb_entry blocks) = Inr f \<and> sync (se_forest P) f = Inr (ps_forest s'))) \<and>
     (\<forall>e. r = Inl e \<longrightarrow> ps_notified s' = ps_notified s \<and>
       ((ps_height s', ps_tip_hash s') = (ps_height s, ps_tip_hash s) \<or>
        (ps_height s', ps_tip_hash s') = (je_height (pb_entry (last blocks)), je_block_hash (pb_entry (last blocks)))))"
proof (cases "blocks = [] \<or> \<not> extends_tip (ps_height s) (ps_tip_hash s) blocks")
  case True
  then show ?thesis using assms(2) by (auto simp: persist_def split: if_splits)
next
  case False
  obtain j q where p: "publish (se_journal P) (io_publish io) (ps_journal s) bnd = (j, q)" by fastforce
  show ?thesis
  proof (cases q)
    case (Inl e)
    then have "s' = s\<lparr>ps_journal := j\<rparr>" "r = Inl e" using False p assms(2) by (auto simp: persist_def on_store_def)
    then show ?thesis using p Inl by simp
  next
    case (Inr u)
    obtain t q' where t: "persist_stores P io (s\<lparr>ps_journal := j\<rparr>) blocks = (t, q')" by fastforce
    note ord = persist_stores_order [OF assms(1) t]
    show ?thesis
    proof (cases q')
      case e: (Inl e)
      then have "s' = t" "r = Inl e" using False p t Inr assms(2) by (auto simp: persist_def on_store_def)
      then show ?thesis using ord False p Inr by simp
    next
      case (Inr v)
      let ?t = "t\<lparr>ps_height := je_height (pb_entry (last blocks)), ps_tip_hash := je_block_hash (pb_entry (last blocks))\<rparr>"
      obtain j' w where pr: "prune_journal (se_journal P) (io_prune io) (ps_journal t) = (j', w)" by fastforce
      have s': "s' = (case w of Inl _ \<Rightarrow> ?t\<lparr>ps_journal := j'\<rparr> | Inr _ \<Rightarrow> ?t\<lparr>ps_journal := j',
            ps_notified := ps_notified t @ map (\<lambda>b. je_block_hash (pb_entry b)) blocks\<rparr>)"
          "r = (case w of Inl e \<Rightarrow> Inl e | Inr _ \<Rightarrow> Inr (length blocks))"
        using False p t \<open>q = Inr u\<close> Inr pr assms(2) by (auto simp: persist_def on_store_def Let_def split: sum.split)
      have st: "ps_forest s' = ps_forest t" "ps_proof_file s' = ps_proof_file t" "ps_header_index s' = ps_header_index t"
        "ps_proof_index s' = ps_proof_index t" "ps_height s' = je_height (pb_entry (last blocks))"
        "ps_tip_hash s' = je_block_hash (pb_entry (last blocks))" "(\<exists>e. r = Inl e) \<Longrightarrow> ps_notified s' = ps_notified t"
        using s' by (auto split: sum.splits)
      show ?thesis using ord st False p \<open>q = Inr u\<close> Inr by auto
    qed
  qed
qed


theorem persist_write_ahead_witness:
  "\<exists>s' e. persist example_stores example_io (example_worker (example_journal []\<lparr>fj_poisoned := True\<rparr>)) example_window
       (boundary (example_journal [])) = (s', Inl e) \<and> ps_forest s' = example_steady \<and> ps_notified s' = []"
proof -
  let ?j = "example_journal []\<lparr>fj_poisoned := True\<rparr> :: u8 ForestJournal" and ?b = "boundary (example_journal [])"
  obtain s' r where p: "persist example_stores example_io (example_worker ?j) example_window ?b = (s', r)" by fastforce
  have kv: "kv_ok (se_kv example_stores)" by (simp add: example_stores_def example_kv_ok)
  have "snd (publish (se_journal example_stores) (io_publish example_io) (ps_journal (example_worker ?j)) ?b) \<noteq> Inr ()"
    by (simp add: publish_def publish_check_def example_worker_def)
  with persist_write_ahead [OF kv p] have "\<exists>e. r = Inl e" "s' = (example_worker ?j)\<lparr>ps_journal := ps_journal s'\<rparr>" by blast+
  then have "\<exists>e. r = Inl e" "ps_forest s' = ps_forest (example_worker ?j)" "ps_notified s' = ps_notified (example_worker ?j)"
    by (auto dest: arg_cong [where f = ps_forest] arg_cong [where f = ps_notified])
  then show ?thesis using p by (auto simp: example_worker_def)
qed

section \<open>Rolling back the newest block\<close>

lemma rfind_Some: "rfind Q xs n = Some (i, x) \<Longrightarrow> i < n \<and> x = xs ! i \<and> Q i x"
  by (induction n) (auto split: if_splits)

lemma latest_forward_Some:
  assumes "latest_forward j = Some (i, r)"
  shows "i < length (records j) \<and> r = records j ! i \<and> r = fj_records j ! i \<and> jr_status r = Forward"
  using rfind_Some [of _ "records j"] assms by (fastforce simp: latest_forward_def records_def records_upto_def takeWhile_nth)

lemma takeWhile_update:
  assumes "i < length (takeWhile Q xs)" and "Q y"
  shows "takeWhile Q (xs[i := y]) = (takeWhile Q xs)[i := y]"
  using assms by (induction xs arbitrary: i) (auto split: nat.splits if_splits)

lemma mark_rolled_back_records:
  assumes "mark_rolled_back io j i = (j', Inr ())"
  shows "records j' = (records j)[i := (records j ! i)\<lparr>jr_status := RolledBack\<rparr>]"
proof -
  let ?Q = "\<lambda>r. jr_offset r + jr_span r \<le> fj_published_end j"
  have i: "i < length (takeWhile ?Q (fj_records j))"
    and j': "fj_records j' = (fj_records j)[i := (fj_records j ! i)\<lparr>jr_status := RolledBack\<rparr>]" "fj_published_end j' = fj_published_end j"
    using assms by (auto simp: mark_rolled_back_def Let_def records_def records_upto_def split: if_splits prod.splits sum.splits)
  have n: "takeWhile ?Q (fj_records j) ! i = fj_records j ! i" using takeWhile_nth [OF i] .
  have "?Q (fj_records j ! i)" using nth_mem [OF i] set_takeWhileD [of "takeWhile ?Q (fj_records j) ! i" ?Q "fj_records j"] n by simp
  then show ?thesis using takeWhile_update [OF i, of "(fj_records j ! i)\<lparr>jr_status := RolledBack\<rparr>"] n
    by (simp add: records_def records_upto_def j')
qed

lemma index_remove_spec:
  assumes "kv_ok K" and "index_remove K px block = (px', Inr ())"
  shows "kv_view K px' = (kv_view K px)(''index'' := (kv_view K px ''index'')(block := None))"
proof -
  obtain px1 where r: "kv_remove K px ''index'' block = (px1, Inr ())" and f: "kv_flush K px1 ''index'' = (px', Inr ())"
    using assms(2) by (auto simp: index_remove_def bind_s_Inr)
  have "kv_view K px1 = (kv_view K px)(''index'' := (kv_view K px ''index'')(block := None))"
    using assms(1) [unfolded kv_ok_def, THEN conjunct2, THEN conjunct2, THEN conjunct1, rule_format, of px "''index''" block] r by simp
  then show ?thesis using kv_flush_view [OF assms(1), of px1 "''index''"] f by simp
qed


lemma truncate_pf_ok: "truncate_after io k pf index = (pf', Inr ()) \<Longrightarrow> pf_ok pf'"
  by (auto simp: truncate_after_def pf_ok_def bind_s_Inr vf_set_len_def vf_sync_def put_data_def synced_file_def set_len_bytes_def
      split: option.splits prod.splits sum.splits if_splits)

text \<open>The rollback of a block, store by store.\<close>

lemma rollback_stores_spec:
  assumes ok: "stores_ok P s" and run: "rollback_stores P io s entry = (s', Inr ())"
  shows "stores_ok P s'" and "\<exists>d. hi_heights (ps_header_index s') = Some d"
    and "chain_of (se_hdr P) (ps_header_index s') =
      chain_remove (se_hdr P) (je_height entry) (je_block_hash entry) (chain_of (se_hdr P) (ps_header_index s))"
    and "\<exists>f. apply_backward (se_forest P) (ps_forest s) entry = Inr f \<and> sync (se_forest P) f = Inr (ps_forest s')"
    and "kv_view (se_kv P) (ps_proof_index s') ''index'' = (kv_view (se_kv P) (ps_proof_index s) ''index'')(je_block_hash entry := None)"
    and "load_height (se_kv P) (ps_proof_index s') = Inr r \<Longrightarrow> r = ucast (saturating_sub_one (je_height entry))"
    and "ps_height s' = saturating_sub_one (je_height entry) \<and> ps_tip_hash s' = je_previous_block_hash entry \<and>
      ps_journal s' = ps_journal s \<and> ps_notified s' = ps_notified s"
    and "ps_bootstrap_height s < saturating_sub_one (je_height entry) \<Longrightarrow>
      \<exists>prev raw. kv_view (se_kv P) (ps_proof_index s') ''index'' (je_previous_block_hash entry) = Some raw \<and>
        from_raw_value raw = Inr (Index prev) \<and>
        (\<forall>i. unat (bi_offset i) + unat (bi_size i) \<le> unat (bi_offset prev) + unat (bi_size prev) \<longrightarrow>
          get_proof (se_cons P) (ps_proof_file s') i = get_proof (se_cons P) (ps_proof_file s) i)"
proof -
  have db: "index_db_ok (se_index P)" and hd: "header_ok (se_hdr P)" and kv: "kv_ok (se_kv P)"
    and cons: "consistent (se_index P) (se_hdr P) (ps_header_index s)" and pf: "pf_ok (ps_proof_file s)"
    using ok by (simp_all add: stores_ok_def)
  let ?h = "saturating_sub_one (je_height entry)"
  obtain f1 f2 ix1 ix2 px1 prev pf1 px2 where
    a1: "apply_backward (se_forest P) (ps_forest s) entry = Inr f1" and
    a2: "sync (se_forest P) f1 = Inr f2" and
    a3: "HeaderIndex_remove (se_index P) (se_hdr P) (io_header io 0) (ps_header_index s) (je_height entry) (je_block_hash entry) = (ix1, Inr ())" and
    a4: "HeaderIndex_sync (se_index P) (io_header_sync io) ix1 = (ix2, Inr ())" and
    a5: "index_remove (se_kv P) (ps_proof_index s) (je_block_hash entry) = (px1, Inr ())" and
    a6: "(if ps_bootstrap_height s < ?h
          then bind_r (get_index (se_kv P) px1 (je_previous_block_hash entry)) (\<lambda>i.
                  bind_r (ok_or i ''proof index is missing rollback destination'') (\<lambda>i. Inr (Some i)))
          else Inr None) = Inr prev" and
    a7: "truncate_after (io_truncate io) 0 (ps_proof_file s) prev = (pf1, Inr ())" and
    a8: "update_height (se_kv P) px1 (ucast ?h) = (px2, Inr ())" and
    s': "s' = s\<lparr>ps_forest := f2, ps_header_index := ix2, ps_proof_file := pf1, ps_proof_index := px2,
           ps_height := ?h, ps_tip_hash := je_previous_block_hash entry\<rparr>"
    using run by (auto simp: rollback_stores_def bind_s_Inr on_store_Inr forest_step_Inr Let_def cong: if_cong)
  have rm: "consistent (se_index P) (se_hdr P) ix1"
    "chain_of (se_hdr P) ix1 = chain_remove (se_hdr P) (je_height entry) (je_block_hash entry) (chain_of (se_hdr P) (ps_header_index s))"
    using remove_consistent [OF db hd cons a3] by simp_all
  have sy: "consistent (se_index P) (se_hdr P) ix2" "chain_of (se_hdr P) ix2 = chain_of (se_hdr P) ix1" "\<exists>d. hi_heights ix2 = Some d"
    using header_sync_spec [OF db a4 rm(1)] by simp_all
  have view: "kv_view (se_kv P) px2 ''index'' = (kv_view (se_kv P) (ps_proof_index s) ''index'')(je_block_hash entry := None)"
    "kv_view (se_kv P) px2 ''index'' = kv_view (se_kv P) px1 ''index''"
    using update_height_spec(1) [OF kv a8] index_remove_spec [OF kv a5] by simp_all
  show "stores_ok P s'" using db hd kv sy(1) truncate_pf_ok [OF a7] by (simp add: stores_ok_def s')
  show "\<exists>d. hi_heights (ps_header_index s') = Some d" using sy(3) by (simp add: s')
  show "chain_of (se_hdr P) (ps_header_index s') =
      chain_remove (se_hdr P) (je_height entry) (je_block_hash entry) (chain_of (se_hdr P) (ps_header_index s))"
    using sy(2) rm(2) by (simp add: s')
  show "\<exists>f. apply_backward (se_forest P) (ps_forest s) entry = Inr f \<and> sync (se_forest P) f = Inr (ps_forest s')"
    using a1 a2 by (simp add: s')
  show "kv_view (se_kv P) (ps_proof_index s') ''index'' = (kv_view (se_kv P) (ps_proof_index s) ''index'')(je_block_hash entry := None)"
    using view(1) by (simp add: s')
  show "load_height (se_kv P) (ps_proof_index s') = Inr r \<Longrightarrow> r = ucast (saturating_sub_one (je_height entry))"
    using update_height_spec(2) [OF kv a8] by (simp add: s')
  show "ps_height s' = saturating_sub_one (je_height entry) \<and> ps_tip_hash s' = je_previous_block_hash entry \<and>
      ps_journal s' = ps_journal s \<and> ps_notified s' = ps_notified s" by (simp add: s')
  assume "ps_bootstrap_height s < saturating_sub_one (je_height entry)"
  then obtain i where g: "get_index (se_kv P) px1 (je_previous_block_hash entry) = Inr (Some i)" "prev = Some i"
    using a6 by (auto simp: ok_or_def bind_r_def split: sum.splits option.splits)
  then obtain raw where "kv_get (se_kv P) px1 ''index'' (je_previous_block_hash entry) = Inr (Some raw)" "from_raw_value raw = Inr (Index i)"
    by (auto simp: get_index_def bind_r_def split: sum.splits option.splits IndexEntry.splits)
  then show "\<exists>prev raw. kv_view (se_kv P) (ps_proof_index s') ''index'' (je_previous_block_hash entry) = Some raw \<and>
        from_raw_value raw = Inr (Index prev) \<and>
        (\<forall>i. unat (bi_offset i) + unat (bi_size i) \<le> unat (bi_offset prev) + unat (bi_size prev) \<longrightarrow>
          get_proof (se_cons P) (ps_proof_file s') i = get_proof (se_cons P) (ps_proof_file s) i)"
    using kv_get_view [OF kv, of px1 "''index''" "je_previous_block_hash entry"] view(2)
      truncate_spec [OF a7 [unfolded g(2)], of "se_cons P"]
    by (intro exI [of _ i] exI [of _ raw]) (simp add: s')
qed



subsection \<open>A concrete rollback\<close>

lemma example_remove_ok:
  assumes "consistent example_index_db example_headers ix" and "hi_heights ix = Some d"
  shows "\<exists>ix' d'. HeaderIndex_remove example_index_db example_headers no_faults ix h hash = (ix', Inr ()) \<and> hi_heights ix' = Some d'"
proof -
  have wf: "wf_headers example_headers (vf_data (hi_headers ix))" and vals: "index_values_ok (id_view example_index_db d)"
    using assms by (simp_all add: consistent_def index_view_def)
  have "id_get example_index_db d (hash_key hash) = Inr (id_view example_index_db d (hash_key hash))"
    by (cases d) (simp add: example_index_db_def)
  from read_height_eq [OF example_header_ok wf vals this] obtain q where q: "read_height example_index_db example_headers ix d hash = Inr q" by blast
  have rd: "read_header example_headers (ix\<lparr>hi_heights := x\<rparr>) h = Inr (stored_header example_headers (vf_data (hi_headers ix)) (unat h))" for x
    using read_header_eq [OF example_header_ok, of "ix\<lparr>hi_heights := x\<rparr>"] wf by simp
  then have "read_header example_headers ix h = Inr (stored_header example_headers (vf_data (hi_headers ix)) (unat h))"
    using read_header_eq [OF example_header_ok wf] by simp
  with q rd assms(2) show ?thesis
    by (cases d) (auto simp: HeaderIndex_remove_def available_heights_def ok_or_def write_header_eq vf_write_def no_faults_def example_index_db_def
        split: option.split)
qed


end
