(* ===== verification/Startup_Recovery.thy ===== *)
theory Startup_Recovery
  imports Persistence_Properties
begin

text \<open>
  The start-up of the prover (\<open>recoverable_journal_height\<close> and the recovery closure of
  \<open>FlatFileProver::new\<close> in \<open>src/src/prover.rs\<close>): the journal is reopened, every store is repaired from its
  records, the forest is replayed, and the stores are cut back to the recovered tip. The messages to
  the log are not modelled.
\<close>

section \<open>Model\<close>

text \<open>The calls to the node that recovery makes.\<close>

record 'h chain_rpc =
  rpc_block_header :: "bytes \<Rightarrow> 'h res"
  rpc_block_hash :: "u64 \<Rightarrow> bytes res"

text \<open>What may go wrong, call by call. \<open>ro_torn\<close> is what a replay that stopped in the middle leaves of the forest.\<close>

record 'd recovery_io =
  ro_append :: faults
  ro_put :: "nat \<Rightarrow> faults"
  ro_proof_sync :: faults
  ro_header_sync :: "nat \<Rightarrow> faults"
  ro_mark :: "nat \<Rightarrow> faults"
  ro_reindex :: "nat \<Rightarrow> faults"
  ro_truncate :: faults
  ro_torn :: "'d SteadyStateForest \<Rightarrow> 'd SteadyStateForest"

text \<open>The repair of the header and the proof of one published record. The result is the index entry of
  the proof, if it was appended again.\<close>

definition header_missing ::
  "('h, 'd, 'x, 's) stores_env \<Rightarrow> ('h, 'd, 'x, 's) PersistenceState \<Rightarrow> JournalEntry \<Rightarrow> 'h \<Rightarrow> bool res" where
  "header_missing P s entry header =
     bind_r (get_by_height (se_hdr P) (ps_header_index s) (je_height entry)) (\<lambda>found.
       if found \<noteq> Some header then Inr True
       else bind_r (get_height (se_index P) (se_hdr P) (ps_header_index s) (je_block_hash entry)) (\<lambda>h.
         Inr (h \<noteq> Some (je_height entry))))"

definition proof_valid ::
  "('h, 'd, 'x, 's) stores_env \<Rightarrow> ('h, 'd, 'x, 's) PersistenceState \<Rightarrow> 'h JournalReplayPayload \<Rightarrow> BlockIndex option \<Rightarrow> bool" where
  "proof_valid P s replay index =
     (case index of
        None \<Rightarrow> False
      | Some index \<Rightarrow> bi_proof_forest_rows index = Some (rp_proof_forest_rows replay) \<and>
          get_proof (se_cons P) (ps_proof_file s) index = Some (rp_proof replay))"

definition repair_record ::
  "('h, 'd, 'x, 's) stores_env \<Rightarrow> 'd recovery_io \<Rightarrow> nat \<Rightarrow> bool \<Rightarrow> ('h, 'd, 'x, 's) PersistenceState \<Rightarrow> JournalEntry \<Rightarrow> 'h JournalReplayPayload \<Rightarrow>
   ('h, 'd, 'x, 's) PersistenceState \<times> (BlockIndex \<times> bytes) option res" where
  "repair_record P io i repair_proof_tail s entry replay =
     bind_s (s, header_missing P s entry (rp_header replay)) (\<lambda>s missing.
     bind_s (if missing
             then on_store set_header_index s (HeaderIndex_put (se_index P) (se_hdr P) (ro_put io i) (ps_header_index s)
                    (je_height entry) (rp_header replay))
             else (s, Inr ())) (\<lambda>s _.
     bind_s (s, get_index (se_kv P) (ps_proof_index s) (je_block_hash entry)) (\<lambda>s index.
     if repair_proof_tail \<or> \<not> proof_valid P s replay index
     then bind_s (on_store set_proof_file s (append_proof (se_cons P) (ro_append io) i (ps_proof_file s) (rp_proof replay))) (\<lambda>s index.
            (s, Inr (Some (index\<lparr>bi_proof_forest_rows := Some (rp_proof_forest_rows replay)\<rparr>, je_block_hash entry))))
     else (s, Inr None))))"

text \<open>The loop: once one proof is appended again, all later ones are.\<close>

fun repair_records ::
  "('h, 'd, 'x, 's) stores_env \<Rightarrow> 'd recovery_io \<Rightarrow> nat \<Rightarrow> bool \<Rightarrow> ('h, 'd, 'x, 's) PersistenceState \<Rightarrow> 'h JournalRecord list \<Rightarrow>
   ('h, 'd, 'x, 's) PersistenceState \<times> (BlockIndex \<times> bytes) list res" where
  "repair_records P io i repair_proof_tail s [] = (s, Inr [])"
| "repair_records P io i repair_proof_tail s (r # rs) =
     (case (jr_status r, jr_replay r) of
        (Forward, Some replay) \<Rightarrow>
          bind_s (repair_record P io i repair_proof_tail s (jr_entry r) replay) (\<lambda>s repaired.
          bind_s (repair_records P io (i + 1) (repair_proof_tail \<or> repaired \<noteq> None) s rs) (\<lambda>s repaired_indexes.
            (s, Inr (case repaired of Some x \<Rightarrow> x # repaired_indexes | None \<Rightarrow> repaired_indexes))))
      | _ \<Rightarrow> repair_records P io (i + 1) repair_proof_tail s rs)"

definition is_forward :: "'h JournalRecord \<Rightarrow> bool" where
  "is_forward r \<longleftrightarrow> jr_status r = Forward"

definition candidate_height :: "'h ForestJournal \<Rightarrow> u32 \<Rightarrow> u32 \<Rightarrow> u32" where
  "candidate_height j indexed_height bootstrap_height =
     (case latest_forward j of
        Some (_, r) \<Rightarrow> je_height (jr_entry r)
      | None \<Rightarrow> if records j \<noteq> [] then saturating_sub_one (je_height (jr_entry (records j ! 0))) else max indexed_height bootstrap_height)"

text \<open>Whether the header and the proof of a height are there, and are the retained record's.\<close>

definition height_valid :: "('h, 'd, 'x, 's) stores_env \<Rightarrow> ('h, 'd, 'x, 's) PersistenceState \<Rightarrow> (u32 \<rightharpoonup> bytes) \<Rightarrow> u32 \<Rightarrow> bool res" where
  "height_valid P s retained height =
     bind_r (get_by_height (se_hdr P) (ps_header_index s) height) (\<lambda>header.
     let block_hash = map_option (h_block_hash (se_hdr P)) header in
     bind_r (case block_hash of Some h \<Rightarrow> get_index (se_kv P) (ps_proof_index s) h | None \<Rightarrow> Inr None) (\<lambda>index.
     Inr (case (block_hash, index) of
            (Some h, Some index) \<Rightarrow>
              (case retained height of
                 None \<Rightarrow> contains (ps_proof_file s) index
               | Some h' \<Rightarrow> h' = h \<and> contains (ps_proof_file s) index \<and> get_proof (se_cons P) (ps_proof_file s) index \<noteq> None)
          | _ \<Rightarrow> False)))"

fun mark_all :: "(nat \<Rightarrow> faults) \<Rightarrow> nat \<Rightarrow> 'h ForestJournal \<Rightarrow> nat list \<Rightarrow> 'h ForestJournal \<times> unit res" where
  "mark_all io k j [] = (j, Inr ())"
| "mark_all io k j (index # indices) =
     bind_s (mark_rolled_back (io k) j index) (\<lambda>j _. mark_all io (k + 1) j indices)"

definition rollback_gap ::
  "'d recovery_io \<Rightarrow> ('h, 'd, 'x, 's) PersistenceState \<Rightarrow> u32 \<Rightarrow> ('h, 'd, 'x, 's) PersistenceState \<times> u32 res" where
  "rollback_gap io s height =
     (let rs = records (ps_journal s);
          rollback_indices = filter (\<lambda>i. is_forward (rs ! i) \<and> je_height (jr_entry (rs ! i)) \<ge> height) [0..<length rs]
      in if rollback_indices = [] \<or> \<not> list_ex (\<lambda>r. is_forward r \<and> je_height (jr_entry r) = height) rs
         then (s, bail ''proof gap is outside the retained journal; rebuild from a newer bootstrap'')
         else bind_s (on_store set_journal s (mark_all (ro_mark io) 0 (ps_journal s) (rev rollback_indices))) (\<lambda>s _. (s, Inr (height - 1))))"

fun check_heights ::
  "('h, 'd, 'x, 's) stores_env \<Rightarrow> 'd recovery_io \<Rightarrow> (u32 \<rightharpoonup> bytes) \<Rightarrow> u32 \<Rightarrow> ('h, 'd, 'x, 's) PersistenceState \<Rightarrow> u32 list \<Rightarrow>
   ('h, 'd, 'x, 's) PersistenceState \<times> u32 res" where
  "check_heights P io retained candidate s [] = (s, Inr candidate)"
| "check_heights P io retained candidate s (height # heights) =
     bind_s (s, height_valid P s retained height) (\<lambda>s valid.
       if valid then check_heights P io retained candidate s heights else rollback_gap io s height)"

text \<open>The heights \<open>a..=b\<close>.\<close>

definition heights_between :: "u32 \<Rightarrow> u32 \<Rightarrow> u32 list" where
  "heights_between a b = map of_nat [unat a..<unat b + 1]"

definition retained_hashes :: "'h ForestJournal \<Rightarrow> u32 \<rightharpoonup> bytes" where
  "retained_hashes j = map_of (rev (map (\<lambda>r. (je_height (jr_entry r), je_block_hash (jr_entry r))) (filter is_forward (records j))))"

definition repair_stores ::
  "('h, 'd, 'x, 's) stores_env \<Rightarrow> 'd recovery_io \<Rightarrow> ('h, 'd, 'x, 's) PersistenceState \<Rightarrow> ('h, 'd, 'x, 's) PersistenceState \<times> unit res" where
  "repair_stores P io s =
     bind_s (repair_records P io 0 False s (records (ps_journal s))) (\<lambda>s repaired_indexes.
     bind_s (on_store set_proof_file s (ProofFile_sync (ro_proof_sync io) 0 (ps_proof_file s))) (\<lambda>s _.
     bind_s (on_store set_header_index s (HeaderIndex_sync (se_index P) (ro_header_sync io 0) (ps_header_index s))) (\<lambda>s _.
       if repaired_indexes \<noteq> [] then on_store set_proof_index s (append_batch (se_kv P) (ps_proof_index s) repaired_indexes)
       else (s, Inr ()))))"

definition recoverable_journal_height ::
  "('h, 'd, 'x, 's) stores_env \<Rightarrow> 'd recovery_io \<Rightarrow> ('h, 'd, 'x, 's) PersistenceState \<Rightarrow> u32 \<Rightarrow> u32 \<Rightarrow>
   ('h, 'd, 'x, 's) PersistenceState \<times> u32 res" where
  "recoverable_journal_height P io s indexed_height bootstrap_height =
     bind_s (repair_stores P io s) (\<lambda>s _.
     let candidate = candidate_height (ps_journal s) indexed_height bootstrap_height in
     if candidate < bootstrap_height then (s, bail ''journal height precedes bootstrap height'')
     else if bootstrap_height = - 1 then (s, bail ''bootstrap height overflow'')
     else check_heights P io (retained_hashes (ps_journal s)) candidate s (heights_between (bootstrap_height + 1) candidate))"

text \<open>The second pass over the records: headers of forward records, and the traces of orphaned blocks.\<close>

fun reindex_records ::
  "('h, 'd, 'x, 's) stores_env \<Rightarrow> 'h chain_rpc \<Rightarrow> 'd recovery_io \<Rightarrow> 'h JournalRecord list \<Rightarrow> nat \<Rightarrow> ('h, 'd, 'x, 's) PersistenceState \<Rightarrow> 'h JournalRecord list \<Rightarrow>
   ('h, 'd, 'x, 's) PersistenceState \<times> unit res" where
  "reindex_records P rpc io all i s [] = (s, Inr ())"
| "reindex_records P rpc io all i s (r # rs) =
     (let entry = jr_entry r in
      bind_s (case jr_status r of
          Forward \<Rightarrow>
            bind_s (s, get_height (se_index P) (se_hdr P) (ps_header_index s) (je_block_hash entry)) (\<lambda>s h.
            bind_s (s, if h \<noteq> Some (je_height entry) then Inr False
                       else bind_r (get_by_height (se_hdr P) (ps_header_index s) (je_height entry)) (\<lambda>x.
                         Inr (case x of Some x \<Rightarrow> h_block_hash (se_hdr P) x = je_block_hash entry | None \<Rightarrow> False))) (\<lambda>s indexed.
            if indexed then (s, Inr ())
            else bind_s (s, case jr_replay r of Some replay \<Rightarrow> Inr (rp_header replay) | None \<Rightarrow> rpc_block_header rpc (je_block_hash entry)) (\<lambda>s header.
              on_store set_header_index s (HeaderIndex_put (se_index P) (se_hdr P) (ro_reindex io i) (ps_header_index s) (je_height entry) header))))
        | RolledBack \<Rightarrow>
            if list_ex (\<lambda>later. is_forward later \<and> je_block_hash (jr_entry later) = je_block_hash entry) all then (s, Inr ())
            else bind_s (on_store set_header_index s (HeaderIndex_remove (se_index P) (se_hdr P) (ro_reindex io i) (ps_header_index s)
                     (je_height entry) (je_block_hash entry))) (\<lambda>s _.
                 on_store set_proof_index s (index_remove (se_kv P) (ps_proof_index s) (je_block_hash entry)))) (\<lambda>s _.
      reindex_records P rpc io all (i + 1) s rs))"

definition recovered_tip ::
  "'h chain_rpc \<Rightarrow> ('h, 'd, 'x, 's) PersistenceState \<Rightarrow> u32 \<Rightarrow> (u32 \<times> bytes \<times> u64) res" where
  "recovered_tip rpc s recovered_height =
     (case latest_forward (ps_journal s) of
        Some (_, r) \<Rightarrow> Inr (je_height (jr_entry r), je_block_hash (jr_entry r), je_num_leaves (jr_entry r))
      | None \<Rightarrow>
          if records (ps_journal s) \<noteq> []
          then let first = jr_entry (records (ps_journal s) ! 0) in
            bind_r (previous_num_leaves first) (\<lambda>n. Inr (saturating_sub_one (je_height first), je_previous_block_hash first, n))
          else bind_r (rpc_block_hash rpc (ucast recovered_height)) (\<lambda>h. Inr (recovered_height, h, sf_leaves (ps_forest s))))"

text \<open>The proof file is cut back to the recovered tip and the height is committed.\<close>

definition published_index :: "('h, 'd, 'x, 's) stores_env \<Rightarrow> ('h, 'd, 'x, 's) PersistenceState \<Rightarrow> u32 \<Rightarrow> bytes \<Rightarrow> BlockIndex option res" where
  "published_index P s height tip_hash =
     (if ps_bootstrap_height s < height
      then bind_r (get_index (se_kv P) (ps_proof_index s) tip_hash) (\<lambda>index.
           bind_r (ok_or index ''proof index is missing recovered height'') (\<lambda>index.
           bind_r (ensure (get_proof (se_cons P) (ps_proof_file s) index \<noteq> None) ''proof data at recovered height is unreadable'') (\<lambda>_.
           Inr (Some index))))
      else Inr None)"

definition commit_tip ::
  "('h, 'd, 'x, 's) stores_env \<Rightarrow> 'd recovery_io \<Rightarrow> ('h, 'd, 'x, 's) PersistenceState \<Rightarrow> u32 \<Rightarrow> u32 \<times> bytes \<times> u64 \<Rightarrow>
   ('h, 'd, 'x, 's) PersistenceState \<times> unit res" where
  "commit_tip P io s recovered_height tip =
     (case tip of (height, tip_hash, expected_leaves) \<Rightarrow>
        if height \<noteq> recovered_height then (s, bail ''forest journal and proof storage recovered different heights'')
        else if sf_leaves (ps_forest s) \<noteq> expected_leaves then (s, bail ''forest does not have the leaves the journal expects'')
        else
          bind_s (s, published_index P s height tip_hash) (\<lambda>s index.
          bind_s (on_store set_proof_file s (truncate_after (ro_truncate io) 0 (ps_proof_file s) index)) (\<lambda>s _.
          bind_s (on_store set_proof_index s (update_height (se_kv P) (ps_proof_index s) (ucast height))) (\<lambda>s _.
            (s\<lparr>ps_height := height, ps_tip_hash := tip_hash\<rparr>, Inr ())))))"

text \<open>The recovery of the opened stores.\<close>

definition recover ::
  "('h, 'd, 'x, 's) stores_env \<Rightarrow> 'h chain_rpc \<Rightarrow> 'd recovery_io \<Rightarrow> ('h, 'd, 'x, 's) PersistenceState \<Rightarrow> u32 \<Rightarrow>
   ('h, 'd, 'x, 's) PersistenceState \<times> unit res" where
  "recover P rpc io s indexed_height =
     bind_s (recoverable_journal_height P io s indexed_height (ps_bootstrap_height s)) (\<lambda>s recovered_height.
     bind_s (on_store set_forest s (forest_step (ro_torn io (ps_forest s)) (ps_forest s)
               (bind_r (replay_journal (se_forest P) (ps_forest s) (ps_journal s)) (\<lambda>(f, _). Inr f)))) (\<lambda>s _.
     bind_s (reindex_records P rpc io (records (ps_journal s)) 0 s (records (ps_journal s))) (\<lambda>s _.
     bind_s (if records (ps_journal s) \<noteq> []
             then on_store set_header_index s (HeaderIndex_sync (se_index P) (ro_header_sync io 1) (ps_header_index s))
             else (s, Inr ())) (\<lambda>s _.
     bind_s (s, recovered_tip rpc s recovered_height) (\<lambda>s tip.
       commit_tip P io s recovered_height tip)))))"

text \<open>The start-up: the stored height, the journal and the forest are opened, then recovered.\<close>

definition FlatFileProver_open ::
  "('h, 'd, 'x, 's) stores_env \<Rightarrow> 'h chain_rpc \<Rightarrow> 'd recovery_io \<Rightarrow> int \<Rightarrow> bytes \<Rightarrow> journal_dir \<Rightarrow> nat \<Rightarrow> FlatForest \<Rightarrow> 'd \<Rightarrow>
   'x HeaderIndex \<Rightarrow> ProofFile \<Rightarrow> 's \<Rightarrow> u32 \<Rightarrow> (('h, 'd, 'x, 's) PersistenceState \<times> unit res) res" where
  "FlatFileProver_open P rpc io sysconf fresh dir byte_len forest leaf_map header_index proof_file proof_index bootstrap_height =
     bind_r (load_height (se_kv P) proof_index) (\<lambda>h.
     bind_r (ensure (unat h < 2 ^ 32) ''proof height exceeds u32'') (\<lambda>_.
     bind_r (ForestJournal_open (se_journal P) sysconf fresh dir) (\<lambda>(dir, j).
     bind_r (legacy_journal_rows byte_len forest) (\<lambda>rows.
     bind_r (bind_legacy_forest_rows (se_journal P) dir j (of_nat rows)) (\<lambda>(dir, j).
     bind_r (SteadyStateForest_open (se_forest P) byte_len forest leaf_map) (\<lambda>acc.
     Inr (recover P rpc io
       \<lparr>ps_forest = acc, ps_journal = j, ps_dir = dir, ps_proof_file = proof_file, ps_proof_index = proof_index,
        ps_header_index = header_index, ps_notified = [], ps_height = 0, ps_tip_hash = [], ps_bootstrap_height = bootstrap_height\<rparr>
       (ucast h))))))))"


section \<open>What recovery keeps\<close>

text \<open>The block a published record stands for.\<close>

definition record_block :: "'h JournalRecord \<Rightarrow> 'h PersistenceBlock" where
  "record_block r = \<lparr>pb_entry = jr_entry r, pb_header = rp_header (the (jr_replay r)), pb_proof = rp_proof (the (jr_replay r)),
     pb_proof_forest_rows = rp_proof_forest_rows (the (jr_replay r))\<rparr>"

definition forward_blocks :: "'h JournalRecord list \<Rightarrow> 'h PersistenceBlock list" where
  "forward_blocks rs = map record_block (filter is_forward rs)"

lemma forward_blocks_simps [simp]:
  "forward_blocks [] = []"
  "forward_blocks (r # rs) = (if is_forward r then record_block r # forward_blocks rs else forward_blocks rs)"
  by (simp_all add: forward_blocks_def)

lemma record_block_simps [simp]:
  "pb_entry (record_block r) = jr_entry r"
  "jr_replay r = Some replay \<Longrightarrow> pb_header (record_block r) = rp_header replay"
  "jr_replay r = Some replay \<Longrightarrow> pb_proof (record_block r) = rp_proof replay"
  "jr_replay r = Some replay \<Longrightarrow> pb_proof_forest_rows (record_block r) = rp_proof_forest_rows replay"
  by (simp_all add: record_block_def)

abbreviation block_hash :: "'h PersistenceBlock \<Rightarrow> bytes" where
  "block_hash b \<equiv> je_block_hash (pb_entry b)"

abbreviation block_height :: "'h PersistenceBlock \<Rightarrow> u32" where
  "block_height b \<equiv> je_height (pb_entry b)"

abbreviation proof_end :: "BlockIndex \<Rightarrow> nat" where
  "proof_end i \<equiv> unat (bi_offset i) + unat (bi_size i)"

definition stored_index :: "'s kv_ops \<Rightarrow> 's \<Rightarrow> bytes \<Rightarrow> BlockIndex \<Rightarrow> bool" where
  "stored_index K px hash index \<longleftrightarrow> (\<exists>raw. kv_view K px ''index'' hash = Some raw \<and> from_raw_value raw = Inr (Index index))"

lemma stored_index_unique: "stored_index K px hash i \<Longrightarrow> stored_index K px hash j \<Longrightarrow> i = j"
  by (auto simp: stored_index_def)

lemma get_index_stored:
  assumes "kv_ok K"
  shows "get_index K px hash = Inr (Some index) \<Longrightarrow> stored_index K px hash index"
    and "stored_index K px hash index \<Longrightarrow> get_index K px hash = Inr r \<Longrightarrow> r = Some index"
proof -
  assume "get_index K px hash = Inr (Some index)"
  then obtain raw where "kv_get K px ''index'' hash = Inr (Some raw)" "from_raw_value raw = Inr (Index index)"
    by (auto simp: get_index_def bind_r_def split: sum.splits option.splits IndexEntry.splits)
  moreover from this(1) have "kv_view K px ''index'' hash = Some raw" using kv_get_view [OF assms, of px "''index''" hash] by metis
  ultimately show "stored_index K px hash index" by (simp add: stored_index_def)
next
  assume "stored_index K px hash index" "get_index K px hash = Inr r"
  then show "r = Some index" using kv_get_view [OF assms, of px "''index''" hash]
    by (fastforce simp: get_index_def stored_index_def bind_r_def split: sum.splits option.splits)
qed

text \<open>The stores hold a block: the header, and the proof under its index entry.\<close>

definition proof_held :: "('h, 'd, 'x, 's) stores_env \<Rightarrow> ProofFile \<Rightarrow> 's \<Rightarrow> 'h PersistenceBlock \<Rightarrow> bool" where
  "proof_held P pf px b \<longleftrightarrow>
     (\<exists>index. stored_index (se_kv P) px (block_hash b) index \<and> bi_proof_forest_rows index = Some (pb_proof_forest_rows b) \<and>
        get_proof (se_cons P) pf index = Some (pb_proof b))"

definition held :: "('h, 'd, 'x, 's) stores_env \<Rightarrow> ('h, 'd, 'x, 's) PersistenceState \<Rightarrow> 'h PersistenceBlock \<Rightarrow> bool" where
  "held P s b \<longleftrightarrow> chain_of (se_hdr P) (ps_header_index s) (block_height b) = Some (pb_header b) \<and>
     proof_held P (ps_proof_file s) (ps_proof_index s) b"

lemma held_in_stores:
  assumes "stores_ok P s" and "hi_heights (ps_header_index s) = Some d" and "held P s b"
  shows "in_stores P s b"
proof -
  have "header_ok (se_hdr P)" "consistent (se_index P) (se_hdr P) (ps_header_index s)" "kv_ok (se_kv P)"
    using assms(1) by (simp_all add: stores_ok_def)
  then show ?thesis using assms(2,3) get_by_height_chain get_index_stored(2)
    by (fastforce simp: in_stores_def held_def proof_held_def)
qed

section \<open>The repair of the stores\<close>

text \<open>An append puts the proof at the end of the file, and reads back.\<close>

lemma append_proof_end:
  assumes "pf_ok pf" and "append_proof C io k pf p = (pf', Inr index)" and "consensus_ok C" and "wf_proof p"
  shows "proof_end index = length (vf_data (pf_file pf'))" and "get_proof C pf' index = Some p"
proof -
  let ?b = "fst (CompactBlockProof_encode C p)" and ?pos = "unat (pf_writer_pos pf)"
  have len: "length ?b \<le> MAX_COMPACT_PROOF_BYTES" and c: "checked_add (pf_writer_pos pf) (of_nat (length ?b)) \<noteq> None"
    and ix: "index = \<lparr>bi_offset = pf_writer_pos pf, bi_size = of_nat (length ?b), bi_proof_forest_rows = None\<rparr>"
    and d: "vf_data (pf_file pf') = write_at (vf_data (pf_file pf)) ?b ?pos"
    using assms(2)
    by (auto simp: append_proof_def reserve_def write_reserved_def Let_def bind_s_Inr vf_write_def put_data_def
        split: if_splits option.splits)
  have u: "unat (of_nat (length ?b) :: u64) = length ?b"
    using len by (intro unat_of_nat_small) (simp add: MAX_COMPACT_PROOF_BYTES_def)
  have ne: "?b \<noteq> []" using assms(3) by (auto simp: CompactBlockProof_encode_bytes consensus_ok_def)
  obtain e where "checked_add (pf_writer_pos pf) (of_nat (length ?b)) = Some e" using c by blast
  then have "unat e = ?pos + length ?b" using checked_add_Some u by fastforce
  then have "?pos + length ?b < 2 ^ 64" using unsigned_less [of e, where 'a = nat] by simp
  moreover have l: "length (vf_data (pf_file pf')) = ?pos + length ?b"
    using assms(1) ne by (simp add: d pf_ok_def write_at_def set_len_bytes_def)
  ultimately show "get_proof C pf' index = Some p"
    using get_proof_stored [OF assms(3,4) refl len, of "pf_writer_pos pf" pf' None] sub_write_self [OF ne] by (simp add: ix d)
  show "proof_end index = length (vf_data (pf_file pf'))" using l u by (simp add: ix)
qed


text \<open>What the loop leaves: the headers of all forward records, and their proofs, the first ones as they
  were found and the rest appended again, the last of them at the end of the file.\<close>

definition set_headers :: "'h PersistenceBlock list \<Rightarrow> (u32 \<Rightarrow> 'h option) \<Rightarrow> u32 \<Rightarrow> 'h option" where
  "set_headers blocks c = fold (\<lambda>b c. c(block_height b \<mapsto> pb_header b)) blocks c"

lemma set_headers_simps [simp]:
  "set_headers [] c = c" "set_headers (b # bs) c = set_headers bs (c(block_height b \<mapsto> pb_header b))"
  by (simp_all add: set_headers_def)

definition appended_as :: "('h, 'd, 'x, 's) stores_env \<Rightarrow> ProofFile \<Rightarrow> 'h PersistenceBlock \<Rightarrow> BlockIndex \<times> bytes \<Rightarrow> bool" where
  "appended_as P pf b ih \<longleftrightarrow> snd ih = block_hash b \<and> get_proof (se_cons P) pf (fst ih) = Some (pb_proof b) \<and>
     bi_proof_forest_rows (fst ih) = Some (pb_proof_forest_rows b)"

definition repaired_as ::
  "('h, 'd, 'x, 's) stores_env \<Rightarrow> 's \<Rightarrow> ProofFile \<Rightarrow> bool \<Rightarrow> 'h PersistenceBlock list \<Rightarrow> (BlockIndex \<times> bytes) list \<Rightarrow> bool" where
  "repaired_as P px pf repair_proof_tail blocks repaired \<longleftrightarrow>
     (\<exists>old new. blocks = old @ new \<and> (repair_proof_tail \<longrightarrow> old = []) \<and> (\<forall>b\<in>set old. proof_held P pf px b) \<and>
        list_all2 (appended_as P pf) new repaired \<and>
        (repaired \<noteq> [] \<longrightarrow> proof_end (fst (last repaired)) = length (vf_data (pf_file pf))))"

definition proofs_kept :: "consensus \<Rightarrow> ProofFile \<Rightarrow> ProofFile \<Rightarrow> bool" where
  "proofs_kept C pf pf' \<longleftrightarrow> (\<forall>i q. get_proof C pf i = Some q \<longrightarrow> get_proof C pf' i = Some q)"

lemma proof_held_kept: "proof_held P pf px b \<Longrightarrow> proofs_kept (se_cons P) pf pf' \<Longrightarrow> proof_held P pf' px b"
  by (auto simp: proof_held_def proofs_kept_def)

lemma get_by_height_available:
  assumes "stores_ok P s" and "get_by_height (se_hdr P) (ps_header_index s) h = Inr x"
  shows "x = chain_of (se_hdr P) (ps_header_index s) h"
proof -
  obtain d where "hi_heights (ps_header_index s) = Some d"
    using assms(2) by (auto simp: get_by_height_def available_heights_def ok_or_def bind_r_def split: option.splits)
  then show ?thesis using get_by_height_chain assms by (fastforce simp: stores_ok_def)
qed

text \<open>One step.\<close>

lemma repair_header:
  assumes "stores_ok P s" and "key_free (se_hdr P) (je_height entry) x (chain_of (se_hdr P) (ps_header_index s))"
    and "h_enc (se_hdr P) x \<noteq> replicate 80 0" and "header_missing P s entry x = Inr missing"
    and "(if missing then on_store set_header_index s (HeaderIndex_put (se_index P) (se_hdr P) io (ps_header_index s) (je_height entry) x)
          else (s, Inr ())) = (t, Inr ())"
  shows "\<exists>ix. t = s\<lparr>ps_header_index := ix\<rparr> \<and> stores_ok P t \<and>
    chain_of (se_hdr P) ix = (chain_of (se_hdr P) (ps_header_index s))(je_height entry \<mapsto> x)"
proof (cases missing)
  case True
  then obtain ix where p: "HeaderIndex_put (se_index P) (se_hdr P) io (ps_header_index s) (je_height entry) x = (ix, Inr ())"
    and t: "t = s\<lparr>ps_header_index := ix\<rparr>" using assms(5) by (auto simp: on_store_Inr)
  then show ?thesis using put_consistent [OF _ _ _ assms(2,3) p] assms(1) by (intro exI [of _ ix]) (simp add: stores_ok_def)
next
  case False
  then have "get_by_height (se_hdr P) (ps_header_index s) (je_height entry) = Inr (Some x)"
    using assms(4) by (auto simp: header_missing_def bind_r_def split: sum.splits if_splits)
  then have "chain_of (se_hdr P) (ps_header_index s) (je_height entry) = Some x" using get_by_height_available [OF assms(1)] by metis
  then have "chain_of (se_hdr P) (ps_header_index s) = (chain_of (se_hdr P) (ps_header_index s))(je_height entry \<mapsto> x)" by (simp add: fun_upd_idem)
  then show ?thesis using assms(1,5) False by (intro exI [of _ "ps_header_index s"]) simp
qed

lemma repair_record_spec:
  assumes "stores_ok P s" and "consensus_ok (se_cons P)" and "wf_proof (rp_proof replay)"
    and "key_free (se_hdr P) (je_height entry) (rp_header replay) (chain_of (se_hdr P) (ps_header_index s))"
    and "h_enc (se_hdr P) (rp_header replay) \<noteq> replicate 80 0"
    and "repair_record P io i repair_proof_tail s entry replay = (s', Inr repaired)"
    and "b = \<lparr>pb_entry = entry, pb_header = rp_header replay, pb_proof = rp_proof replay, pb_proof_forest_rows = rp_proof_forest_rows replay\<rparr>"
  shows "\<exists>ix pf. s' = s\<lparr>ps_header_index := ix, ps_proof_file := pf\<rparr> \<and> stores_ok P s' \<and>
    chain_of (se_hdr P) ix = (chain_of (se_hdr P) (ps_header_index s))(je_height entry \<mapsto> rp_header replay) \<and>
    proofs_kept (se_cons P) (ps_proof_file s) pf \<and>
    (case repaired of
       None \<Rightarrow> \<not> repair_proof_tail \<and> pf = ps_proof_file s \<and> proof_held P pf (ps_proof_index s) b
     | Some ih \<Rightarrow> appended_as P pf b ih \<and> proof_end (fst ih) = length (vf_data (pf_file pf)))"
proof -
  obtain missing t index where
    h: "header_missing P s entry (rp_header replay) = Inr missing" and
    t: "(if missing then on_store set_header_index s (HeaderIndex_put (se_index P) (se_hdr P) (ro_put io i) (ps_header_index s)
       (je_height entry) (rp_header replay)) else (s, Inr ())) = (t, Inr ())" and
    g: "get_index (se_kv P) (ps_proof_index t) (je_block_hash entry) = Inr index" and
    rest: "(if repair_proof_tail \<or> \<not> proof_valid P t replay index
     then bind_s (on_store set_proof_file t (append_proof (se_cons P) (ro_append io) i (ps_proof_file t) (rp_proof replay))) (\<lambda>s index.
            (s, Inr (Some (index\<lparr>bi_proof_forest_rows := Some (rp_proof_forest_rows replay)\<rparr>, je_block_hash entry))))
     else (t, Inr None)) = (s', Inr repaired)"
    using assms(6) unfolding repair_record_def bind_s_Inr by auto
  obtain ix where t1: "t = s\<lparr>ps_header_index := ix\<rparr>" "stores_ok P t"
    "chain_of (se_hdr P) ix = (chain_of (se_hdr P) (ps_header_index s))(je_height entry \<mapsto> rp_header replay)"
    using repair_header [OF assms(1,4,5) h t] by blast
  have kv: "kv_ok (se_kv P)" and pf: "pf_ok (ps_proof_file t)" using t1(2) by (simp_all add: stores_ok_def)
  show ?thesis
  proof (cases "repair_proof_tail \<or> \<not> proof_valid P t replay index")
    case True
    then obtain pf1 idx where a: "append_proof (se_cons P) (ro_append io) i (ps_proof_file t) (rp_proof replay) = (pf1, Inr idx)"
      and s': "s' = t\<lparr>ps_proof_file := pf1\<rparr>"
      and rep: "repaired = Some (idx\<lparr>bi_proof_forest_rows := Some (rp_proof_forest_rows replay)\<rparr>, je_block_hash entry)"
      using rest by (auto simp: bind_s_Inr on_store_Inr)
    note keep = append_proof_keeps [OF pf a] and at_end = append_proof_end [OF pf a assms(2,3)]
    show ?thesis using t1 keep at_end s' rep
      by (intro exI [of _ ix] exI [of _ pf1]) (simp add: assms(7) stores_ok_def proofs_kept_def appended_as_def)
  next
    case False
    then have ph: "proof_held P (ps_proof_file s) (ps_proof_index s) b"
      using get_index_stored(1) [OF kv] g t1(1) by (auto simp: assms(7) proof_valid_def proof_held_def split: option.splits)
    have st: "s' = t" "repaired = None" using False rest by simp_all
    have eq: "s' = s\<lparr>ps_header_index := ix, ps_proof_file := ps_proof_file s\<rparr>" unfolding st(1) t1(1) by (cases s) simp
    have ok': "stores_ok P s'" using st(1) t1(2) by simp
    show ?thesis
      by (rule exI [of _ ix], rule exI [of _ "ps_proof_file s"], intro conjI, rule eq, rule ok', rule t1(3))
        (use False ph st(2) in \<open>simp_all add: proofs_kept_def\<close>)
  qed
qed

lemma repaired_cons:
  assumes "case o1 of None \<Rightarrow> \<not> repair_proof_tail \<and> pf1 = pf0 \<and> proof_held P pf1 px b
       | Some ih \<Rightarrow> appended_as P pf1 b ih \<and> proof_end (fst ih) = length (vf_data (pf_file pf1))"
    and "proofs_kept (se_cons P) pf1 pf" and "reps = [] \<longrightarrow> pf = pf1"
    and "repaired_as P px pf (repair_proof_tail \<or> o1 \<noteq> None) blocks reps"
  shows "repaired_as P px pf repair_proof_tail (b # blocks) (case o1 of Some x \<Rightarrow> x # reps | None \<Rightarrow> reps)"
proof -
  obtain old new where on: "blocks = old @ new" "repair_proof_tail \<or> o1 \<noteq> None \<longrightarrow> old = []" "\<forall>b\<in>set old. proof_held P pf px b"
    "list_all2 (appended_as P pf) new reps" "reps \<noteq> [] \<longrightarrow> proof_end (fst (last reps)) = length (vf_data (pf_file pf))"
    using assms(4) unfolding repaired_as_def by blast
  show ?thesis
  proof (cases o1)
    case None
    then have "proof_held P pf px b" "\<not> repair_proof_tail" using assms(1,2) proof_held_kept by auto
    then show ?thesis unfolding repaired_as_def using on None by (intro exI [of _ "b # old"] exI [of _ new]) simp
  next
    case (Some ih)
    then have "appended_as P pf b ih" using assms(1,2) by (auto simp: appended_as_def proofs_kept_def)
    then show ?thesis unfolding repaired_as_def using on Some assms(1,3) by (intro exI [of _ "[]"] exI [of _ "b # new"]) auto
  qed
qed

lemma batch_heights_tail:
  "batch_heights_ok H c (b # bs) \<Longrightarrow> batch_heights_ok H (c(block_height b \<mapsto> pb_header b)) bs"
  by (auto simp: batch_heights_ok_def key_free_def)

lemma repair_records_spec:
  assumes "stores_ok P s" and "consensus_ok (se_cons P)"
    and "\<forall>r\<in>set rs. jr_replay r \<noteq> None \<and> wf_proof (pb_proof (record_block r))"
    and "batch_heights_ok (se_hdr P) (chain_of (se_hdr P) (ps_header_index s)) (forward_blocks rs)"
    and "repair_records P io i repair_proof_tail s rs = (s', Inr repaired)"
  shows "\<exists>ix pf. s' = s\<lparr>ps_header_index := ix, ps_proof_file := pf\<rparr> \<and> stores_ok P s' \<and>
    chain_of (se_hdr P) ix = set_headers (forward_blocks rs) (chain_of (se_hdr P) (ps_header_index s)) \<and>
    proofs_kept (se_cons P) (ps_proof_file s) pf \<and> (repaired = [] \<longrightarrow> pf = ps_proof_file s) \<and>
    repaired_as P (ps_proof_index s) pf repair_proof_tail (forward_blocks rs) repaired"
  using assms(1,3-5)
proof (induction rs arbitrary: i repair_proof_tail s repaired)
  case Nil
  then show ?case by (intro exI [of _ "ps_header_index s"] exI [of _ "ps_proof_file s"]) (simp add: proofs_kept_def repaired_as_def)
next
  case (Cons r rs)
  obtain replay where rp: "jr_replay r = Some replay" using Cons.prems(2) by auto
  show ?case
  proof (cases "is_forward r")
    case False
    then have "jr_status r = RolledBack" by (cases "jr_status r") (simp_all add: is_forward_def)
    with False show ?thesis using Cons.IH [OF Cons.prems(1)] Cons.prems by simp
  next
    case f: True
    let ?b = "record_block r" and ?c = "chain_of (se_hdr P) (ps_header_index s)"
    obtain t o1 reps where st: "repair_record P io i repair_proof_tail s (jr_entry r) replay = (t, Inr o1)"
      and rr: "repair_records P io (i + 1) (repair_proof_tail \<or> o1 \<noteq> None) t rs = (s', Inr reps)"
      and reps: "repaired = (case o1 of Some x \<Rightarrow> x # reps | None \<Rightarrow> reps)"
      using Cons.prems(4) f rp by (auto simp: is_forward_def bind_s_Inr)
    have b: "?b = \<lparr>pb_entry = jr_entry r, pb_header = rp_header replay, pb_proof = rp_proof replay,
        pb_proof_forest_rows = rp_proof_forest_rows replay\<rparr>" using rp by (simp add: record_block_def)
    have kf: "key_free (se_hdr P) (je_height (jr_entry r)) (rp_header replay) ?c" "h_enc (se_hdr P) (rp_header replay) \<noteq> replicate 80 0"
      and wp: "wf_proof (rp_proof replay)"
      using Cons.prems(2,3) f rp by (simp_all add: batch_heights_ok_def)
    obtain ix1 pf1 where t: "t = s\<lparr>ps_header_index := ix1, ps_proof_file := pf1\<rparr>" "stores_ok P t"
      "chain_of (se_hdr P) (ps_header_index t) = ?c(block_height ?b \<mapsto> pb_header ?b)" "proofs_kept (se_cons P) (ps_proof_file s) pf1"
      "case o1 of None \<Rightarrow> \<not> repair_proof_tail \<and> pf1 = ps_proof_file s \<and> proof_held P pf1 (ps_proof_index s) ?b
       | Some ih \<Rightarrow> appended_as P pf1 ?b ih \<and> proof_end (fst ih) = length (vf_data (pf_file pf1))"
      using repair_record_spec [OF Cons.prems(1) assms(2) wp kf st b] rp by auto
    have bh': "batch_heights_ok (se_hdr P) (chain_of (se_hdr P) (ps_header_index t)) (forward_blocks rs)"
      unfolding t(3) using batch_heights_tail [of _ _ ?b] Cons.prems(3) f by simp
    have wf: "\<forall>r\<in>set rs. jr_replay r \<noteq> None \<and> wf_proof (pb_proof (record_block r))" using Cons.prems(2) by simp
    obtain ix pf where r0: "s' = t\<lparr>ps_header_index := ix, ps_proof_file := pf\<rparr>" and r1: "stores_ok P s'"
      "chain_of (se_hdr P) ix = set_headers (forward_blocks rs) (chain_of (se_hdr P) (ps_header_index t))"
      "proofs_kept (se_cons P) (ps_proof_file t) pf" "reps = [] \<longrightarrow> pf = ps_proof_file t"
      "repaired_as P (ps_proof_index t) pf (repair_proof_tail \<or> o1 \<noteq> None) (forward_blocks rs) reps"
      using Cons.IH [OF t(2) wf bh' rr] by blast
    have tt: "ps_proof_file t = pf1" "ps_proof_index t = ps_proof_index s" by (simp_all add: t(1))
    have "s' = s\<lparr>ps_header_index := ix, ps_proof_file := pf\<rparr>" by (simp add: r0 t(1))
    moreover have "chain_of (se_hdr P) ix = set_headers (?b # forward_blocks rs) ?c"
      unfolding r1(2) t(3) by (simp del: fun_upd_apply)
    ultimately have r: "s' = s\<lparr>ps_header_index := ix, ps_proof_file := pf\<rparr>" "stores_ok P s'"
      "chain_of (se_hdr P) ix = set_headers (?b # forward_blocks rs) ?c" "proofs_kept (se_cons P) pf1 pf" "reps = [] \<longrightarrow> pf = pf1"
      "repaired_as P (ps_proof_index s) pf (repair_proof_tail \<or> o1 \<noteq> None) (forward_blocks rs) reps"
      using r1 unfolding tt by blast+
    have kept: "proofs_kept (se_cons P) (ps_proof_file s) pf" using t(4) r(4) by (auto simp: proofs_kept_def)
    have "repaired_as P (ps_proof_index s) pf repair_proof_tail (?b # forward_blocks rs) repaired"
      using repaired_cons [OF t(5) r(4-6)] by (simp add: reps)
    then show ?thesis using r kept f t(5) by (intro exI [of _ ix] exI [of _ pf]) (auto simp: reps split: option.splits)
  qed
qed


text \<open>What recovery relies on: every record has its replay payload, as those written since the payload was
  introduced have; the forward records are blocks of one chain above the bootstrap height; and the
  proofs they have in the file were appended in order.\<close>

definition recoverable :: "('h, 'd, 'x, 's) stores_env \<Rightarrow> ('h, 'd, 'x, 's) PersistenceState \<Rightarrow> bool" where
  "recoverable P s \<longleftrightarrow>
     (let blocks = forward_blocks (records (ps_journal s)) in
      (\<forall>r\<in>set (records (ps_journal s)). jr_replay r \<noteq> None \<and> wf_proof (pb_proof (record_block r))) \<and>
      (\<forall>b\<in>set blocks. header_of_entry (se_hdr P) b \<and> ps_bootstrap_height s < block_height b) \<and>
      batch_heights_ok (se_hdr P) (chain_of (se_hdr P) (ps_header_index s)) blocks \<and>
      distinct (map block_height blocks) \<and>
      (\<forall>b\<in>set blocks. \<forall>i t. stored_index (se_kv P) (ps_proof_index s) (block_hash b) i \<longrightarrow>
         stored_index (se_kv P) (ps_proof_index s) (block_hash (last blocks)) t \<longrightarrow> proof_end i \<le> proof_end t))"

definition tip_last :: "('h, 'd, 'x, 's) stores_env \<Rightarrow> ProofFile \<Rightarrow> 's \<Rightarrow> 'h PersistenceBlock list \<Rightarrow> bool" where
  "tip_last P pf px blocks \<longleftrightarrow>
     (\<forall>b\<in>set blocks. \<forall>i t. stored_index (se_kv P) px (block_hash b) i \<longrightarrow> get_proof (se_cons P) pf i \<noteq> None \<longrightarrow>
        stored_index (se_kv P) px (block_hash (last blocks)) t \<longrightarrow> proof_end i \<le> proof_end t)"

lemma get_proof_bound:
  assumes "get_proof C pf i \<noteq> None"
  shows "contains pf i" and "proof_end i \<le> length (vf_data (pf_file pf))"
proof -
  show c: "contains pf i" using assms by (auto simp: get_proof_def split: if_splits)
  then obtain e where "checked_add (bi_offset i) (bi_size i) = Some e" "unat e \<le> length (vf_data (pf_file pf))"
    by (auto simp: contains_def split: option.splits)
  then show "proof_end i \<le> length (vf_data (pf_file pf))" using checked_add_Some [of "bi_offset i" "bi_size i" e] by simp
qed

lemma append_batch_stored:
  assumes "kv_ok K" and "append_batch K px indexes = (px', Inr ())" and "distinct (map snd indexes)"
  shows "(i, h) \<in> set indexes \<Longrightarrow> stored_index K px' h i"
    and "h \<notin> snd ` set indexes \<Longrightarrow> stored_index K px' h i = stored_index K px h i"
proof -
  obtain px1 where a: "set_indexes K px indexes = (px1, Inr ())" and f: "kv_flush K px1 ''index'' = (px', Inr ())"
    using assms(2) by (auto simp: append_batch_def bind_s_Inr)
  have v: "kv_view K px' = kv_view K px1" using kv_flush_view [OF assms(1), of px1 "''index''"] f by simp
  note spec = set_indexes_spec [OF assms(1) a assms(3)]
  show "(i, h) \<in> set indexes \<Longrightarrow> stored_index K px' h i" using spec v by (fastforce simp: stored_index_def)
  show "h \<notin> snd ` set indexes \<Longrightarrow> stored_index K px' h i = stored_index K px h i" using spec v by (simp add: stored_index_def)
qed

lemma appended_hashes: "list_all2 (appended_as P pf) new repaired \<Longrightarrow> map snd repaired = map block_hash new"
  by (induction rule: list_all2_induct) (simp_all add: appended_as_def)

lemma set_headers_at:
  "distinct (map block_height blocks) \<Longrightarrow> b \<in> set blocks \<Longrightarrow> set_headers blocks c (block_height b) = Some (pb_header b)"
  unfolding set_headers_def by (rule fold_heights_last)

text \<open>After the index entries of the appended proofs are stored, every block is held.\<close>

lemma repaired_held:
  assumes kv: "kv_ok (se_kv P)" and rep: "repaired_as P px pf False blocks repaired"
    and dist: "distinct (map block_hash blocks)"
    and order: "\<forall>b\<in>set blocks. \<forall>i t. stored_index (se_kv P) px (block_hash b) i \<longrightarrow>
         stored_index (se_kv P) px (block_hash (last blocks)) t \<longrightarrow> proof_end i \<le> proof_end t"
    and px': "if repaired \<noteq> [] then append_batch (se_kv P) px repaired = (px', Inr ()) else px' = px"
  shows "\<forall>b\<in>set blocks. proof_held P pf px' b" and "tip_last P pf px' blocks"
proof -
  obtain old new where on: "blocks = old @ new" "\<forall>b\<in>set old. proof_held P pf px b"
    "list_all2 (appended_as P pf) new repaired" "repaired \<noteq> [] \<longrightarrow> proof_end (fst (last repaired)) = length (vf_data (pf_file pf))"
    using rep unfolding repaired_as_def by blast
  have hashes: "map snd repaired = map block_hash new" by (rule appended_hashes [OF on(3)])
  show "\<forall>b\<in>set blocks. proof_held P pf px' b" and "tip_last P pf px' blocks"
  proof (atomize (full), cases "repaired = []")
    case True
    then have "new = []" "px' = px" using on(3) px' by auto
    then show "(\<forall>b\<in>set blocks. proof_held P pf px' b) \<and> tip_last P pf px' blocks"
      using on(1,2) order by (auto simp: tip_last_def)
  next
    case False
    then have ab: "append_batch (se_kv P) px repaired = (px', Inr ())" using px' by simp
    have d: "distinct (map snd repaired)" using dist by (simp add: hashes on(1))
    note st = append_batch_stored [OF kv ab d]
    have "proof_held P pf px' b" if b: "b \<in> set old" for b
    proof -
      have "block_hash b \<notin> snd ` set repaired"
      proof
        assume "block_hash b \<in> snd ` set repaired"
        then have "block_hash b \<in> set (map block_hash new)" by (simp add: hashes [symmetric])
        then show False using dist b by (auto simp: on(1))
      qed
      then show ?thesis using on(2) b st(2) by (simp add: proof_held_def)
    qed
    moreover have "proof_held P pf px' b" if b: "b \<in> set new" for b
    proof -
      obtain n where n: "n < length new" "new ! n = b" using b by (auto simp: in_set_conv_nth)
      obtain i h where ih: "repaired ! n = (i, h)" by fastforce
      with n on(3) have "(i, h) \<in> set repaired" "appended_as P pf b (i, h)"
        by (auto simp: list_all2_conv_all_nth in_set_conv_nth)
      then show ?thesis using st(1) by (auto simp: appended_as_def proof_held_def)
    qed
    moreover have "tip_last P pf px' blocks"
    proof -
      have "new \<noteq> []" using on(3) False by auto
      then have "block_hash (last blocks) = snd (last repaired)"
        using hashes False by (metis last_appendR last_map on(1))
      moreover have "stored_index (se_kv P) px' (snd (last repaired)) (fst (last repaired))"
        using st(1) [of "fst (last repaired)" "snd (last repaired)"] False by simp
      ultimately have tip: "t = fst (last repaired)" if "stored_index (se_kv P) px' (block_hash (last blocks)) t" for t
        using that stored_index_unique by metis
      show ?thesis unfolding tip_last_def
      proof (intro ballI allI impI)
        fix b i t assume "get_proof (se_cons P) pf i \<noteq> None" "stored_index (se_kv P) px' (block_hash (last blocks)) t"
        then show "proof_end i \<le> proof_end t" using get_proof_bound(2) tip on(4) False by metis
      qed
    qed
    ultimately show "(\<forall>b\<in>set blocks. proof_held P pf px' b) \<and> tip_last P pf px' blocks" by (auto simp: on(1))
  qed
qed


lemma repair_stores_spec:
  assumes ok: "stores_ok P s" and cons: "consensus_ok (se_cons P)" and rec: "recoverable P s" and run: "repair_stores P io s = (s', Inr ())"
  shows "\<exists>ix pf px. s' = s\<lparr>ps_header_index := ix, ps_proof_file := pf, ps_proof_index := px\<rparr>" and "stores_ok P s'"
    and "\<exists>d. hi_heights (ps_header_index s') = Some d"
    and "\<forall>b\<in>set (forward_blocks (records (ps_journal s))). held P s' b"
    and "tip_last P (ps_proof_file s') (ps_proof_index s') (forward_blocks (records (ps_journal s)))"
proof -
  let ?blocks = "forward_blocks (records (ps_journal s))"
  have r: "\<forall>r\<in>set (records (ps_journal s)). jr_replay r \<noteq> None \<and> wf_proof (pb_proof (record_block r))"
    "\<forall>b\<in>set ?blocks. header_of_entry (se_hdr P) b" "batch_heights_ok (se_hdr P) (chain_of (se_hdr P) (ps_header_index s)) ?blocks"
    "distinct (map block_height ?blocks)"
    "\<forall>b\<in>set ?blocks. \<forall>i t. stored_index (se_kv P) (ps_proof_index s) (block_hash b) i \<longrightarrow>
         stored_index (se_kv P) (ps_proof_index s) (block_hash (last ?blocks)) t \<longrightarrow> proof_end i \<le> proof_end t"
    using rec unfolding recoverable_def Let_def by blast+
  have db: "index_db_ok (se_index P)" and kv: "kv_ok (se_kv P)" using ok by (simp_all add: stores_ok_def)
  obtain t repaired pf2 ix2 where
    a1: "repair_records P io 0 False s (records (ps_journal s)) = (t, Inr repaired)" and
    a2: "ProofFile_sync (ro_proof_sync io) 0 (ps_proof_file t) = (pf2, Inr ())" and
    a3: "HeaderIndex_sync (se_index P) (ro_header_sync io 0) (ps_header_index t) = (ix2, Inr ())" and
    a4: "(if repaired \<noteq> [] then on_store set_proof_index (t\<lparr>ps_proof_file := pf2, ps_header_index := ix2\<rparr>) (append_batch (se_kv P) (ps_proof_index t) repaired)
       else (t\<lparr>ps_proof_file := pf2, ps_header_index := ix2\<rparr>, Inr ())) = (s', Inr ())"
    using run by (auto simp: repair_stores_def bind_s_Inr on_store_Inr cong: if_cong)
  obtain ix1 pf1 where t: "t = s\<lparr>ps_header_index := ix1, ps_proof_file := pf1\<rparr>" "stores_ok P t"
    "chain_of (se_hdr P) ix1 = set_headers ?blocks (chain_of (se_hdr P) (ps_header_index s))"
    "repaired_as P (ps_proof_index s) pf1 False ?blocks repaired"
    using repair_records_spec [OF ok cons r(1,3) a1] by blast
  define px where "px = ps_proof_index s'"
  have s': "s' = s\<lparr>ps_header_index := ix2, ps_proof_file := pf2, ps_proof_index := px\<rparr>"
    using a4 by (auto simp: t(1) px_def on_store_Inr split: if_splits)
  have px: "if repaired \<noteq> [] then append_batch (se_kv P) (ps_proof_index s) repaired = (px, Inr ()) else px = ps_proof_index s"
    using a4 by (auto simp: t(1) px_def on_store_Inr split: if_splits)
  have pf2: "vf_data (pf_file pf2) = vf_data (pf_file pf1)" "pf_writer_pos pf2 = pf_writer_pos pf1"
    using a2 by (auto simp: t(1) ProofFile_sync_def vf_sync_def synced_file_def split: option.splits)
  have g: "get_proof (se_cons P) pf2 i = get_proof (se_cons P) pf1 i" for i
    using pf2 by (simp add: get_proof_def contains_def cong: option.case_cong)
  have c1: "consistent (se_index P) (se_hdr P) ix1" "pf_ok pf1" using t(1,2) by (simp_all add: stores_ok_def)
  note sy = header_sync_spec [OF db a3 [unfolded t(1), simplified] c1(1)]
  note held = repaired_held [OF kv t(4) distinct_hashes [OF r(3,2)] r(5) px]
  show "\<exists>ix pf px. s' = s\<lparr>ps_header_index := ix, ps_proof_file := pf, ps_proof_index := px\<rparr>" using s' by blast
  show "stores_ok P s'" using ok sy(1) c1(2) pf2 by (simp add: s' stores_ok_def pf_ok_def)
  show "\<exists>d. hi_heights (ps_header_index s') = Some d" using sy(2) by (simp add: s')
  show "\<forall>b\<in>set ?blocks. held P s' b"
    using held(1) sy(1) t(3) set_headers_at [OF r(4)] g by (simp add: held_def s' proof_held_def)
  show "tip_last P (ps_proof_file s') (ps_proof_index s') ?blocks" using held(2) g by (simp add: s' tip_last_def)
qed

section \<open>No gap at a retained height\<close>

lemma retained_hashes_at:
  assumes "distinct (map block_height (forward_blocks (records j)))" and "r \<in> set (records j)" and "is_forward r"
  shows "retained_hashes j (je_height (jr_entry r)) = Some (je_block_hash (jr_entry r))"
proof -
  let ?f = "\<lambda>r. (je_height (jr_entry r), je_block_hash (jr_entry r))"
  have "map fst (map ?f (filter is_forward (records j))) = map block_height (forward_blocks (records j))"
    by (simp add: forward_blocks_def comp_def)
  then have "distinct (map fst (rev (map ?f (filter is_forward (records j)))))" using assms(1) by (simp add: rev_map [symmetric])
  moreover have "?f r \<in> set (rev (map ?f (filter is_forward (records j))))" using assms(2,3) by auto
  ultimately show ?thesis unfolding retained_hashes_def by (simp add: map_of_is_SomeI)
qed

lemma height_valid_held:
  assumes ok: "stores_ok P s" and b: "held P s (record_block r)" "header_of_entry (se_hdr P) (record_block r)"
    and "retained (je_height (jr_entry r)) = Some (je_block_hash (jr_entry r))"
    and run: "height_valid P s retained (je_height (jr_entry r)) = Inr v"
  shows "v"
proof -
  obtain x index where x: "get_by_height (se_hdr P) (ps_header_index s) (je_height (jr_entry r)) = Inr x"
    and i: "(case map_option (h_block_hash (se_hdr P)) x of Some h \<Rightarrow> get_index (se_kv P) (ps_proof_index s) h | None \<Rightarrow> Inr None) = Inr index"
    and v: "v = (case (map_option (h_block_hash (se_hdr P)) x, index) of
            (Some h, Some index) \<Rightarrow>
              (case retained (je_height (jr_entry r)) of
                 None \<Rightarrow> contains (ps_proof_file s) index
               | Some h' \<Rightarrow> h' = h \<and> contains (ps_proof_file s) index \<and> get_proof (se_cons P) (ps_proof_file s) index \<noteq> None)
          | _ \<Rightarrow> False)"
    using run by (auto simp: height_valid_def Let_def bind_r_def split: sum.splits)
  have kv: "kv_ok (se_kv P)" using ok by (simp add: stores_ok_def)
  have "x = Some (pb_header (record_block r))" using get_by_height_available [OF ok x] b(1) by (simp add: held_def)
  moreover have "h_block_hash (se_hdr P) (pb_header (record_block r)) = je_block_hash (jr_entry r)" using b(2) by (simp add: header_of_entry_def)
  moreover obtain idx where idx: "stored_index (se_kv P) (ps_proof_index s) (je_block_hash (jr_entry r)) idx"
    "get_proof (se_cons P) (ps_proof_file s) idx \<noteq> None"
    using b(1) by (auto simp: held_def proof_held_def)
  ultimately have "index = Some idx" using i get_index_stored(2) [OF kv idx(1)] by simp
  then show "v" using v idx(2) get_proof_bound(1) [OF idx(2)] assms(4) \<open>x = _\<close> \<open>h_block_hash _ _ = _\<close> by simp
qed

lemma check_heights_held:
  assumes ok: "stores_ok P s" and held: "\<forall>b\<in>set (forward_blocks (records (ps_journal s))). held P s b \<and> header_of_entry (se_hdr P) b"
    and dist: "distinct (map block_height (forward_blocks (records (ps_journal s))))"
    and run: "check_heights P io (retained_hashes (ps_journal s)) candidate s heights = (s', Inr h)"
  shows "s' = s \<and> h = candidate"
  using run
proof (induction heights)
  case (Cons height heights)
  obtain v where v: "height_valid P s (retained_hashes (ps_journal s)) height = Inr v"
    and rest: "(if v then check_heights P io (retained_hashes (ps_journal s)) candidate s heights else rollback_gap io s height) = (s', Inr h)"
    using Cons.prems by (auto simp: bind_s_Inr)
  show ?case
  proof (cases v)
    case True
    then show ?thesis using Cons.IH rest by simp
  next
    case False
    then obtain r where r: "r \<in> set (records (ps_journal s))" "is_forward r" "je_height (jr_entry r) = height"
      using rest by (auto simp: rollback_gap_def Let_def list_ex_iff split: if_splits)
    then have "record_block r \<in> set (forward_blocks (records (ps_journal s)))" by (simp add: forward_blocks_def)
    then have "held P s (record_block r)" "header_of_entry (se_hdr P) (record_block r)" using held by simp_all
    moreover have "retained_hashes (ps_journal s) (je_height (jr_entry r)) = Some (je_block_hash (jr_entry r))"
      using retained_hashes_at [OF dist r(1,2)] .
    ultimately show ?thesis using height_valid_held [OF ok, of r "retained_hashes (ps_journal s)" v] v r(3) False by simp
  qed
qed simp


section \<open>The second pass\<close>

lemma get_height_held:
  assumes "stores_ok P s" and "chain_of (se_hdr P) (ps_header_index s) h = Some x"
    and "get_height (se_index P) (se_hdr P) (ps_header_index s) (h_block_hash (se_hdr P) x) = Inr q"
  shows "q = Some h"
proof -
  let ?D = "se_index P" and ?H = "se_hdr P" and ?ix = "ps_header_index s"
  obtain d where d: "hi_heights ?ix = Some d"
    using assms(3) by (auto simp: get_height_def available_heights_def ok_or_def bind_r_def split: option.splits)
  then have rh: "read_height ?D ?H ?ix d (h_block_hash ?H x) = Inr q" using assms(3) by (simp add: get_height_def available_heights_def)
  have c: "index_db_ok ?D" "header_ok ?H" "wf_headers ?H (vf_data (hi_headers ?ix))" "index_values_ok (id_view ?D d)"
    "covers ?H (chain_of ?H ?ix) (id_view ?D d)"
    using assms(1) d by (simp_all add: stores_ok_def consistent_def index_view_def)
  obtain v where "id_get ?D d (hash_key (h_block_hash ?H x)) = Inr v" using rh by (auto simp: read_height_def)
  then have "id_get ?D d (hash_key (h_block_hash ?H x)) = Inr (id_view ?D d (hash_key (h_block_hash ?H x)))" using idb_get [OF c(1)] by simp
  from read_height_eq [OF c(2-4) this, of h] rh c(5) assms(2) show ?thesis by (auto simp: covers_def)
qed

definition index_shrinks :: "'s kv_ops \<Rightarrow> 's \<Rightarrow> 's \<Rightarrow> bool" where
  "index_shrinks K px px' \<longleftrightarrow> (\<forall>h v. kv_view K px' ''index'' h = Some v \<longrightarrow> kv_view K px ''index'' h = Some v)"

lemma tip_last_shrinks: "tip_last P pf px blocks \<Longrightarrow> index_shrinks (se_kv P) px px' \<Longrightarrow> tip_last P pf px' blocks"
  unfolding tip_last_def index_shrinks_def stored_index_def by blast

lemma held_chain_remove:
  assumes "held P s b" and "header_of_entry (se_hdr P) b" and "hash \<noteq> block_hash b"
    and "chain_of (se_hdr P) ix = chain_remove (se_hdr P) height hash (chain_of (se_hdr P) (ps_header_index s))"
    and "kv_view (se_kv P) px = (kv_view (se_kv P) (ps_proof_index s))(''index'' := (kv_view (se_kv P) (ps_proof_index s) ''index'')(hash := None))"
  shows "held P (s\<lparr>ps_header_index := ix, ps_proof_index := px\<rparr>) b"
  using assms by (auto simp: held_def chain_remove_def header_of_entry_def proof_held_def stored_index_def split: option.splits)

text \<open>An orphaned block: rolled back, and not published again.\<close>

definition orphaned :: "'h JournalRecord list \<Rightarrow> 'h JournalRecord \<Rightarrow> bool" where
  "orphaned rs r \<longleftrightarrow> \<not> is_forward r \<and> (\<forall>later\<in>set rs. is_forward later \<longrightarrow> je_block_hash (jr_entry later) \<noteq> je_block_hash (jr_entry r))"

lemma reindex_records_spec:
  assumes "stores_ok P s" and "\<exists>d. hi_heights (ps_header_index s) = Some d"
    and "\<forall>b\<in>set (forward_blocks all). held P s b \<and> header_of_entry (se_hdr P) b" and "set rs \<subseteq> set all"
    and "reindex_records P rpc io all i s rs = (s', Inr ())"
  shows "\<exists>ix px. s' = s\<lparr>ps_header_index := ix, ps_proof_index := px\<rparr> \<and> stores_ok P s' \<and> (\<exists>d. hi_heights ix = Some d) \<and>
    (\<forall>b\<in>set (forward_blocks all). held P s' b) \<and> index_shrinks (se_kv P) (ps_proof_index s) px \<and>
    (\<forall>r\<in>set rs. orphaned all r \<longrightarrow> kv_view (se_kv P) px ''index'' (je_block_hash (jr_entry r)) = None)"
  using assms
proof (induction rs arbitrary: i s)
  case Nil
  then show ?case by (intro exI [of _ "ps_header_index s"] exI [of _ "ps_proof_index s"]) (simp add: index_shrinks_def)
next
  case (Cons r rs)
  have sub: "set rs \<subseteq> set all" "r \<in> set all" using Cons.prems(4) by simp_all
  have keep: ?case if "\<not> orphaned all r" "reindex_records P rpc io all (i + 1) s rs = (s', Inr ())"
    using Cons.IH [OF Cons.prems(1-3) sub(1) that(2)] that(1) by simp
  show ?case
  proof (cases "is_forward r")
    case True
    then have b: "record_block r \<in> set (forward_blocks all)" using sub(2) by (simp add: forward_blocks_def)
    then have held: "held P s (record_block r)" "header_of_entry (se_hdr P) (record_block r)" using Cons.prems(3) by simp_all
    let ?h = "je_height (jr_entry r)" and ?hash = "je_block_hash (jr_entry r)" and ?x = "pb_header (record_block r)"
    have chain: "chain_of (se_hdr P) (ps_header_index s) ?h = Some ?x" "h_block_hash (se_hdr P) ?x = ?hash"
      using held by (simp_all add: held_def header_of_entry_def)
    obtain q where q: "get_height (se_index P) (se_hdr P) (ps_header_index s) ?hash = Inr q"
      using Cons.prems(5) True by (auto simp: Let_def is_forward_def bind_s_Inr)
    then have "q = Some ?h" using get_height_held [OF Cons.prems(1) chain(1)] chain(2) by simp
    moreover have "get_by_height (se_hdr P) (ps_header_index s) ?h = Inr (Some ?x)"
      using Cons.prems(1,2) chain(1) get_by_height_chain by (fastforce simp: stores_ok_def)
    ultimately have "reindex_records P rpc io all (i + 1) s rs = (s', Inr ())"
      using Cons.prems(5) True q chain(2) by (simp add: Let_def is_forward_def)
    then show ?thesis using keep True by (simp add: orphaned_def)
  next
    case False
    then have rb: "jr_status r = RolledBack" by (cases "jr_status r") (simp_all add: is_forward_def)
    show ?thesis
    proof (cases "orphaned all r")
      case nf: False
      then have "list_ex (\<lambda>later. is_forward later \<and> je_block_hash (jr_entry later) = je_block_hash (jr_entry r)) all"
        using False by (auto simp: orphaned_def list_ex_iff)
      then have "reindex_records P rpc io all (i + 1) s rs = (s', Inr ())" using Cons.prems(5) rb by (simp add: Let_def)
      then show ?thesis using keep nf by simp
    next
      case orph: True
      then have "\<not> list_ex (\<lambda>later. is_forward later \<and> je_block_hash (jr_entry later) = je_block_hash (jr_entry r)) all"
        by (auto simp: orphaned_def list_ex_iff)
      then obtain ix1 px1 where
        rm: "HeaderIndex_remove (se_index P) (se_hdr P) (ro_reindex io i) (ps_header_index s) (je_height (jr_entry r)) (je_block_hash (jr_entry r)) = (ix1, Inr ())"
        and ir: "index_remove (se_kv P) (ps_proof_index s) (je_block_hash (jr_entry r)) = (px1, Inr ())"
        and rest: "reindex_records P rpc io all (i + 1) (s\<lparr>ps_header_index := ix1, ps_proof_index := px1\<rparr>) rs = (s', Inr ())"
        using Cons.prems(5) rb by (auto simp: Let_def bind_s_Inr on_store_Inr)
      let ?t = "s\<lparr>ps_header_index := ix1, ps_proof_index := px1\<rparr>"
      have st: "index_db_ok (se_index P)" "header_ok (se_hdr P)" "consistent (se_index P) (se_hdr P) (ps_header_index s)" "kv_ok (se_kv P)"
        using Cons.prems(1) by (simp_all add: stores_ok_def)
      note rc = remove_consistent [OF st(1-3) rm] and iv = index_remove_spec [OF st(4) ir]
      have ok: "stores_ok P ?t" using Cons.prems(1) rc by (simp add: stores_ok_def)
      have "je_block_hash (jr_entry r) \<noteq> block_hash b" if "b \<in> set (forward_blocks all)" for b
        using that orph by (auto simp: forward_blocks_def orphaned_def)
      then have held: "\<forall>b\<in>set (forward_blocks all). held P ?t b \<and> header_of_entry (se_hdr P) b"
        using held_chain_remove [of P s _ "je_block_hash (jr_entry r)" ix1 "je_height (jr_entry r)" px1] rc iv Cons.prems(3) by blast
      have av: "\<exists>d. hi_heights (ps_header_index ?t) = Some d" using rc by simp
      obtain ix px where r: "s' = ?t\<lparr>ps_header_index := ix, ps_proof_index := px\<rparr>" "stores_ok P s'" "\<exists>d. hi_heights ix = Some d"
        "\<forall>b\<in>set (forward_blocks all). held P s' b" "index_shrinks (se_kv P) px1 px"
        "\<forall>r\<in>set rs. orphaned all r \<longrightarrow> kv_view (se_kv P) px ''index'' (je_block_hash (jr_entry r)) = None"
        using Cons.IH [OF ok av held sub(1) rest] by auto
      have gone: "kv_view (se_kv P) px1 ''index'' (je_block_hash (jr_entry r)) = None"
        and "index_shrinks (se_kv P) (ps_proof_index s) px1" using iv by (auto simp: index_shrinks_def)
      with r(5) have "index_shrinks (se_kv P) (ps_proof_index s) px" "kv_view (se_kv P) px ''index'' (je_block_hash (jr_entry r)) = None"
        by (auto simp: index_shrinks_def) (metis not_None_eq)
      then show ?thesis using r by (intro exI [of _ ix] exI [of _ px]) simp
    qed
  qed
qed


section \<open>A recovered start-up\<close>

lemma rfind_last:
  "n \<le> length xs \<Longrightarrow> map_option snd (rfind (\<lambda>_. Q) xs n) = (if filter Q (take n xs) = [] then None else Some (last (filter Q (take n xs))))"
  by (induction n) (auto simp: take_Suc_conv_app_nth split: if_splits)

lemma latest_forward_last:
  "map_option (\<lambda>(i, r). record_block r) (latest_forward j) =
     (if forward_blocks (records j) = [] then None else Some (last (forward_blocks (records j))))"
proof -
  have "map_option snd (latest_forward j) =
      (if filter is_forward (records j) = [] then None else Some (last (filter is_forward (records j))))"
    using rfind_last [of "length (records j)" "records j" is_forward] by (simp add: latest_forward_def is_forward_def [abs_def])
  then show ?thesis by (cases "latest_forward j") (auto simp: forward_blocks_def last_map split: if_splits)
qed

lemma recover_Inr:
  assumes "recover P rpc io s indexed_height = (s', Inr ())"
  shows "\<exists>t h f a u v tip.
    recoverable_journal_height P io s indexed_height (ps_bootstrap_height s) = (t, Inr h) \<and>
    replay_journal (se_forest P) (ps_forest t) (ps_journal t) = Inr (f, a) \<and>
    reindex_records P rpc io (records (ps_journal t)) 0 (t\<lparr>ps_forest := f\<rparr>) (records (ps_journal t)) = (u, Inr ()) \<and>
    (if records (ps_journal u) \<noteq> []
     then on_store set_header_index u (HeaderIndex_sync (se_index P) (ro_header_sync io 1) (ps_header_index u)) else (u, Inr ())) = (v, Inr ()) \<and>
    recovered_tip rpc v h = Inr tip \<and> commit_tip P io v h tip = (s', Inr ())"
proof -
  obtain t h where a1: "recoverable_journal_height P io s indexed_height (ps_bootstrap_height s) = (t, Inr h)"
    using assms unfolding recover_def bind_s_Inr by blast
  then obtain f a where a2: "replay_journal (se_forest P) (ps_forest t) (ps_journal t) = Inr (f, a)"
    using assms by (auto simp: recover_def bind_s_Inr on_store_Inr forest_step_Inr bind_r_def split: sum.splits)
  then show ?thesis using assms a1
    by (simp add: recover_def bind_s_Inr on_store_Inr forest_step_Inr)
qed

lemma commit_tip_Inr:
  assumes "commit_tip P io s h (height, tip, leaves) = (s', Inr ())"
  shows "height = h \<and> sf_leaves (ps_forest s) = leaves \<and>
    (\<exists>index pf px. published_index P s height tip = Inr index \<and> truncate_after (ro_truncate io) 0 (ps_proof_file s) index = (pf, Inr ()) \<and>
      update_height (se_kv P) (ps_proof_index s) (ucast height) = (px, Inr ()) \<and>
      s' = s\<lparr>ps_proof_file := pf, ps_proof_index := px, ps_height := height, ps_tip_hash := tip\<rparr>)"
  using assms by (auto simp: commit_tip_def bind_s_Inr on_store_Inr split: if_splits)

lemma published_index_Some:
  assumes "kv_ok (se_kv P)" and "published_index P s height tip = Inr index" and "ps_bootstrap_height s < height"
  shows "\<exists>i. index = Some i \<and> stored_index (se_kv P) (ps_proof_index s) tip i"
  using assms(2,3) get_index_stored(1) [OF assms(1)]
  by (auto simp: published_index_def ok_or_def ensure_def bind_r_def split: sum.splits option.splits if_splits)


text \<open>Cutting the proof file back at the tip keeps the proofs of all forward records.\<close>

lemma commit_tip_held:
  assumes kv: "kv_ok (se_kv P)" and held: "\<forall>b\<in>set blocks. held P s b" and last: "tip_last P (ps_proof_file s) (ps_proof_index s) blocks"
    and tip: "blocks \<noteq> [] \<Longrightarrow> height = block_height (last blocks) \<and> tip = block_hash (last blocks) \<and> ps_bootstrap_height s < height"
    and run: "commit_tip P io s h (height, tip, leaves) = (s', Inr ())"
  shows "\<forall>b\<in>set blocks. held P s' b"
proof
  fix b assume b: "b \<in> set blocks"
  obtain index pf px where c: "published_index P s height tip = Inr index" "truncate_after (ro_truncate io) 0 (ps_proof_file s) index = (pf, Inr ())"
    "update_height (se_kv P) (ps_proof_index s) (ucast height) = (px, Inr ())"
    "s' = s\<lparr>ps_proof_file := pf, ps_proof_index := px, ps_height := height, ps_tip_hash := tip\<rparr>"
    using commit_tip_Inr [OF run] by blast
  have "blocks \<noteq> []" using b by auto
  then have t: "tip = block_hash (last blocks)" "ps_bootstrap_height s < height" using tip by blast+
  obtain ti where ti: "index = Some ti" "stored_index (se_kv P) (ps_proof_index s) tip ti"
    using published_index_Some [OF kv c(1) t(2)] by blast
  obtain i where i: "stored_index (se_kv P) (ps_proof_index s) (block_hash b) i" "bi_proof_forest_rows i = Some (pb_proof_forest_rows b)"
    "get_proof (se_cons P) (ps_proof_file s) i = Some (pb_proof b)"
    using held b by (auto simp: held_def proof_held_def)
  have "proof_end i \<le> proof_end ti" using last b i(1,3) ti(2) t(1) unfolding tip_last_def by blast
  then have "get_proof (se_cons P) pf i = Some (pb_proof b)"
    using truncate_spec [OF c(2) [unfolded ti(1)], of "se_cons P"] i(3) by simp
  moreover have "stored_index (se_kv P) px (block_hash b) i" using i(1) update_height_spec(1) [OF kv c(3)] by (simp add: stored_index_def)
  ultimately show "held P s' b" using held b i(2) by (auto simp: c(4) held_def proof_held_def)
qed

lemma recoverable_height_spec:
  assumes ok: "stores_ok P s" and cons: "consensus_ok (se_cons P)" and rec: "recoverable P s"
    and run: "recoverable_journal_height P io s indexed_height bootstrap_height = (t, Inr h)"
  shows "\<exists>ix pf px. t = s\<lparr>ps_header_index := ix, ps_proof_file := pf, ps_proof_index := px\<rparr>" and "stores_ok P t"
    and "\<exists>d. hi_heights (ps_header_index t) = Some d"
    and "\<forall>b\<in>set (forward_blocks (records (ps_journal s))). held P t b"
    and "tip_last P (ps_proof_file t) (ps_proof_index t) (forward_blocks (records (ps_journal s)))"
proof -
  obtain t0 where r: "repair_stores P io s = (t0, Inr ())"
    and c: "check_heights P io (retained_hashes (ps_journal t0)) (candidate_height (ps_journal t0) indexed_height bootstrap_height) t0
      (heights_between (bootstrap_height + 1) (candidate_height (ps_journal t0) indexed_height bootstrap_height)) = (t, Inr h)"
    using run by (auto simp: recoverable_journal_height_def bind_s_Inr Let_def split: if_splits)
  note spec = repair_stores_spec [OF ok cons rec r]
  have j: "ps_journal t0 = ps_journal s" using spec(1) by auto
  have "\<forall>b\<in>set (forward_blocks (records (ps_journal s))). header_of_entry (se_hdr P) b"
    "distinct (map block_height (forward_blocks (records (ps_journal s))))"
    using rec unfolding recoverable_def Let_def by blast+
  then have "t = t0" using check_heights_held [OF spec(2) _ _ c] spec(4) j by simp
  then show "\<exists>ix pf px. t = s\<lparr>ps_header_index := ix, ps_proof_file := pf, ps_proof_index := px\<rparr>" "stores_ok P t"
    "\<exists>d. hi_heights (ps_header_index t) = Some d" "\<forall>b\<in>set (forward_blocks (records (ps_journal s))). held P t b"
    "tip_last P (ps_proof_file t) (ps_proof_index t) (forward_blocks (records (ps_journal s)))"
    using spec by simp_all
qed



subsection \<open>A start-up with empty stores\<close>

definition example_replay_record :: "u8 JournalRecord" where
  "example_replay_record = (example_record (example_entry 1))\<lparr>jr_replay :=
     Some \<lparr>rp_header = 1, rp_proof = example_empty_proof, rp_proof_forest_rows = 2\<rparr>\<rparr>"

definition example_restart :: "(u8, bytes \<Rightarrow> bytes option, (bytes \<Rightarrow> bytes option) \<times> nat, string \<Rightarrow> bytes \<Rightarrow> bytes option) PersistenceState" where
  "example_restart = example_worker (example_journal []\<lparr>fj_records := [example_replay_record]\<rparr>)"

definition example_recovery_io :: "'d recovery_io" where
  "example_recovery_io = \<lparr>ro_append = no_faults, ro_put = (\<lambda>_. no_faults), ro_proof_sync = no_faults, ro_header_sync = (\<lambda>_. no_faults),
     ro_mark = (\<lambda>_. no_faults), ro_reindex = (\<lambda>_. no_faults), ro_truncate = no_faults, ro_torn = (\<lambda>f. f)\<rparr>"

definition example_rpc :: "u8 chain_rpc" where
  "example_rpc = \<lparr>rpc_block_header = (\<lambda>h. Inr (hd h)), rpc_block_hash = (\<lambda>h. Inr (replicate 32 (ucast h)))\<rparr>"

lemma example_restart_journal:
  "records (ps_journal example_restart) = [example_replay_record]" "forward_blocks [example_replay_record] = example_window"
  "latest_forward (ps_journal example_restart) = Some (0, example_replay_record)"
  by (simp_all add: latest_forward_def records_def records_upto_def example_restart_def example_worker_def example_journal_def
      example_replay_record_def example_record_def example_window_def record_block_def is_forward_def)

lemma example_restart_ok: "stores_ok example_stores example_restart" "consensus_ok (se_cons example_stores)" "recoverable example_stores example_restart"
proof -
  show "stores_ok example_stores example_restart" by (simp add: example_restart_def example_worker_ok)
  show "consensus_ok (se_cons example_stores)" by (simp add: example_stores_def example_env_def std_consensus_ok)
  have "ps_header_index example_restart = ps_header_index (example_worker j)" for j by (simp add: example_restart_def example_worker_def)
  moreover have "ps_bootstrap_height example_restart = 0" "ps_proof_index example_restart = (\<lambda>_ _. None)"
    by (simp_all add: example_restart_def example_worker_def)
  ultimately show "recoverable example_stores example_restart"
    using example_window_ok(1,2) example_wf(2)
    by (simp add: recoverable_def example_restart_journal stored_index_def Let_def)
      (simp add: example_stores_def example_kv_def example_replay_record_def example_window_def example_entry_def record_block_def
        example_record_def is_forward_def)
qed

lemma example_get_height: "hi_heights ix = Some d \<Longrightarrow> consistent example_index_db example_headers ix \<Longrightarrow>
    \<exists>q. get_height example_index_db example_headers ix hash = Inr q"
  using read_height_eq [OF example_header_ok, of ix example_index_db d hash]
  by (cases d) (auto simp: get_height_def available_heights_def consistent_def index_view_def example_index_db_def)

lemma example_repair_stores: "\<exists>t. repair_stores example_stores example_recovery_io example_restart = (t, Inr ())"
proof -
  let ?ix = "ps_header_index example_restart"
  have hdr: "se_hdr example_stores = example_headers" "se_index example_stores = example_index_db" "se_kv example_stores = example_kv"
    "se_cons example_stores = std_consensus"
    by (simp_all add: example_stores_def example_env_def)
  have av: "hi_heights ?ix = Some (Map.empty, 4)" by (simp add: example_restart_def example_worker_def)
  obtain ix d where ix: "HeaderIndex_put example_index_db example_headers no_faults ?ix 1 1 = (ix, Inr ())" "hi_heights ix = Some d"
    using example_put_ok [OF av] by blast
  have "get_by_height example_headers ?ix 1 = Inr None"
    by (simp add: get_by_height_def available_heights_def av read_header_def) (simp add: example_restart_def example_worker_def synced_file_def HEADER_SIZE_def)
  then have m: "header_missing example_stores example_restart (example_entry 1) 1 = Inr True"
    by (simp add: header_missing_def hdr example_entry_def bind_r_def)
  have a: "append_proof std_consensus no_faults 0 (ProofFile_new None) example_empty_proof =
      (example_proof_file, Inr \<lparr>bi_offset = 0, bi_size = 3, bi_proof_forest_rows = None\<rparr>)"
    by (simp add: append_proof_def reserve_def write_reserved_def example_proof_bytes MAX_COMPACT_PROOF_BYTES_def ProofFile_new_def
        synced_file_def checked_add_def vf_write_def no_faults_def put_data_def write_at_def set_len_bytes_def example_proof_file_def)
  have e: "je_height (example_entry 1) = 1" "jr_entry example_replay_record = example_entry 1" "jr_status example_replay_record = Forward"
    "jr_replay example_replay_record = Some \<lparr>rp_header = 1, rp_proof = example_empty_proof, rp_proof_forest_rows = 2\<rparr>"
    by (simp_all add: example_entry_def example_replay_record_def example_record_def)
  have pf: "ps_proof_file example_restart = ProofFile_new None" "ps_proof_index example_restart = (\<lambda>_ _. None)"
    by (simp_all add: example_restart_def example_worker_def)
  have "\<exists>t i. repair_record example_stores example_recovery_io 0 False example_restart (example_entry 1)
      \<lparr>rp_header = 1, rp_proof = example_empty_proof, rp_proof_forest_rows = 2\<rparr> = (t, Inr (Some i)) \<and>
      ps_header_index t = ix \<and> bi_proof_forest_rows (fst i) = Some 2"
    using m ix a by (simp add: repair_record_def hdr on_store_def e example_recovery_io_def pf get_index_def example_kv_def proof_valid_def)
  then obtain t i where t: "repair_record example_stores example_recovery_io 0 False example_restart (example_entry 1)
      \<lparr>rp_header = 1, rp_proof = example_empty_proof, rp_proof_forest_rows = 2\<rparr> = (t, Inr (Some i))"
      "ps_header_index t = ix" "bi_proof_forest_rows (fst i) = Some 2" by blast
  then show ?thesis
    using ix(2) by (cases i; cases d)
      (simp add: repair_stores_def example_restart_journal e on_store_def example_recovery_io_def hdr, simp add: ProofFile_sync_def vf_sync_def no_faults_def
       HeaderIndex_sync_def available_heights_def ok_or_def example_index_db_def append_batch_def example_kv_def)
qed


lemma example_forest_replay:
  "replay_journal example_fenv example_steady (ps_journal example_restart) = Inr (example_steady, True)"
proof -
  have e: "jr_entry example_replay_record = example_entry 1" "jr_status example_replay_record = Forward" "fj_needs_replay (ps_journal example_restart)"
    by (simp_all add: example_replay_record_def example_record_def example_restart_def example_worker_def example_journal_def)
  have "apply_backward example_fenv example_steady (example_entry 1) = Inr example_steady"
    "apply_forward example_fenv example_steady (example_entry 1) = Inr example_steady"
    by (simp_all add: apply_backward_def apply_forward_def example_entry_def journal_forest_rows_def apply_leaf_map_delta_def previous_num_leaves_def
        checked_sub_def ok_or_def example_steady_def example_fenv_def)
  then show ?thesis by (simp add: replay_journal_def example_restart_journal e) (simp add: sync_def example_fenv_def)
qed


end
