(* ===== verification/Bridge_Hints.thy ===== *)
theory Bridge_Hints
  imports Journal_File
begin

text \<open>
  The bridge's hints file (\<open>src/src/prefixed_hints.rs\<close>): a prefix with the number of leaves each
  block adds, in front of an unmodified \<open>hintsfile\<close> payload. Writing and reading the prefix are
  shown to be inverse, and lookups to be exact at every height.
\<close>

section \<open>The payload\<close>

text \<open>The \<open>hintsfile\<close> crate is a parameter.\<close>

record 'f hints_ops =
  hf_from_reader :: "'f reader"
  hf_stop_height :: "'f \<Rightarrow> u32"
  hf_indices_at_height :: "'f \<Rightarrow> u32 \<Rightarrow> u32 list option"

section \<open>Reading\<close>

definition MAGIC :: bytes where "MAGIC = ascii ''BRLFCT01''"
definition COUNT_SIZE :: nat where "COUNT_SIZE = 4"

record 'f BridgeHints =
  bh_hints :: 'f
  bh_leaf_counts :: bytes

definition from_reader :: "'f hints_ops \<Rightarrow> 'f BridgeHints reader" where
  "from_reader F r =
     bind_r (take_array (length MAGIC) r) (\<lambda>(magic, r).
     bind_r (ensure (magic = MAGIC) ''hintsfile is missing the bridge leaf-count prefix'') (\<lambda>_.
     bind_r (take_array 4 r) (\<lambda>(height, r).
     let stop = from_le height :: u32 in
     bind_r (ensure (stop \<noteq> 0) ''bridge hints stop height must be greater than zero'') (\<lambda>_.
     bind_r (ok_or (if unat stop * COUNT_SIZE < 2 ^ 64 then Some (unat stop * COUNT_SIZE) else None)
         ''bridge leaf-count section length overflow'') (\<lambda>count_bytes.
     bind_r (take_array count_bytes r) (\<lambda>(leaf_counts, r).
     bind_r (hf_from_reader F r) (\<lambda>(hints, r).
     bind_r (ensure (hf_stop_height F hints = stop) ''bridge leaf counts and hints payload stop at different heights'') (\<lambda>_.
       Inr (\<lparr>bh_hints = hints, bh_leaf_counts = leaf_counts\<rparr>, r)))))))))"

definition stop_height :: "'f hints_ops \<Rightarrow> 'f BridgeHints \<Rightarrow> u32" where
  "stop_height F h = hf_stop_height F (bh_hints h)"

definition leaf_count_at_height :: "'f hints_ops \<Rightarrow> 'f BridgeHints \<Rightarrow> u32 \<Rightarrow> u32 option" where
  "leaf_count_at_height F h height =
     (case checked_sub height 1 of
        None \<Rightarrow> None
      | Some index \<Rightarrow>
          if stop_height F h < height then None
          else
            let offset = unat index * COUNT_SIZE
            in if offset + COUNT_SIZE \<le> length (bh_leaf_counts h)
               then Some (from_le (sub (bh_leaf_counts h) offset (offset + COUNT_SIZE))) else None)"

definition indices_at_height :: "'f hints_ops \<Rightarrow> 'f BridgeHints \<Rightarrow> u32 \<Rightarrow> u32 list option" where
  "indices_at_height F h height = hf_indices_at_height F (bh_hints h) height"

section \<open>Writing\<close>

definition COUNTS_PER_WRITE :: nat where "COUNTS_PER_WRITE = 1024"

text \<open>\<open>slice::chunks\<close>.\<close>

function chunks :: "nat \<Rightarrow> 'a list \<Rightarrow> 'a list list" where
  "chunks n xs = (if xs = [] \<or> n = 0 then [] else take n xs # chunks n (drop n xs))"
  by pat_completeness auto
termination
  by (relation "measure (\<lambda>(n, xs). length xs)") auto

declare chunks.simps [simp del]

text \<open>One write: the counts go into the front of the reused buffer, which keeps its old tail.\<close>

definition write_chunk :: "u32 list \<Rightarrow> bytes \<times> bytes \<Rightarrow> bytes \<times> bytes" where
  "write_chunk counts = (\<lambda>(out, encoded).
     let encoded = concat (map (le_bytes COUNT_SIZE) counts) @ drop (length counts * COUNT_SIZE) encoded
     in (out @ take (length counts * COUNT_SIZE) encoded, encoded))"

definition write_leaf_count_prefix :: "bytes \<Rightarrow> u32 \<Rightarrow> u32 list \<Rightarrow> bytes res" where
  "write_leaf_count_prefix writer stop leaf_counts =
     bind_r (ensure (length leaf_counts = unat stop + 1) ''unexpected number of leaf counts including height zero'') (\<lambda>_.
     bind_r (ensure (leaf_counts ! 0 = 0) ''height-zero leaf count must be zero'') (\<lambda>_.
       Inr (fst (fold write_chunk (chunks COUNTS_PER_WRITE (drop 1 leaf_counts))
              (writer @ MAGIC @ le_bytes 4 stop, replicate (COUNTS_PER_WRITE * COUNT_SIZE) 0)))))"

section \<open>The prefix round trip\<close>

lemma concat_chunks: "0 < n \<Longrightarrow> concat (chunks n xs) = xs"
  by (induction n xs rule: chunks.induct) (subst chunks.simps, auto)

lemma length_concat_counts: "length (concat (map (le_bytes 4) cs)) = length cs * 4"
  by (induction cs) auto

lemma fold_write_chunk:
  "fst (fold write_chunk cs (out, encoded)) = out @ concat (map (le_bytes 4) (concat cs))"
  by (induction cs arbitrary: out encoded)
    (simp_all add: write_chunk_def Let_def COUNT_SIZE_def length_concat_counts)

lemma prefix_bytes:
  "write_leaf_count_prefix writer stop counts = Inr out \<longleftrightarrow>
     length counts = unat stop + 1 \<and> counts ! 0 = 0 \<and>
     out = writer @ MAGIC @ le_bytes 4 stop @ concat (map (le_bytes 4) (drop 1 counts))"
  by (auto simp: write_leaf_count_prefix_def fold_write_chunk concat_chunks COUNTS_PER_WRITE_def)

lemma nth_counts:
  "i < length cs \<Longrightarrow> sub (concat (map (le_bytes 4) cs)) (i * 4) (i * 4 + 4) = le_bytes 4 (cs ! i)"
proof (induction cs arbitrary: i)
  case Nil
  then show ?case by simp
next
  case (Cons c cs)
  show ?case
  proof (cases i)
    case 0
    then show ?thesis by (simp add: sub_def)
  next
    case (Suc j)
    with Cons show ?thesis by (simp add: sub_def)
  qed
qed

lemma length_MAGIC: "length MAGIC = 8"
  by (simp add: MAGIC_def ascii_def)

text \<open>C37. The leaf-count prefix survives the trip through the file: whatever the number of blocks
  (the writer works in chunks of 1024 counts), reading a written prefix in front of a payload that
  stops at the same height leaves the bytes after the payload, the count of every height from 1 to
  the stop height is the one written, and there is none at height zero or above.\<close>

theorem hints_prefix_roundtrip:
  assumes "write_leaf_count_prefix [] stop counts = Inr prefix" and "stop \<noteq> 0"
    and "hf_from_reader F (payload @ rest) = Inr (f, rest)" and "hf_stop_height F f = stop"
  shows "\<exists>h. from_reader F (prefix @ payload @ rest) = Inr (h, rest) \<and>
     (\<forall>height. leaf_count_at_height F h height =
        (if 1 \<le> height \<and> height \<le> stop then Some (counts ! unat height) else None)) \<and>
     indices_at_height F h = hf_indices_at_height F f"
proof -
  have len: "length counts = unat stop + 1"
    and prefix: "prefix = MAGIC @ le_bytes 4 stop @ concat (map (le_bytes 4) (drop 1 counts))"
    using assms(1) by (auto simp: prefix_bytes)
  define cs where "cs = concat (map (le_bytes 4) (drop 1 counts))"
  have sec: "length cs = unat stop * 4" by (simp add: cs_def length_concat_counts len)
  have "unat stop < 2 ^ 32" using unsigned_less [of stop, where 'a = nat] by simp
  define h where "h = \<lparr>bh_hints = f, bh_leaf_counts = cs\<rparr>"
  have "from_reader F (prefix @ payload @ rest) = Inr (h, rest)"
    using assms(2-4) sec \<open>unat stop < 2 ^ 32\<close>
    unfolding prefix cs_def [symmetric]
    by (simp add: from_reader_def take_array_def length_MAGIC COUNT_SIZE_def Let_def h_def)
  moreover have "leaf_count_at_height F h height =
      (if 1 \<le> height \<and> height \<le> stop then Some (counts ! unat height) else None)" for height
  proof (cases "1 \<le> height \<and> height \<le> stop")
    case True
    then have u: "unat (height - 1) = unat height - 1" "1 \<le> unat height" "unat height \<le> unat stop"
      by (simp_all add: unat_sub word_le_nat_alt)
    then have "unat height - 1 < length (drop 1 counts)" by (simp add: len)
    from nth_counts [OF this] u len
    have "sub cs ((unat height - 1) * 4) ((unat height - 1) * 4 + 4) = le_bytes 4 (counts ! unat height)"
      by (simp add: cs_def)
    moreover have "(unat height - 1) * 4 + 4 \<le> length cs" using u by (simp add: sec)
    ultimately show ?thesis using True u
      by (simp add: leaf_count_at_height_def checked_sub_def stop_height_def h_def assms(4) not_less COUNT_SIZE_def Let_def)
  next
    case False
    then show ?thesis
      by (auto simp: leaf_count_at_height_def checked_sub_def stop_height_def h_def assms(4) not_le)
  qed
  ultimately show ?thesis by (auto simp: indices_at_height_def h_def)
qed

definition example_hints :: "unit hints_ops" where
  "example_hints = \<lparr>hf_from_reader = (\<lambda>r. Inr ((), r)), hf_stop_height = (\<lambda>_. 2), hf_indices_at_height = (\<lambda>_ _. Some [])\<rparr>"

theorem hints_prefix_roundtrip_witness:
  "\<exists>prefix h. write_leaf_count_prefix [] 2 [0, 1, 5] = Inr prefix \<and> from_reader example_hints (prefix @ [9]) = Inr (h, [9]) \<and>
     leaf_count_at_height example_hints h 2 = Some 5 \<and> leaf_count_at_height example_hints h 3 = None"
proof -
  obtain prefix where p: "write_leaf_count_prefix [] 2 [0, 1, 5] = Inr prefix" by (simp add: prefix_bytes)
  have "hf_from_reader example_hints ([] @ [9]) = Inr ((), [9])" "hf_stop_height example_hints () = 2"
    by (simp_all add: example_hints_def)
  from hints_prefix_roundtrip [OF p _ this] obtain h where
    "from_reader example_hints (prefix @ [9]) = Inr (h, [9])"
    "\<And>height. leaf_count_at_height example_hints h height =
        (if 1 \<le> height \<and> height \<le> 2 then Some ([0, 1, 5] ! unat height) else None)" by auto
  with p show ?thesis by (intro exI [of _ prefix] exI [of _ h]) simp
qed

end
