(* ===== verification/Spec2Isabelle.thy ===== *)
theory Spec2Isabelle
  imports Udata Proof_Positions Startup_Recovery Bridge_Hints
begin

text \<open>
  The utreexo bridge.
\<close>

end
